(* ===== verification/Prelude.thy ===== *)
theory Prelude
  imports Main "HOL-Library.Word" "HOL-Library.Sublist"
begin

text \<open>
  Shared vocabulary of the development: bytes and machine words, the error and result types of
  \<^verbatim>\<open>include/modern_leveldb/base/result.h\<close>, the sequencing of fallible steps, and the lemmas on
  lists and words that several components use.

  A byte view (\<^verbatim>\<open>ByteView\<close>) is the list of the bytes it shows.  A function that takes a view by
  reference and advances it returns the remaining view beside its result.  Sizes
  (\<^verbatim>\<open>std::size_t\<close>) are natural numbers; casts to narrower integers are written out.
\<close>

named_theorems codec_simps \<open>length and round-trip equations of the byte codecs\<close>

unbundle bit_operations_syntax

type_synonym byte = "8 word"
type_synonym bytes = "byte list"
type_synonym u32 = "32 word"
type_synonym u64 = "64 word"

section \<open>Errors and results\<close>

datatype ErrorCode =
    NotFound
  | Corruption
  | InvalidArgument
  | Io
  | NotSupported
  | Busy
  | Aborted

text \<open>The source location an error carries for diagnostics has no counterpart.\<close>

datatype Error = Error (error_code: ErrorCode) (error_message: string)

type_synonym 'a result = "Error + 'a"
type_synonym status = "unit result"

text \<open>\<open>bindR r f\<close> is the early return \<^verbatim>\<open>if (!r.has_value()) return std::unexpected(r.error())\<close>
  followed by \<open>f\<close> on the value.\<close>

definition bindR :: "'e + 'a \<Rightarrow> ('a \<Rightarrow> 'e + 'b) \<Rightarrow> 'e + 'b" where
  "bindR r f = (case r of Inl e \<Rightarrow> Inl e | Inr x \<Rightarrow> f x)"

lemma bindR_simps [simp]:
  "bindR (Inl e) f = Inl e"
  "bindR (Inr x) f = f x"
  by (simp_all add: bindR_def)

lemma bindR_eq_Inr: "bindR r f = Inr y \<longleftrightarrow> (\<exists>x. r = Inr x \<and> f x = Inr y)"
  by (cases r) simp_all

lemma bindR_eq_Inl: "bindR r f = Inl e \<longleftrightarrow> r = Inl e \<or> (\<exists>x. r = Inr x \<and> f x = Inl e)"
  by (cases r) simp_all

definition has_value :: "'e + 'a \<Rightarrow> bool" where
  "has_value r = (case r of Inl _ \<Rightarrow> False | Inr _ \<Rightarrow> True)"

lemma has_value_simps [simp]: "has_value (Inr x)" "\<not> has_value (Inl e)"
  by (simp_all add: has_value_def)

lemma has_value_iff: "has_value r \<longleftrightarrow> (\<exists>x. r = Inr x)"
  by (cases r) simp_all

section \<open>Byte positions\<close>

lemma byte_index_bound:
  fixes i n len :: nat
  assumes "i < len div 8" "n < 8"
  shows "i * 8 + n < len"
proof -
  from assms(1) have "Suc i * 8 \<le> len div 8 * 8" by (intro mult_le_mono1) simp
  also have "\<dots> \<le> len" by simp
  finally show ?thesis using assms(2) by simp
qed

lemma unat_drop_bit_div: "unat (drop_bit n w) = unat w div 2 ^ n"
  unfolding unat_drop_bit_eq by (rule drop_bit_eq_div)

end
