(* ===== verification/Coding.thy ===== *)
theory Coding
  imports Prelude
begin

text \<open>
  The binary codecs of \<^verbatim>\<open>src/base/coding.cc\<close> and \<^verbatim>\<open>src/base/coding_internal.h\<close>: little-endian
  fixed-width integers, seven-bit varints and length-prefixed byte strings, with the checked
  decoders used at trust boundaries and the trusted ones used behind them.
\<close>

section \<open>Fixed-width integers\<close>

fun DecodeFixedLoop :: "nat \<Rightarrow> 'a::len word \<Rightarrow> bytes \<Rightarrow> 'a word" where
  "DecodeFixedLoop index value [] = value"
| "DecodeFixedLoop index value (b # bs) =
     DecodeFixedLoop (Suc index) (value OR push_bit (index * 8) (ucast b)) bs"

definition DecodeFixedTrusted :: "bytes \<Rightarrow> 'a::len word" where
  "DecodeFixedTrusted input = DecodeFixedLoop 0 0 input"

definition EncodeFixedTrusted :: "'a::len word \<Rightarrow> bytes" where
  "EncodeFixedTrusted value =
     map (\<lambda>index. ucast (drop_bit (index * 8) value AND 0xff)) [0..<LENGTH('a) div 8]"

definition AppendFixed :: "bytes \<Rightarrow> 'a::len word \<Rightarrow> bytes" where
  "AppendFixed output value = output @ EncodeFixedTrusted value"

definition ConsumeFixed :: "bytes \<Rightarrow> string \<Rightarrow> ('a::len word \<times> bytes) result" where
  "ConsumeFixed input truncated_message =
     (let EncodedSize = LENGTH('a) div 8
      in if length input < EncodedSize then Inl (Error Corruption truncated_message)
         else Inr (DecodeFixedTrusted (take EncodedSize input), drop EncodedSize input))"

definition EncodeFixed32 :: "u32 \<Rightarrow> bytes" where
  "EncodeFixed32 value = EncodeFixedTrusted value"

definition EncodeFixed64 :: "u64 \<Rightarrow> bytes" where
  "EncodeFixed64 value = EncodeFixedTrusted value"

definition DecodeFixed32 :: "bytes \<Rightarrow> u32" where
  "DecodeFixed32 input = DecodeFixedTrusted input"

definition DecodeFixed64 :: "bytes \<Rightarrow> u64" where
  "DecodeFixed64 input = DecodeFixedTrusted input"

definition AppendFixed32 :: "bytes \<Rightarrow> u32 \<Rightarrow> bytes" where
  "AppendFixed32 output value = AppendFixed output value"

definition AppendFixed64 :: "bytes \<Rightarrow> u64 \<Rightarrow> bytes" where
  "AppendFixed64 output value = AppendFixed output value"

definition ConsumeFixed32 :: "bytes \<Rightarrow> (u32 \<times> bytes) result" where
  "ConsumeFixed32 input = ConsumeFixed input ''truncated fixed32''"

definition ConsumeFixed64 :: "bytes \<Rightarrow> (u64 \<times> bytes) result" where
  "ConsumeFixed64 input = ConsumeFixed input ''truncated fixed64''"

lemma length_EncodeFixedTrusted [simp]:
  "length (EncodeFixedTrusted (value :: 'a::len word)) = LENGTH('a) div 8"
  by (simp add: EncodeFixedTrusted_def)

lemma bit_DecodeFixedLoop:
  fixes v :: "'a::len word"
  shows "bit (DecodeFixedLoop index v bs) n \<longleftrightarrow>
     bit v n \<or>
     (n < LENGTH('a) \<and> index * 8 \<le> n \<and> n div 8 - index < length bs \<and>
      bit (bs ! (n div 8 - index)) (n mod 8))"
proof (induction index v bs rule: DecodeFixedLoop.induct)
  case (1 index v)
  then show ?case by simp
next
  case (2 index v b bs)
  let ?folded = "v OR push_bit (index * 8) (ucast b) :: 'a word"
  have folded: "bit ?folded n \<longleftrightarrow>
      bit v n \<or> (n < LENGTH('a) \<and> index * 8 \<le> n \<and> bit b (n - index * 8))"
    by (auto simp: bit_or_iff bit_push_bit_iff bit_ucast_iff dest: bit_imp_le_length)
  have step: "bit (DecodeFixedLoop index v (b # bs)) n \<longleftrightarrow> bit ?folded n \<or>
      (n < LENGTH('a) \<and> Suc index * 8 \<le> n \<and> n div 8 - Suc index < length bs \<and>
       bit (bs ! (n div 8 - Suc index)) (n mod 8))"
    unfolding DecodeFixedLoop.simps by (rule 2)
  consider "n < index * 8" | r where "n = index * 8 + r" "r < 8" | "Suc index * 8 \<le> n"
    by (metis add.commute le_add_diff_inverse mult_Suc nat_add_left_cancel_less not_le)
  then show ?case
  proof cases
    case 1
    with step folded show ?thesis by simp
  next
    case 2
    then have "n div 8 = index" "n mod 8 = r" by simp_all
    with 2 step folded show ?thesis by simp
  next
    case 3
    then have "Suc index \<le> n div 8" by (simp add: less_eq_div_iff_mult_less_eq)
    then have pos: "n div 8 - index = Suc (n div 8 - Suc index)" by simp
    from 3 have "\<not> bit b (n - index * 8)"
      using bit_imp_le_length [of b "n - index * 8"] by auto
    with 3 step folded pos show ?thesis by simp
  qed
qed

lemma bit_DecodeFixedTrusted:
  "bit (DecodeFixedTrusted bs :: 'a::len word) n \<longleftrightarrow>
     n < LENGTH('a) \<and> n div 8 < length bs \<and> bit (bs ! (n div 8)) (n mod 8)"
  by (auto simp: DecodeFixedTrusted_def bit_DecodeFixedLoop)

lemma nth_EncodeFixedTrusted:
  "i < LENGTH('a) div 8 \<Longrightarrow>
     EncodeFixedTrusted (v :: 'a::len word) ! i = ucast (drop_bit (i * 8) v AND 0xff)"
  by (simp add: EncodeFixedTrusted_def)

lemma bit_low_byte:
  "bit (ucast (w AND 0xff :: 'a::len word) :: byte) n \<longleftrightarrow> n < 8 \<and> bit w n"
proof -
  have "(w AND 0xff) = take_bit 8 w" by (simp add: take_bit_eq_mask mask_eq_exp_minus_1)
  then show ?thesis
    by (auto simp: bit_ucast_iff bit_take_bit_iff dest: bit_imp_le_length)
qed

lemma DecodeFixedTrusted_EncodeFixedTrusted [simp]:
  fixes v :: "'a::len word"
  assumes "8 dvd LENGTH('a)"
  shows "DecodeFixedTrusted (EncodeFixedTrusted v) = v"
proof (rule bit_eqI)
  fix n
  assume "possible_bit TYPE('a word) n"
  then have n: "n < LENGTH('a)" by simp
  with assms have "n div 8 < LENGTH('a) div 8"
    by (auto elim!: dvdE simp: less_mult_imp_div_less mult.commute)
  with n show "bit (DecodeFixedTrusted (EncodeFixedTrusted v) :: 'a word) n = bit v n"
    by (simp add: bit_DecodeFixedTrusted nth_EncodeFixedTrusted bit_low_byte bit_drop_bit_eq)
qed

lemma EncodeFixedTrusted_DecodeFixedTrusted:
  assumes "length bs = LENGTH('a) div 8" and "8 dvd LENGTH('a::len)"
  shows "EncodeFixedTrusted (DecodeFixedTrusted bs :: 'a word) = bs"
proof (rule nth_equalityI)
  show "length (EncodeFixedTrusted (DecodeFixedTrusted bs :: 'a word)) = length bs"
    using assms by simp
next
  fix i
  assume "i < length (EncodeFixedTrusted (DecodeFixedTrusted bs :: 'a word))"
  then have i: "i < LENGTH('a) div 8" by simp
  show "EncodeFixedTrusted (DecodeFixedTrusted bs :: 'a word) ! i = bs ! i"
  proof (rule bit_eqI)
    fix n
    assume "possible_bit TYPE(byte) n"
    then have n: "n < 8" by simp
    then have "(i * 8 + n) div 8 = i" "(i * 8 + n) mod 8 = n" by simp_all
    moreover have "i * 8 + n < LENGTH('a)" using i n by (rule byte_index_bound)
    ultimately show "bit (EncodeFixedTrusted (DecodeFixedTrusted bs :: 'a word) ! i) n = bit (bs ! i) n"
      using assms(1) i n
      by (simp add: nth_EncodeFixedTrusted bit_low_byte bit_drop_bit_eq bit_DecodeFixedTrusted)
  qed
qed

lemma ConsumeFixed_EncodeFixedTrusted [codec_simps]:
  assumes "8 dvd LENGTH('a)"
  shows "ConsumeFixed (EncodeFixedTrusted (v :: 'a::len word) @ rest) msg = Inr (v, rest)"
  using assms by (simp add: ConsumeFixed_def)

section \<open>Varints\<close>

definition VarintPayloadBits :: nat where
  "VarintPayloadBits = 7"

function VarintLengthLoop :: "u64 \<Rightarrow> nat \<Rightarrow> nat" where
  "VarintLengthLoop value len =
     (if 0x80 \<le> value then VarintLengthLoop (drop_bit 7 value) (len + 1) else len)"
  by pat_completeness auto
termination
proof (relation "measure (\<lambda>(value, len). unat value)")
  show "wf (measure (\<lambda>(value :: u64, len :: nat). unat value))" by simp
next
  fix x :: u64 and len :: nat
  assume "0x80 \<le> x"
  then have "0x80 \<le> unat x" by (simp add: word_le_nat_alt)
  then have "unat (drop_bit 7 x) < unat x"
    by (simp add: unat_drop_bit_div)
  then show "((drop_bit 7 x, len + 1), (x, len)) \<in> measure (\<lambda>(value :: u64, len :: nat). unat value)"
    by simp
qed

declare VarintLengthLoop.simps [simp del]

definition VarintLengthTrusted :: "u64 \<Rightarrow> nat" where
  "VarintLengthTrusted value = VarintLengthLoop value 1"

definition VarintLength :: "u64 \<Rightarrow> nat" where
  "VarintLength value = VarintLengthTrusted value"

text \<open>
  \<^verbatim>\<open>EncodeVarintTrusted\<close> is a template over the unsigned type.  Its loop test \<^verbatim>\<open>value >= 0x80U\<close> is
  on the value of the integer; the word widths used (32 and 64) both hold \<open>0x80\<close>.
\<close>

function EncodeVarintTrusted :: "'a::len word \<Rightarrow> bytes" where
  "EncodeVarintTrusted value =
     (if 0x80 \<le> unat value
      then ucast ((value AND 0x7f) OR 0x80) # EncodeVarintTrusted (drop_bit 7 value)
      else [ucast value])"
  by pat_completeness auto
termination
  by (relation "measure unat") (auto simp: unat_drop_bit_div)

declare EncodeVarintTrusted.simps [simp del]

text \<open>\<open>EncodeVarint output value\<close> is the acceptance flag, the bytes written at the start of the
  output span and the advanced span.\<close>

definition EncodeVarint :: "bytes \<Rightarrow> 'a::len word \<Rightarrow> bool \<times> bytes \<times> bytes" where
  "EncodeVarint output value =
     (if length output < VarintLengthTrusted (ucast value) then (False, [], output)
      else (let encoded = EncodeVarintTrusted value
            in (True, encoded, drop (length encoded) output)))"

definition EncodeVarint32 :: "bytes \<Rightarrow> u32 \<Rightarrow> bool \<times> bytes \<times> bytes" where
  "EncodeVarint32 output value = EncodeVarint output value"

definition AppendVarint :: "bytes \<Rightarrow> 'a::len word \<Rightarrow> bytes" where
  "AppendVarint output value = output @ EncodeVarintTrusted value"

definition AppendVarint32 :: "bytes \<Rightarrow> u32 \<Rightarrow> bytes" where
  "AppendVarint32 output value = AppendVarint output value"

definition AppendVarint64 :: "bytes \<Rightarrow> u64 \<Rightarrow> bytes" where
  "AppendVarint64 output value = AppendVarint output value"

definition ReadVarintByte :: "bytes \<Rightarrow> nat \<Rightarrow> byte result" where
  "ReadVarintByte input index =
     (if index \<ge> length input then Inl (Error Corruption ''truncated varint'')
      else Inr (input ! index))"

definition FoldVarintPayload :: "'a::len word \<Rightarrow> byte \<Rightarrow> nat \<Rightarrow> 'a word" where
  "FoldVarintPayload value payload shift = value OR push_bit shift (ucast payload)"

definition MaxVarintBytes :: "nat \<Rightarrow> nat" where
  "MaxVarintBytes ValueBits = (ValueBits + VarintPayloadBits - 1) div VarintPayloadBits"

function ConsumeVarintLoop ::
    "bytes \<Rightarrow> nat \<Rightarrow> 'a::len word \<Rightarrow> ('a word \<times> bytes) result" where
  "ConsumeVarintLoop input index value =
     (if index < MaxVarintBytes LENGTH('a) then
        bindR (ReadVarintByte input index) (\<lambda>b.
          let payload = b AND 0x7f;
              shift = index * VarintPayloadBits;
              folded = FoldVarintPayload value payload shift
          in if b AND 0x80 = 0 then Inr (folded, drop (index + 1) input)
             else if index + 1 = MaxVarintBytes LENGTH('a)
             then Inl (Error Corruption ''varint overflow'')
             else ConsumeVarintLoop input (index + 1) folded)
      else Inl (Error Corruption ''invalid varint''))"
  by pat_completeness auto
termination
  by (relation "measure (\<lambda>(input, index, value :: 'a word). MaxVarintBytes LENGTH('a) - index)") auto

declare ConsumeVarintLoop.simps [simp del]

definition ConsumeVarint :: "bytes \<Rightarrow> ('a::len word \<times> bytes) result" where
  "ConsumeVarint input = ConsumeVarintLoop input 0 0"

definition ConsumeVarint32 :: "bytes \<Rightarrow> (u32 \<times> bytes) result" where
  "ConsumeVarint32 input = ConsumeVarint input"

definition ConsumeVarint64 :: "bytes \<Rightarrow> (u64 \<times> bytes) result" where
  "ConsumeVarint64 input = ConsumeVarint input"

text \<open>The trusted decoder tests no bound.  Running past the stored bytes is \<open>None\<close>: the source
  leaves it undefined.\<close>

fun ConsumeVarintTrustedLoop :: "bytes \<Rightarrow> 'a::len word \<Rightarrow> nat \<Rightarrow> ('a word \<times> bytes) option" where
  "ConsumeVarintTrustedLoop [] value shift = None"
| "ConsumeVarintTrustedLoop (b # input) value shift =
     (let folded = FoldVarintPayload value (b AND 0x7f) shift
      in if b AND 0x80 = 0 then Some (folded, input)
         else ConsumeVarintTrustedLoop input folded (shift + 7))"

definition ConsumeVarintTrusted :: "bytes \<Rightarrow> ('a::len word \<times> bytes) option" where
  "ConsumeVarintTrusted input = ConsumeVarintTrustedLoop input 0 0"

definition ConsumeVarint32Trusted :: "bytes \<Rightarrow> (u32 \<times> bytes) option" where
  "ConsumeVarint32Trusted input = ConsumeVarintTrusted input"

definition ConsumeVarint64Trusted :: "bytes \<Rightarrow> (u64 \<times> bytes) option" where
  "ConsumeVarint64Trusted input = ConsumeVarintTrusted input"

section \<open>Length-prefixed byte strings\<close>

definition EncodeLengthPrefixedTrusted :: "bytes \<Rightarrow> bytes" where
  "EncodeLengthPrefixedTrusted value = EncodeVarintTrusted (of_nat (length value) :: u32) @ value"

definition AppendLengthPrefixed :: "bytes \<Rightarrow> bytes \<Rightarrow> bytes" where
  "AppendLengthPrefixed output value = output @ EncodeLengthPrefixedTrusted value"

definition ValidateLengthPrefixedPayload :: "bytes \<Rightarrow> u32 \<Rightarrow> status" where
  "ValidateLengthPrefixedPayload remaining len =
     (if length remaining < unat len
      then Inl (Error Corruption ''truncated length-prefixed value'')
      else Inr ())"

definition ConsumeLengthPrefixed :: "bytes \<Rightarrow> (bytes \<times> bytes) result" where
  "ConsumeLengthPrefixed input =
     bindR (ConsumeVarint32 input) (\<lambda>(len, remaining).
     bindR (ValidateLengthPrefixedPayload remaining len) (\<lambda>_.
     Inr (take (unat len) remaining, drop (unat len) remaining)))"

definition ConsumeLengthPrefixedTrusted :: "bytes \<Rightarrow> (bytes \<times> bytes) option" where
  "ConsumeLengthPrefixedTrusted input =
     (case ConsumeVarint32Trusted input of
        None \<Rightarrow> None
      | Some (len, rest) \<Rightarrow>
          if length rest < unat len then None
          else Some (take (unat len) rest, drop (unat len) rest))"

section \<open>Varint round trips\<close>

text \<open>The continuation byte of a varint group carries the low seven bits and the flag.\<close>

lemma low_payload_bits: "(w :: 'a::len word) AND 0x7f = take_bit 7 w"
  by (simp add: take_bit_eq_mask mask_eq_exp_minus_1)

lemma bit_flag: "bit (0x80 :: 'a::len word) n \<longleftrightarrow> n = 7 \<and> 7 < LENGTH('a)"
proof -
  have "(0x80 :: 'a word) = 2 ^ 7" by simp
  then show ?thesis by (simp only: bit_exp_iff possible_bit_word) auto
qed

lemma flag_bit_clear: "((b :: byte) AND 0x80 = 0) \<longleftrightarrow> \<not> bit b 7"
proof
  assume "b AND 0x80 = 0"
  then have "\<not> bit (b AND 0x80) 7" by simp
  then show "\<not> bit b 7" by (simp add: bit_and_iff bit_flag del: bit_numeral_word_iff)
next
  assume "\<not> bit b 7"
  then show "b AND 0x80 = 0"
    by (intro bit_word_eqI) (auto simp: bit_and_iff bit_flag simp del: bit_numeral_word_iff)
qed

lemma continuation_byte:
  fixes v :: "'a::len word"
  assumes "7 < LENGTH('a)"
  defines "b \<equiv> ucast ((v AND 0x7f) OR 0x80) :: byte"
  shows "bit b 7" and "(ucast (b AND 0x7f) :: 'a word) = take_bit 7 v"
proof -
  have b: "bit b n \<longleftrightarrow> n < 8 \<and> (n < 7 \<and> bit v n \<or> n = 7)" for n
    unfolding b_def low_payload_bits using assms(1)
    by (auto simp: bit_ucast_iff bit_or_iff bit_take_bit_iff bit_flag simp del: bit_numeral_word_iff)
  show "bit b 7" by (simp add: b)
  show "(ucast (b AND 0x7f) :: 'a word) = take_bit 7 v"
    unfolding low_payload_bits
    by (rule bit_eqI) (auto simp: bit_ucast_iff bit_take_bit_iff b)
qed

lemma terminal_byte:
  fixes v :: "'a::len word"
  assumes "unat v < 0x80"
  defines "b \<equiv> ucast v :: byte"
  shows "\<not> bit b 7" and "(ucast (b AND 0x7f) :: 'a word) = v"
proof -
  have "take_bit 7 v = v"
    by (rule word_unat_eq_iff [THEN iffD2])
      (use assms(1) in \<open>simp add: unsigned_take_bit_eq take_bit_nat_eq_self\<close>)
  then have v: "bit v n \<Longrightarrow> n < 7" for n by (metis bit_take_bit_iff)
  then have b: "bit b n \<longleftrightarrow> n < 7 \<and> bit v n" for n
    unfolding b_def by (auto simp: bit_ucast_iff intro: order_less_trans [OF v])
  show "\<not> bit b 7" by (simp add: b)
  show "(ucast (b AND 0x7f) :: 'a word) = v"
    unfolding low_payload_bits
    by (rule bit_eqI) (use v in \<open>fastforce simp: bit_ucast_iff bit_take_bit_iff b\<close>)
qed

lemma fold_groups:
  fixes v value0 :: "'a::len word"
  shows "(value0 OR push_bit n (take_bit 7 v)) OR push_bit (7 + n) (drop_bit 7 v) = value0 OR push_bit n v"
proof (rule bit_eqI)
  fix k
  assume "possible_bit TYPE('a word) k"
  then show "bit ((value0 OR push_bit n (take_bit 7 v)) OR push_bit (7 + n) (drop_bit 7 v)) k =
      bit (value0 OR push_bit n v) k"
    by (cases "7 + n \<le> k") (auto simp: bit_simps)
qed

lemma MaxVarintBytes_less: "index < MaxVarintBytes n \<longleftrightarrow> 7 * index < n"
proof -
  have "index < MaxVarintBytes n \<longleftrightarrow> Suc index \<le> (n + 6) div 7"
    by (simp add: MaxVarintBytes_def VarintPayloadBits_def Suc_le_eq add.commute)
  also have "\<dots> \<longleftrightarrow> Suc index * 7 \<le> n + 6" by (simp only: less_eq_div_iff_mult_less_eq)
  finally show ?thesis by auto
qed

lemma varint_step:
  fixes v :: "'a::len word"
  assumes "0x80 \<le> unat v" "unat v < 2 ^ (LENGTH('a) - 7 * i)"
  shows "7 * Suc i < LENGTH('a)" and "unat (drop_bit 7 v) < 2 ^ (LENGTH('a) - 7 * Suc i)"
proof -
  have "(2 :: nat) ^ 7 < 2 ^ (LENGTH('a) - 7 * i)" using assms by simp
  then have "7 < LENGTH('a) - 7 * i"
    by (metis one_less_numeral_iff power_less_imp_less_exp semiring_norm(76))
  then show room: "7 * Suc i < LENGTH('a)" by simp
  have "unat v < 2 ^ 7 * 2 ^ (LENGTH('a) - 7 * Suc i)"
    using assms(2) room by (simp flip: power_add del: power_numeral)
  then show "unat (drop_bit 7 v) < 2 ^ (LENGTH('a) - 7 * Suc i)"
    by (simp add: unat_drop_bit_div less_mult_imp_div_less mult.commute)
qed

lemma ConsumeVarintLoop_EncodeVarintTrusted:
  fixes v value0 :: "'a::len word"
  assumes "7 < LENGTH('a)" "unat v < 2 ^ (LENGTH('a) - 7 * length pre)" "7 * length pre < LENGTH('a)"
  shows "ConsumeVarintLoop (pre @ EncodeVarintTrusted v @ rest) (length pre) value0 =
     Inr (value0 OR push_bit (7 * length pre) v, rest)"
  using assms(2,3)
proof (induction v arbitrary: pre value0 rule: EncodeVarintTrusted.induct)
  case (1 v)
  let ?input = "pre @ EncodeVarintTrusted v @ rest" and ?i = "length pre"
  from 1(3) have i: "?i < MaxVarintBytes LENGTH('a)" by (simp add: MaxVarintBytes_less)
  show ?case
  proof (cases "0x80 \<le> unat v")
    case True
    let ?b = "ucast ((v AND 0x7f) OR 0x80) :: byte"
    have enc: "EncodeVarintTrusted v = ?b # EncodeVarintTrusted (drop_bit 7 v)"
      using True by (simp add: EncodeVarintTrusted.simps [of v])
    from varint_step [OF True 1(2)] have j: "7 * length (pre @ [?b]) < LENGTH('a)"
      and small: "unat (drop_bit 7 v) < 2 ^ (LENGTH('a) - 7 * length (pre @ [?b]))" by simp_all
    then have last: "?i + 1 \<noteq> MaxVarintBytes LENGTH('a)"
      using MaxVarintBytes_less [of "?i + 1" "LENGTH('a)"] by simp
    have IH: "ConsumeVarintLoop ((pre @ [?b]) @ EncodeVarintTrusted (drop_bit 7 v) @ rest) (length (pre @ [?b]))
          (value0 OR push_bit (7 * ?i) (take_bit 7 v)) =
        Inr ((value0 OR push_bit (7 * ?i) (take_bit 7 v)) OR push_bit (7 * length (pre @ [?b])) (drop_bit 7 v), rest)"
      by (rule 1(1) [OF True small j])
    note b = continuation_byte [OF assms(1), of v]
    have "ConsumeVarintLoop ?input ?i value0 =
        ConsumeVarintLoop ?input (?i + 1) (value0 OR push_bit (7 * ?i) (take_bit 7 v))"
      using i last b
      by (simp add: ConsumeVarintLoop.simps [of _ ?i] ReadVarintByte_def enc flag_bit_clear Let_def
          FoldVarintPayload_def VarintPayloadBits_def mult.commute)
    with IH show ?thesis by (simp add: enc fold_groups)
  next
    case False
    then have enc: "EncodeVarintTrusted v = [ucast v]"
      by (simp add: EncodeVarintTrusted.simps [of v])
    from False have "unat v < 0x80" by simp
    note b = terminal_byte [OF this]
    show ?thesis
      using i b
      by (simp add: ConsumeVarintLoop.simps [of _ ?i] ReadVarintByte_def enc flag_bit_clear Let_def
          FoldVarintPayload_def VarintPayloadBits_def mult.commute)
  qed
qed

lemma ConsumeVarint_EncodeVarintTrusted:
  fixes v :: "'a::len word"
  assumes "7 < LENGTH('a)"
  shows "ConsumeVarint (EncodeVarintTrusted v @ rest) = Inr (v, rest)"
  using ConsumeVarintLoop_EncodeVarintTrusted [OF assms, of v "[]" rest 0] unsigned_less [of v, where ?'a = nat]
  by (simp add: ConsumeVarint_def)

lemma ConsumeVarint32_Encode [codec_simps]: "ConsumeVarint32 (EncodeVarintTrusted v @ rest) = Inr (v, rest)"
  by (simp add: ConsumeVarint32_def ConsumeVarint_EncodeVarintTrusted)

lemma ConsumeVarint64_Encode [codec_simps]: "ConsumeVarint64 (EncodeVarintTrusted v @ rest) = Inr (v, rest)"
  by (simp add: ConsumeVarint64_def ConsumeVarint_EncodeVarintTrusted)

section \<open>Sizes, truncation and the trusted decoders\<close>

lemma EncodeVarintTrusted_unat:
  fixes v :: "'a::len word" and w :: "'b::len word"
  assumes "7 < LENGTH('a)" "7 < LENGTH('b)" "unat v = unat w"
  shows "length (EncodeVarintTrusted v) = length (EncodeVarintTrusted w)"
  using assms(3)
proof (induction v arbitrary: w rule: EncodeVarintTrusted.induct)
  case (1 v)
  show ?case
  proof (cases "0x80 \<le> unat v")
    case True
    have "unat (drop_bit 7 v) = unat (drop_bit 7 w)" using 1(2) by (simp add: unat_drop_bit_div)
    from 1(1) [OF True this] True 1(2) show ?thesis
      by (simp add: EncodeVarintTrusted.simps [of v] EncodeVarintTrusted.simps [of w])
  next
    case False
    with 1(2) show ?thesis
      by (simp add: EncodeVarintTrusted.simps [of v] EncodeVarintTrusted.simps [of w])
  qed
qed

lemma VarintLengthLoop_length: "VarintLengthLoop v n + 1 = n + length (EncodeVarintTrusted v)"
proof (induction v n rule: VarintLengthLoop.induct)
  case (1 v n)
  then show ?case
    by (auto simp: VarintLengthLoop.simps [of v] EncodeVarintTrusted.simps [of v] word_le_nat_alt)
qed

lemma VarintLengthTrusted_length [codec_simps]:
  fixes v :: "'a::len word"
  assumes "7 < LENGTH('a)" "LENGTH('a) \<le> 64"
  shows "VarintLengthTrusted (ucast v) = length (EncodeVarintTrusted v)"
proof -
  have "unat (ucast v :: u64) = unat v"
    using order_less_le_trans [OF unsigned_less [of v] power_increasing [OF assms(2), of "2 :: nat"]]
    by (simp add: unsigned_ucast_eq take_bit_nat_eq_self)
  then have "length (EncodeVarintTrusted (ucast v :: u64)) = length (EncodeVarintTrusted v)"
    using assms(1) by (intro EncodeVarintTrusted_unat) simp_all
  then show ?thesis
    using VarintLengthLoop_length [of "ucast v" 1] by (simp add: VarintLengthTrusted_def)
qed

lemma length_EncodeVarintTrusted_le:
  fixes v :: "'a::len word"
  assumes "unat v < 2 ^ (7 * n)" "0 < n"
  shows "length (EncodeVarintTrusted v) \<le> n"
  using assms
proof (induction v arbitrary: n rule: EncodeVarintTrusted.induct)
  case (1 v)
  show ?case
  proof (cases "0x80 \<le> unat v")
    case True
    with 1(2) have "(2 :: nat) ^ 7 < 2 ^ (7 * n)" by simp
    then have "7 < 7 * n" by (metis one_less_numeral_iff power_less_imp_less_exp semiring_norm(76))
    then obtain m where m: "n = Suc m" "0 < m" by (cases n) auto
    have "unat (drop_bit 7 v) < 2 ^ (7 * m)"
      using 1(2) m by (simp add: unat_drop_bit_div less_mult_imp_div_less power_add mult.commute)
    from 1(1) [OF True this m(2)] True m(1) show ?thesis
      by (simp add: EncodeVarintTrusted.simps [of v])
  next
    case False
    with 1(3) show ?thesis by (simp add: EncodeVarintTrusted.simps [of v])
  qed
qed

lemma EncodeVarintTrusted_nonempty [simp]: "EncodeVarintTrusted v \<noteq> []"
  by (simp add: EncodeVarintTrusted.simps [of v])

lemma ConsumeVarintLoop_trusted:
  fixes value0 :: "'a::len word"
  assumes "ConsumeVarintLoop input index value0 = Inr (v, rest)"
  shows "ConsumeVarintTrustedLoop (drop index input) value0 (7 * index) = Some (v, rest) \<and>
     (\<exists>k > index. k \<le> length input \<and> rest = drop k input)"
  using assms
proof (induction input index value0 rule: ConsumeVarintLoop.induct)
  case (1 input index value0)
  from 1(2) have i: "index < MaxVarintBytes LENGTH('a)" "index < length input"
    by (auto simp: ConsumeVarintLoop.simps [of input] ReadVarintByte_def split: if_splits)
  let ?b = "input ! index"
  let ?v = "FoldVarintPayload value0 (?b AND 0x7f) (7 * index)"
  have read: "ReadVarintByte input index = Inr ?b" using i(2) by (simp add: ReadVarintByte_def)
  have drop: "drop index input = ?b # drop (Suc index) input" using i(2) by (simp add: Cons_nth_drop_Suc)
  show ?case
  proof (cases "?b AND 0x80 = 0")
    case True
    with 1(2) i read have "v = ?v" "rest = drop (Suc index) input"
      by (simp_all add: ConsumeVarintLoop.simps [of input] Let_def VarintPayloadBits_def mult.commute)
    with True drop i show ?thesis by (auto simp: Let_def intro!: exI [of _ "Suc index"])
  next
    case False
    with 1(2) i read have last: "index + 1 \<noteq> MaxVarintBytes LENGTH('a)"
      and rec: "ConsumeVarintLoop input (index + 1) ?v = Inr (v, rest)"
      by (auto simp: ConsumeVarintLoop.simps [of input index] Let_def VarintPayloadBits_def mult.commute
          split: if_splits)
    obtain k where "ConsumeVarintTrustedLoop (drop (index + 1) input) ?v (7 * (index + 1)) = Some (v, rest)"
        "k > index + 1" "k \<le> length input" "rest = drop k input"
      using 1(1) [OF i(1) refl refl refl, of ?b] False last rec
      by (auto simp: VarintPayloadBits_def mult.commute)
    with False drop show ?thesis by (auto simp: Let_def add.commute intro!: exI [of _ k])
  qed
qed

lemma ConsumeVarintTrusted_checked:
  "ConsumeVarint input = Inr (v, rest) \<Longrightarrow> ConsumeVarintTrusted input = Some (v, rest)"
  using ConsumeVarintLoop_trusted [of input 0 0 v rest]
  by (simp add: ConsumeVarint_def ConsumeVarintTrusted_def)

lemma ConsumeVarint_suffix:
  "ConsumeVarint input = Inr (v, rest) \<Longrightarrow> \<exists>k > 0. k \<le> length input \<and> rest = drop k input"
  using ConsumeVarintLoop_trusted [of input 0 0 v rest] by (simp add: ConsumeVarint_def)

lemma ConsumeVarint_shorter:
  "ConsumeVarint input = Inr (v, rest) \<Longrightarrow> length rest < length input"
  by (auto dest!: ConsumeVarint_suffix)

lemma ConsumeVarintLoop_truncated:
  fixes v value0 :: "'a::len word"
  assumes "7 < LENGTH('a)" "unat v < 2 ^ (LENGTH('a) - 7 * length pre)" "7 * length pre < LENGTH('a)"
    "k < length (EncodeVarintTrusted v)"
  shows "ConsumeVarintLoop (pre @ take k (EncodeVarintTrusted v)) (length pre) value0 =
     Inl (Error Corruption ''truncated varint'')"
  using assms(2-)
proof (induction v arbitrary: pre value0 k rule: EncodeVarintTrusted.induct)
  case (1 v)
  let ?i = "length pre"
  from 1(3) have i: "?i < MaxVarintBytes LENGTH('a)" by (simp add: MaxVarintBytes_less)
  show ?case
  proof (cases k)
    case 0
    with i show ?thesis by (simp add: ConsumeVarintLoop.simps [of _ ?i] ReadVarintByte_def)
  next
    case (Suc m)
    have True: "0x80 \<le> unat v"
      using 1(4) Suc by (auto simp: EncodeVarintTrusted.simps [of v] split: if_splits)
    let ?b = "ucast ((v AND 0x7f) OR 0x80) :: byte"
    have enc: "EncodeVarintTrusted v = ?b # EncodeVarintTrusted (drop_bit 7 v)"
      using True by (simp add: EncodeVarintTrusted.simps [of v])
    from varint_step [OF True 1(2)] have j: "7 * length (pre @ [?b]) < LENGTH('a)"
      and small: "unat (drop_bit 7 v) < 2 ^ (LENGTH('a) - 7 * length (pre @ [?b]))" by simp_all
    then have last: "?i + 1 \<noteq> MaxVarintBytes LENGTH('a)"
      using MaxVarintBytes_less [of "?i + 1" "LENGTH('a)"] by simp
    have m: "m < length (EncodeVarintTrusted (drop_bit 7 v))" using 1(4) Suc enc by simp
    note b = continuation_byte [OF assms(1), of v]
    show ?thesis
      using 1(1) [OF True small j m] i last b Suc
      by (simp add: ConsumeVarintLoop.simps [of _ ?i] ReadVarintByte_def enc flag_bit_clear Let_def)
  qed
qed

lemma ConsumeVarint_truncated:
  fixes v :: "'a::len word"
  assumes "7 < LENGTH('a)" "k < length (EncodeVarintTrusted v)"
  shows "(ConsumeVarint (take k (EncodeVarintTrusted v)) :: ('a word \<times> bytes) result) =
     Inl (Error Corruption ''truncated varint'')"
  using ConsumeVarintLoop_truncated [OF assms(1), of v "[]" k 0] assms(2)
    unsigned_less [of v, where ?'a = nat]
  by (simp add: ConsumeVarint_def)

lemma ConsumeLengthPrefixed_Encode [codec_simps]:
  "length payload < 2 ^ 32 \<Longrightarrow>
     ConsumeLengthPrefixed (EncodeLengthPrefixedTrusted payload @ rest) = Inr (payload, rest)"
  by (simp add: ConsumeLengthPrefixed_def EncodeLengthPrefixedTrusted_def codec_simps
      ValidateLengthPrefixedPayload_def unat_of_nat)

lemma ConsumeLengthPrefixed_Inr:
  "ConsumeLengthPrefixed input = Inr (payload, rest) \<longleftrightarrow>
     (\<exists>len tail. ConsumeVarint32 input = Inr (len, tail) \<and> unat len \<le> length tail \<and>
       payload = take (unat len) tail \<and> rest = drop (unat len) tail)"
  by (cases "ConsumeVarint32 input")
    (auto simp: ConsumeLengthPrefixed_def ValidateLengthPrefixedPayload_def split: if_splits)

lemma ConsumeLengthPrefixed_shorter:
  "ConsumeLengthPrefixed input = Inr (payload, rest) \<Longrightarrow> length rest < length input"
  by (auto simp: ConsumeLengthPrefixed_Inr ConsumeVarint32_def dest!: ConsumeVarint_shorter)

lemma ConsumeLengthPrefixedTrusted_checked:
  "ConsumeLengthPrefixed input = Inr r \<Longrightarrow> ConsumeLengthPrefixedTrusted input = Some r"
  by (cases r) (auto simp: ConsumeLengthPrefixed_Inr ConsumeLengthPrefixedTrusted_def
      ConsumeVarint32_def ConsumeVarint32Trusted_def dest!: ConsumeVarintTrusted_checked)

lemma ConsumeLengthPrefixedTrusted_Encode [codec_simps]:
  "length payload < 2 ^ 32 \<Longrightarrow>
     ConsumeLengthPrefixedTrusted (EncodeLengthPrefixedTrusted payload @ rest) = Some (payload, rest)"
  by (intro ConsumeLengthPrefixedTrusted_checked ConsumeLengthPrefixed_Encode)

section \<open>Properties\<close>

text \<open>C22: Varint round trip.  What \<open>AppendVarint32\<close> and \<open>AppendVarint64\<close> append to any buffer is decoded,
  at that point of the buffer, to the value and the bytes that follow; it takes at most five and ten
  bytes, exactly \<open>VarintLength\<close> of them.\<close>

theorem varint_roundtrip:
  "ConsumeVarint32 (drop (length out) (AppendVarint32 out v @ rest)) = Inr (v, rest) \<and>
   ConsumeVarint64 (drop (length out) (AppendVarint64 out w @ rest)) = Inr (w, rest) \<and>
   length (AppendVarint32 out v) \<le> length out + 5 \<and> length (AppendVarint64 out w) \<le> length out + 10 \<and>
   length (AppendVarint64 out w) = length out + VarintLength w"
proof -
  have "unat v < 2 ^ (7 * 5)" "unat w < 2 ^ (7 * 10)"
    using unsigned_less [of v, where ?'a = nat] unsigned_less [of w, where ?'a = nat] by simp_all
  then have "length (EncodeVarintTrusted v) \<le> 5" "length (EncodeVarintTrusted w) \<le> 10"
    using length_EncodeVarintTrusted_le [of v 5] length_EncodeVarintTrusted_le [of w 10] by simp_all
  then show ?thesis
    using VarintLengthTrusted_length [of w]
    by (simp add: AppendVarint32_def AppendVarint64_def AppendVarint_def codec_simps VarintLength_def)
qed

text \<open>C23: The unchecked decoders agree with the checked ones.  Wherever checked decoding of a varint, or
  of a length-prefixed string, succeeds, the decoder without bounds tests reads within the input and
  returns the same value and the same rest.\<close>

theorem trusted_decoding_agrees:
  "(ConsumeVarint32 input = Inr (v, rest) \<longrightarrow> ConsumeVarint32Trusted input = Some (v, rest)) \<and>
   (ConsumeVarint64 input = Inr (w, rest) \<longrightarrow> ConsumeVarint64Trusted input = Some (w, rest)) \<and>
   (ConsumeLengthPrefixed input = Inr (payload, rest) \<longrightarrow> ConsumeLengthPrefixedTrusted input = Some (payload, rest))"
  by (auto simp: ConsumeVarint32_def ConsumeVarint64_def ConsumeVarint32Trusted_def ConsumeVarint64Trusted_def
      intro: ConsumeVarintTrusted_checked ConsumeLengthPrefixedTrusted_checked)

theorem trusted_decoding_agrees_witness:
  "ConsumeVarint32Trusted (EncodeVarintTrusted (300 :: u32) @ [7]) = Some (300, [7]) \<and>
   ConsumeLengthPrefixedTrusted (EncodeLengthPrefixedTrusted [1, 2] @ [9]) = Some ([1, 2], [9])"
  using trusted_decoding_agrees [of "EncodeVarintTrusted (300 :: u32) @ [7]" 300 "[7]"]
    trusted_decoding_agrees [of "EncodeLengthPrefixedTrusted [1, 2] @ [9]" _ "[9]" _ "[1, 2]"]
  by (simp add: codec_simps)

text \<open>Fixed-width integers.  Encoding is the inverse of decoding in both directions, for 32 and for
  64 bits, and decoding fails exactly on inputs that are too short.\<close>

theorem fixed_roundtrip:
  "DecodeFixed32 (EncodeFixed32 v) = v \<and> DecodeFixed64 (EncodeFixed64 w) = w \<and>
   ConsumeFixed32 (EncodeFixed32 v @ rest) = Inr (v, rest) \<and> ConsumeFixed64 (EncodeFixed64 w @ rest) = Inr (w, rest) \<and>
   (has_value (ConsumeFixed32 input) \<longleftrightarrow> 4 \<le> length input) \<and> (has_value (ConsumeFixed64 input) \<longleftrightarrow> 8 \<le> length input)"
  by (auto simp: EncodeFixed32_def EncodeFixed64_def DecodeFixed32_def DecodeFixed64_def ConsumeFixed32_def
      ConsumeFixed64_def codec_simps ConsumeFixed_def has_value_def Let_def)

end
