(* ===== verification/Checksum.thy ===== *)
theory Checksum
  imports Coding
begin

text \<open>
  Checksums and hashing: \<^verbatim>\<open>src/base/crc32c.cc\<close> and \<^verbatim>\<open>src/base/hash.cc\<close>.  The CRC itself is
  computed by the external library \<^verbatim>\<open>google/crc32c\<close>; \<open>crc32c_Extend\<close> is a parameter of every
  definition that needs it, and no property of its values is assumed anywhere.
\<close>

section \<open>CRC32C and its stored masked form\<close>

type_synonym crc_extend = "u32 \<Rightarrow> bytes \<Rightarrow> u32"

definition MaskDelta :: u32 where
  "MaskDelta = 0xa282ead8"

definition ExtendCrc32c :: "crc_extend \<Rightarrow> u32 \<Rightarrow> bytes \<Rightarrow> u32" where
  "ExtendCrc32c crc32c_Extend crc input = (if input = [] then crc else crc32c_Extend crc input)"

definition Crc32c :: "crc_extend \<Rightarrow> bytes \<Rightarrow> u32" where
  "Crc32c crc32c_Extend input = ExtendCrc32c crc32c_Extend 0 input"

definition MaskCrc32c :: "u32 \<Rightarrow> u32" where
  "MaskCrc32c crc = word_rotr 15 crc + MaskDelta"

definition UnmaskCrc32c :: "u32 \<Rightarrow> u32" where
  "UnmaskCrc32c masked_crc = word_rotl 15 (masked_crc - MaskDelta)"

lemma UnmaskCrc32c_MaskCrc32c [simp]: "UnmaskCrc32c (MaskCrc32c crc) = crc"
  by (simp add: UnmaskCrc32c_def MaskCrc32c_def)

lemma MaskCrc32c_UnmaskCrc32c [simp]: "MaskCrc32c (UnmaskCrc32c crc) = crc"
  by (simp add: UnmaskCrc32c_def MaskCrc32c_def)

section \<open>The 32-bit hash\<close>

definition Multiplier :: u32 where
  "Multiplier = 0xc6a4a793"

definition MixHashWord :: "u32 \<Rightarrow> u32 \<Rightarrow> u32" where
  "MixHashWord hash w = (let mixed = (hash + w) * Multiplier in mixed XOR drop_bit 16 mixed)"

definition LoadHashWord :: "bytes \<Rightarrow> 'a::len word" where
  "LoadHashWord input = DecodeFixedTrusted (take (LENGTH('a) div 8) input)"

definition DecodeHashTail :: "bytes \<Rightarrow> u32 \<Rightarrow> u32" where
  "DecodeHashTail input tail = DecodeFixedLoop 0 tail input"

definition MixHashTail :: "u32 \<Rightarrow> u32 \<Rightarrow> u32" where
  "MixHashTail hash tail = (let mixed = (hash + tail) * Multiplier in mixed XOR drop_bit 24 mixed)"

definition FoldHashTail :: "bytes \<Rightarrow> u32 \<Rightarrow> u32" where
  "FoldHashTail input hash = (if input \<noteq> [] then MixHashTail hash (DecodeHashTail input 0) else hash)"

function Hash32Loop :: "u32 \<Rightarrow> bytes \<Rightarrow> u32 \<times> bytes" where
  "Hash32Loop hash input =
     (if 8 \<le> length input then
        let words = LoadHashWord input :: u64
        in Hash32Loop (MixHashWord (MixHashWord hash (ucast words)) (ucast (drop_bit 32 words)))
             (drop 8 input)
      else (hash, input))"
  by pat_completeness auto
termination
  by (relation "measure (\<lambda>(hash, input). length input)") auto

declare Hash32Loop.simps [simp del]

definition Hash32 :: "bytes \<Rightarrow> u32 \<Rightarrow> u32" where
  "Hash32 input seed =
     (let hash0 = seed XOR (of_nat (length input) * Multiplier);
          (hash, remaining) = Hash32Loop hash0 input
      in if 4 \<le> length remaining
         then FoldHashTail (drop 4 remaining) (MixHashWord hash (LoadHashWord remaining))
         else FoldHashTail remaining hash)"

text \<open>The reference algorithm folds one 32-bit word at a time; the code folds two per iteration.\<close>

fun hash_words :: "u32 \<Rightarrow> bytes \<Rightarrow> u32" where
  "hash_words hash (b0 # b1 # b2 # b3 # rest) =
     hash_words (MixHashWord hash (DecodeFixedTrusted [b0, b1, b2, b3])) rest"
| "hash_words hash tail = FoldHashTail tail hash"

definition hash_reference :: "bytes \<Rightarrow> u32 \<Rightarrow> u32" where
  "hash_reference input seed = hash_words (seed XOR (of_nat (length input) * Multiplier)) input"

lemma hash_words_step:
  assumes "4 \<le> length input"
  shows "hash_words hash input =
     hash_words (MixHashWord hash (DecodeFixedTrusted (take 4 input))) (drop 4 input)"
proof -
  from assms obtain b0 b1 b2 b3 rest where "input = b0 # b1 # b2 # b3 # rest"
    by (auto simp: numeral_eq_Suc Suc_le_length_iff)
  then show ?thesis by simp
qed

lemma hash_words_tail:
  assumes "length input < 4"
  shows "hash_words hash input = FoldHashTail input hash"
  using assms by (cases "(hash, input)" rule: hash_words.cases) auto

lemma split_double_word:
  assumes "8 \<le> length input"
  shows "ucast (LoadHashWord input :: u64) = (DecodeFixedTrusted (take 4 input) :: u32)"
    and "ucast (drop_bit 32 (LoadHashWord input :: u64)) = (DecodeFixedTrusted (take 4 (drop 4 input)) :: u32)"
proof -
  have nth: "take 8 input ! k = input ! k" if "k < 8" for k using that by simp
  show "ucast (LoadHashWord input :: u64) = (DecodeFixedTrusted (take 4 input) :: u32)"
    by (rule bit_eqI) (use assms in \<open>auto simp: LoadHashWord_def bit_ucast_iff bit_DecodeFixedTrusted
        div_less_iff_less_mult\<close>)
  show "ucast (drop_bit 32 (LoadHashWord input :: u64)) = (DecodeFixedTrusted (take 4 (drop 4 input)) :: u32)"
  proof (rule bit_eqI)
    fix n assume "possible_bit TYPE(u32) n"
    then have n: "n < 32" by simp
    then have "(32 + n) div 8 = 4 + n div 8" "(32 + n) mod 8 = n mod 8" "n div 8 < 4"
      by (simp_all add: div_add1_eq mod_add_eq [symmetric] div_less_iff_less_mult)
    with n assms show "bit (ucast (drop_bit 32 (LoadHashWord input :: u64)) :: u32) n =
        bit (DecodeFixedTrusted (take 4 (drop 4 input)) :: u32) n"
      by (simp add: LoadHashWord_def bit_ucast_iff bit_drop_bit_eq bit_DecodeFixedTrusted)
  qed
qed

lemma Hash32Loop_words:
  "Hash32Loop hash input = (hash', rest) \<Longrightarrow>
     hash_words hash input = hash_words hash' rest \<and> length rest < 8"
proof (induction hash input rule: Hash32Loop.induct)
  case (1 hash input)
  show ?case
  proof (cases "8 \<le> length input")
    case True
    note words = split_double_word [OF True]
    from True 1(2) have "Hash32Loop
        (MixHashWord (MixHashWord hash (DecodeFixedTrusted (take 4 input)))
          (DecodeFixedTrusted (take 4 (drop 4 input)))) (drop 8 input) = (hash', rest)"
      by (simp add: Hash32Loop.simps [of hash] words)
    with 1(1) [OF True refl] words have "hash_words (MixHashWord (MixHashWord hash (DecodeFixedTrusted (take 4 input)))
          (DecodeFixedTrusted (take 4 (drop 4 input)))) (drop 8 input) = hash_words hash' rest \<and> length rest < 8"
      by simp
    with True show ?thesis by (simp add: hash_words_step [of input] hash_words_step [of "drop 4 input"])
  next
    case False
    with 1(2) show ?thesis by (simp add: Hash32Loop.simps [of hash])
  qed
qed

lemma Hash32_eq_reference: "Hash32 input seed = hash_reference input seed"
proof -
  obtain hash rest where loop: "Hash32Loop (seed XOR (of_nat (length input) * Multiplier)) input = (hash, rest)"
    by fastforce
  from Hash32Loop_words [OF loop] show ?thesis
    by (auto simp: Hash32_def hash_reference_def loop hash_words_tail hash_words_step [of rest] LoadHashWord_def)
qed

section \<open>Properties\<close>

text \<open>C25: The block hash.  The word-at-a-time loop with its fall-through tail computes the specification
  that splits the input into little-endian words and at most three tail bytes.\<close>

theorem hash32_correct: "Hash32 input seed = hash_reference input seed"
  by (rule Hash32_eq_reference)

text \<open>Checksum masking is a bijection: unmasking inverts masking and conversely.\<close>

theorem crc_mask_bijective: "UnmaskCrc32c (MaskCrc32c c) = c \<and> MaskCrc32c (UnmaskCrc32c m) = m"
  by (simp add: UnmaskCrc32c_MaskCrc32c MaskCrc32c_UnmaskCrc32c)

end
