(* ===== verification/Wal_Format.thy ===== *)
theory Wal_Format
  imports Checksum
begin

text \<open>
  The physical format of the write-ahead log (\<^verbatim>\<open>src/format/wal_format.{h,cc}\<close>): logical records are
  cut into fragments that never cross a 32 KiB block, each with a seven-byte header of masked
  checksum, length and type.  The MANIFEST uses the same framing.
\<close>

section \<open>Fragments\<close>

definition WalBlockSize :: nat where
  "WalBlockSize = 32 * 1024"

definition WalHeaderSize :: nat where
  "WalHeaderSize = 7"

definition MaximumWalPayload :: nat where
  "MaximumWalPayload = WalBlockSize - WalHeaderSize"

text \<open>\<open>OtherType\<close> is a stored type byte that no enumerator of \<^verbatim>\<open>WalRecordType\<close> names.\<close>

datatype WalRecordType = Zero | Full | First | Middle | Last | OtherType byte

definition WalRecordType_byte :: "WalRecordType \<Rightarrow> byte" where
  "WalRecordType_byte t =
     (case t of Zero \<Rightarrow> 0 | Full \<Rightarrow> 1 | First \<Rightarrow> 2 | Middle \<Rightarrow> 3 | Last \<Rightarrow> 4 | OtherType b \<Rightarrow> b)"

definition WalRecordType_of_byte :: "byte \<Rightarrow> WalRecordType" where
  "WalRecordType_of_byte b =
     (if b = 0 then Zero else if b = 1 then Full else if b = 2 then First
      else if b = 3 then Middle else if b = 4 then Last else OtherType b)"

definition IsFragmentType :: "WalRecordType \<Rightarrow> bool" where
  "IsFragmentType t \<longleftrightarrow> t = Full \<or> t = First \<or> t = Middle \<or> t = Last"

definition TypeIndex :: "WalRecordType \<Rightarrow> nat" where
  "TypeIndex t = unat (WalRecordType_byte t) - unat (WalRecordType_byte Full)"

definition SelectFragmentType :: "bool \<Rightarrow> bool \<Rightarrow> WalRecordType" where
  "SelectFragmentType begins ends =
     (if begins \<and> ends then Full else if begins then First else if ends then Last else Middle)"

record WalFragment =
  frag_padding_before :: nat
  frag_header :: bytes
  frag_payload :: bytes

definition EncodeHeader :: "crc_extend \<Rightarrow> WalRecordType \<Rightarrow> bytes \<Rightarrow> u32 \<Rightarrow> bytes" where
  "EncodeHeader E t data type_crc =
     (let crc = MaskCrc32c (ExtendCrc32c E type_crc data)
      in EncodeFixedTrusted crc @
         [of_nat (length data AND 0xff), of_nat (drop_bit 8 (length data) AND 0xff), WalRecordType_byte t])"

definition BuildWalFragment :: "crc_extend \<Rightarrow> nat \<Rightarrow> WalRecordType \<Rightarrow> bytes \<Rightarrow> u32 \<Rightarrow> WalFragment" where
  "BuildWalFragment E padding t data type_crc =
     \<lparr>frag_padding_before = padding, frag_header = EncodeHeader E t data type_crc, frag_payload = data\<rparr>"

section \<open>The fragmenter\<close>

record WalFragmenter =
  fr_block_offset :: nat
  fr_type_crc :: "u32 list"

definition WalFragmenter_New :: "crc_extend \<Rightarrow> nat \<Rightarrow> WalFragmenter" where
  "WalFragmenter_New E initial_file_size =
     \<lparr>fr_block_offset = initial_file_size mod WalBlockSize,
      fr_type_crc = map (\<lambda>index. Crc32c E [of_nat (index + unat (WalRecordType_byte Full))]) [0..<4]\<rparr>"

text \<open>A cursor shares the block offset of its fragmenter, so the operations of the cursor thread
  both.\<close>

record WalCursor =
  cur_remaining :: bytes
  cur_begin :: bool
  cur_done :: bool

definition Fragment :: "bytes \<Rightarrow> WalCursor" where
  "Fragment logical_record = \<lparr>cur_remaining = logical_record, cur_begin = True, cur_done = False\<rparr>"

definition TakePadding :: "nat \<Rightarrow> nat \<times> nat" where
  "TakePadding offset =
     (let bytes_left_in_block = WalBlockSize - offset
      in if bytes_left_in_block \<ge> WalHeaderSize then (0, offset) else (bytes_left_in_block, 0))"

definition FragmentPayloadSize :: "nat \<Rightarrow> WalCursor \<Rightarrow> nat" where
  "FragmentPayloadSize offset cursor =
     (let available = WalBlockSize - offset - WalHeaderSize in min (length (cur_remaining cursor)) available)"

definition Advance :: "nat \<Rightarrow> WalCursor \<Rightarrow> nat \<Rightarrow> bool \<Rightarrow> nat \<times> WalCursor" where
  "Advance offset cursor fragment_size ends =
     ((offset + WalHeaderSize + fragment_size) mod WalBlockSize,
      cursor\<lparr>cur_remaining := drop fragment_size (cur_remaining cursor), cur_begin := False, cur_done := ends\<rparr>)"

definition Next :: "crc_extend \<Rightarrow> WalFragmenter \<Rightarrow> WalCursor \<Rightarrow> WalFragment option \<times> WalFragmenter \<times> WalCursor" where
  "Next E fragmenter cursor =
     (if cur_done cursor then (None, fragmenter, cursor)
      else let (padding, offset) = TakePadding (fr_block_offset fragmenter);
               fragment_size = FragmentPayloadSize offset cursor;
               ends = (fragment_size = length (cur_remaining cursor));
               t = SelectFragmentType (cur_begin cursor) ends;
               data = take fragment_size (cur_remaining cursor);
               (offset', cursor') = Advance offset cursor fragment_size ends
           in (Some (BuildWalFragment E padding t data (fr_type_crc fragmenter ! TypeIndex t)),
               fragmenter\<lparr>fr_block_offset := offset'\<rparr>, cursor'))"

section \<open>Decoding one physical record\<close>

datatype WalDecodeKind = FragmentKind | EndOfBlock

record WalDecodeOutcome =
  wdo_kind :: WalDecodeKind
  wdo_type :: WalRecordType
  wdo_payload :: bytes
  wdo_encoded_size :: nat

datatype WalRecoveryAction = SkipPhysicalRecord | DropBlock

datatype WalDecodeFailure = TruncatedHeader | TruncatedPayload | PayloadTooLarge | ChecksumMismatch | UnknownType

record WalDecodeError =
  wde_error :: Error
  wde_failure :: WalDecodeFailure
  wde_recovery :: WalRecoveryAction
  wde_encoded_size :: nat

type_synonym WalDecodeResult = "WalDecodeError + WalDecodeOutcome"

definition DecodeStoredCrc :: "bytes \<Rightarrow> u32" where
  "DecodeStoredCrc enc = DecodeFixedLoop 0 0 (take 4 enc)"

definition DecodeFailure :: "WalDecodeFailure \<Rightarrow> WalRecoveryAction \<Rightarrow> string \<Rightarrow> nat \<Rightarrow> WalDecodeError" where
  "DecodeFailure failure recovery msg encoded_size =
     \<lparr>wde_error = Error Corruption msg, wde_failure = failure, wde_recovery = recovery, wde_encoded_size = encoded_size\<rparr>"

definition ReadWalPayloadSize :: "bytes \<Rightarrow> WalDecodeError + nat" where
  "ReadWalPayloadSize enc =
     (if length enc < WalHeaderSize
      then Inl (DecodeFailure TruncatedHeader DropBlock ''WAL physical record has a truncated header'' 0)
      else let payload_size = unat (enc ! 4) OR push_bit 8 (unat (enc ! 5))
           in if payload_size > MaximumWalPayload
              then Inl (DecodeFailure PayloadTooLarge DropBlock ''WAL physical record payload exceeds block capacity'' 0)
              else if length enc < WalHeaderSize + payload_size
              then Inl (DecodeFailure TruncatedPayload DropBlock ''WAL physical record has a truncated payload'' 0)
              else Inr payload_size)"

definition WalChecksumMatches :: "crc_extend \<Rightarrow> bytes \<Rightarrow> bytes \<Rightarrow> bool" where
  "WalChecksumMatches E enc data =
     (let expected = UnmaskCrc32c (DecodeStoredCrc enc);
          actual = ExtendCrc32c E (Crc32c E [enc ! 6]) data
      in actual = expected)"

definition DecodeWalFragment :: "crc_extend \<Rightarrow> bytes \<Rightarrow> bool \<Rightarrow> WalDecodeResult" where
  "DecodeWalFragment E enc verify_checksum =
     bindR (ReadWalPayloadSize enc) (\<lambda>payload_size.
       let encoded_size = WalHeaderSize + payload_size;
           t = WalRecordType_of_byte (enc ! 6)
       in if t = Zero \<and> payload_size = 0
          then Inr \<lparr>wdo_kind = EndOfBlock, wdo_type = Zero, wdo_payload = [], wdo_encoded_size = WalHeaderSize\<rparr>
          else let data = take payload_size (drop WalHeaderSize enc)
               in if verify_checksum \<and> \<not> WalChecksumMatches E enc data
                  then Inl (DecodeFailure ChecksumMismatch DropBlock ''WAL physical record checksum mismatch'' 0)
                  else if \<not> IsFragmentType t
                  then Inl (DecodeFailure UnknownType SkipPhysicalRecord ''WAL physical record has an unknown type'' encoded_size)
                  else Inr \<lparr>wdo_kind = FragmentKind, wdo_type = t, wdo_payload = data, wdo_encoded_size = encoded_size\<rparr>)"

section \<open>Encoding and decoding agree\<close>

lemmas wal_sizes = WalBlockSize_def WalHeaderSize_def MaximumWalPayload_def

lemma WalRecordType_of_byte_inverse [simp]:
  "IsFragmentType t \<Longrightarrow> WalRecordType_of_byte (WalRecordType_byte t) = t"
  by (auto simp: IsFragmentType_def WalRecordType_of_byte_def WalRecordType_byte_def)

lemma length_bytes_split:
  assumes "n < 65536"
  shows "unat (of_nat (n AND 0xff) :: byte) OR push_bit 8 (unat (of_nat (drop_bit 8 n AND 0xff) :: byte)) = n"
proof -
  have mask: "m AND 0xff = m mod 256" for m :: nat
  proof -
    have "(0xff :: nat) = mask 8" by (simp add: mask_eq_exp_minus_1)
    then have "m AND 0xff = take_bit 8 m" by (simp only: take_bit_eq_mask)
    then show ?thesis by (simp add: take_bit_eq_mod)
  qed
  then have low: "n AND 0xff = n mod 256" and high: "drop_bit 8 n AND 0xff = n div 256 mod 256"
    by (simp_all add: drop_bit_eq_div)
  have "n div 256 < 256" using assms by (simp add: div_less_iff_less_mult)
  then have high': "unat (of_nat (drop_bit 8 n AND 0xff) :: byte) = n div 256"
    by (simp add: high unat_of_nat)
  have low': "unat (of_nat (n AND 0xff) :: byte) = n mod 256"
    by (simp add: low unat_of_nat)
  have "n mod 256 = take_bit 8 n" by (simp add: take_bit_eq_mod)
  then have "n mod 256 OR push_bit 8 (n div 256) = take_bit 8 n + push_bit 8 (drop_bit 8 n)"
    by (simp add: drop_bit_eq_div [of 8, symmetric, simplified] bit_take_bit_iff bit_push_bit_iff disjunctive_add)
  also have "\<dots> = n" by (subst add.commute) (rule bits_ident)
  finally show ?thesis by (simp add: low' high')
qed

text \<open>The cached checksums of the type bytes are those of the types they are used for.\<close>

definition wf_fragmenter :: "crc_extend \<Rightarrow> WalFragmenter \<Rightarrow> bool" where
  "wf_fragmenter E fragmenter \<longleftrightarrow>
     fr_block_offset fragmenter < WalBlockSize \<and>
     (\<forall>t. IsFragmentType t \<longrightarrow> fr_type_crc fragmenter ! TypeIndex t = Crc32c E [WalRecordType_byte t])"

lemma wf_fragmenter_New: "wf_fragmenter E (WalFragmenter_New E n)"
  by (auto simp: wf_fragmenter_def WalFragmenter_New_def wal_sizes IsFragmentType_def TypeIndex_def
      WalRecordType_byte_def)

lemma SelectFragmentType_valid [simp]: "IsFragmentType (SelectFragmentType b e)"
  by (simp add: SelectFragmentType_def IsFragmentType_def)

lemma length_EncodeHeader [simp]: "length (EncodeHeader E t data crc) = 7"
  by (simp add: EncodeHeader_def Let_def)

lemma DecodeWalFragment_EncodeHeader:
  assumes "IsFragmentType t" "length data \<le> MaximumWalPayload" "crc = Crc32c E [WalRecordType_byte t]"
  shows "DecodeWalFragment E (EncodeHeader E t data crc @ data @ rest) verify =
     Inr \<lparr>wdo_kind = FragmentKind, wdo_type = t, wdo_payload = data, wdo_encoded_size = 7 + length data\<rparr>"
proof -
  let ?enc = "EncodeHeader E t data crc @ data @ rest"
  have nth: "?enc ! 4 = of_nat (length data AND 0xff)" "?enc ! 5 = of_nat (drop_bit 8 (length data) AND 0xff)"
    "?enc ! 6 = WalRecordType_byte t"
    by (simp_all add: EncodeHeader_def Let_def nth_append)
  have payload: "take (length data) (drop 7 ?enc) = data" by simp
  have stored: "take 4 ?enc = EncodeFixedTrusted (MaskCrc32c (ExtendCrc32c E crc data))"
    by (simp add: EncodeHeader_def Let_def)
  have "unat (?enc ! 4) OR push_bit 8 (unat (?enc ! 5)) = length data"
    unfolding nth using assms(2) by (intro length_bytes_split) (simp add: wal_sizes)
  then have "ReadWalPayloadSize ?enc = Inr (length data)"
    using assms(2) by (simp add: ReadWalPayloadSize_def Let_def wal_sizes)
  moreover have "WalChecksumMatches E ?enc data"
    unfolding WalChecksumMatches_def DecodeStoredCrc_def stored nth Let_def
    using assms(3) by (simp flip: DecodeFixedTrusted_def)
  moreover have "t \<noteq> Zero" using assms(1) by (auto simp: IsFragmentType_def)
  ultimately show ?thesis
    using assms(1) payload nth(3) by (simp add: DecodeWalFragment_def Let_def WalHeaderSize_def)
qed

lemma DecodeWalFragment_zeroes:
  assumes "7 \<le> n"
  shows "DecodeWalFragment E (replicate n 0) verify =
     Inr \<lparr>wdo_kind = EndOfBlock, wdo_type = Zero, wdo_payload = [], wdo_encoded_size = 7\<rparr>"
  using assms
  by (simp add: DecodeWalFragment_def ReadWalPayloadSize_def WalRecordType_of_byte_def wal_sizes Let_def)

end
