(* ===== verification/Posix_Files.thy ===== *)
theory Posix_Files
  imports Prelude
begin

text \<open>
  File handles: the contracts of \<^verbatim>\<open>SequentialFile\<close> and \<^verbatim>\<open>WritableFile\<close>
  (\<^verbatim>\<open>include/modern_leveldb/file_system.h\<close>) as locales, and their native implementations
  \<^verbatim>\<open>PosixSequentialFile\<close> and \<^verbatim>\<open>PosixWritableFile\<close> (\<^verbatim>\<open>src/platform/posix_file_system.cc\<close>).

  The operating system is a parameter: a descriptor carries the list of outcomes its future system
  calls have.  What is built in is the documented behaviour of \<^verbatim>\<open>read\<close> (the next bytes of the file,
  at most as many as requested, none only at the end), \<^verbatim>\<open>write\<close> (a prefix of the data is
  appended) and \<^verbatim>\<open>fdatasync\<close> (on success the written contents are durable).  When the list is
  exhausted every call succeeds completely, so a storm of \<^verbatim>\<open>EINTR\<close> is arbitrarily long but finite.
\<close>

section \<open>System calls\<close>

datatype errno = ENOENT | ENOTDIR | ENOSYS | ENOTSUP | EOPNOTSUPP | EACCES | EAGAIN | OtherErrno nat

datatype sys_outcome = Interrupted | Failed errno | Transferred nat

record descriptor =
  d_contents :: bytes
  d_durable :: bytes
  d_schedule :: "sys_outcome list"
  d_message :: "errno \<Rightarrow> string"

text \<open>\<open>next_call\<close> runs one interruptible call: it retries while the outcome is \<^verbatim>\<open>EINTR\<close>.  \<open>Some n\<close> is
  a transfer limit, \<open>None\<close> an unlimited transfer.\<close>

fun next_outcome :: "sys_outcome list \<Rightarrow> (errno + nat option) \<times> sys_outcome list" where
  "next_outcome [] = (Inr None, [])"
| "next_outcome (Interrupted # rest) = next_outcome rest"
| "next_outcome (Failed e # rest) = (Inl e, rest)"
| "next_outcome (Transferred n # rest) = (Inr (Some n), rest)"

definition limit_transfer :: "nat option \<Rightarrow> nat \<Rightarrow> nat" where
  "limit_transfer limit n = (case limit of None \<Rightarrow> n | Some m \<Rightarrow> min m n)"

definition sys_write :: "descriptor \<Rightarrow> bytes \<Rightarrow> (errno + nat) \<times> descriptor" where
  "sys_write d data =
     (case next_outcome (d_schedule d) of
        (Inl e, rest) \<Rightarrow> (Inl e, d\<lparr>d_schedule := rest\<rparr>)
      | (Inr limit, rest) \<Rightarrow>
          let n = limit_transfer limit (length data)
          in (Inr n, d\<lparr>d_schedule := rest, d_contents := d_contents d @ take n data\<rparr>))"

text \<open>For a descriptor that is read, \<open>d_contents\<close> is the part of the file after the position.\<close>

definition sys_read :: "descriptor \<Rightarrow> nat \<Rightarrow> (errno + bytes) \<times> descriptor" where
  "sys_read d request =
     (case next_outcome (d_schedule d) of
        (Inl e, rest) \<Rightarrow> (Inl e, d\<lparr>d_schedule := rest\<rparr>)
      | (Inr limit, rest) \<Rightarrow>
          let n = max 1 (limit_transfer limit request)
          in (Inr (take n (d_contents d)), d\<lparr>d_schedule := rest, d_contents := drop n (d_contents d)\<rparr>))"

definition sys_fdatasync :: "descriptor \<Rightarrow> (errno + unit) \<times> descriptor" where
  "sys_fdatasync d =
     (case next_outcome (d_schedule d) of
        (Inl e, rest) \<Rightarrow> (Inl e, d\<lparr>d_schedule := rest\<rparr>)
      | (Inr _, rest) \<Rightarrow> (Inr (), d\<lparr>d_schedule := rest, d_durable := d_contents d\<rparr>))"

text \<open>\<^verbatim>\<open>close\<close> is not retried: the first outcome decides, an interruption is an error.\<close>

definition sys_close :: "descriptor \<Rightarrow> (errno + unit) \<times> descriptor" where
  "sys_close d =
     (case d_schedule d of
        [] \<Rightarrow> (Inr (), d)
      | Failed e # rest \<Rightarrow> (Inl e, d\<lparr>d_schedule := rest\<rparr>)
      | Interrupted # rest \<Rightarrow> (Inl (OtherErrno 4), d\<lparr>d_schedule := rest\<rparr>)
      | Transferred _ # rest \<Rightarrow> (Inr (), d\<lparr>d_schedule := rest\<rparr>))"

section \<open>Error classification\<close>

definition OperationMessage :: "(errno \<Rightarrow> string) \<Rightarrow> string \<Rightarrow> string \<Rightarrow> errno \<Rightarrow> string" where
  "OperationMessage msg operation path e = operation @ '' '' @ [CHR 0x27] @ path @ [CHR 0x27] @ '': '' @ msg e"

definition FileError :: "(errno \<Rightarrow> string) \<Rightarrow> string \<Rightarrow> string \<Rightarrow> errno \<Rightarrow> Error" where
  "FileError msg operation path e =
     (let text = OperationMessage msg operation path e
      in if e = ENOENT \<or> e = ENOTDIR then Error NotFound text
         else if e = ENOSYS \<or> e = ENOTSUP \<or> e = EOPNOTSUPP then Error NotSupported text
         else Error Io text)"

definition LockError :: "(errno \<Rightarrow> string) \<Rightarrow> string \<Rightarrow> errno \<Rightarrow> Error" where
  "LockError msg path e =
     (if e = EACCES \<or> e = EAGAIN then Error Busy (OperationMessage msg ''lock'' path e)
      else FileError msg ''lock'' path e)"

definition CaptureFirstFailure :: "Error option \<Rightarrow> status \<Rightarrow> Error option" where
  "CaptureFirstFailure first_error status =
     (case status of
        Inl e \<Rightarrow> if first_error = None then Some e else first_error
      | Inr _ \<Rightarrow> first_error)"

definition RememberFirstError :: "Error option \<Rightarrow> status \<Rightarrow> status \<times> Error option" where
  "RememberFirstError first_error status =
     (let first = CaptureFirstFailure first_error status
      in (case first of Some e \<Rightarrow> (Inl e, first) | None \<Rightarrow> (Inr (), first)))"

definition ValidatePath :: "string \<Rightarrow> Error option" where
  "ValidatePath native =
     (if native = [] then Some (Error InvalidArgument ''filesystem path is empty'')
      else if CHR 0x00 \<in> set native
        then Some (Error InvalidArgument ''filesystem path contains an embedded null byte'')
      else None)"

definition MaximumIoSize :: "nat \<Rightarrow> nat" where
  "MaximumIoSize requested = min requested (2 ^ 63 - 1)"

definition SyncDescriptor :: "descriptor \<Rightarrow> string \<Rightarrow> status \<times> descriptor" where
  "SyncDescriptor d path =
     (case sys_fdatasync d of
        (Inl e, d') \<Rightarrow> (Inl (FileError (d_message d) ''sync'' path e), d')
      | (Inr _, d') \<Rightarrow> (Inr (), d'))"

definition CloseDescriptor :: "descriptor \<Rightarrow> string \<Rightarrow> status \<times> descriptor" where
  "CloseDescriptor d path =
     (case sys_close d of
        (Inl e, d') \<Rightarrow> (Inl (FileError (d_message d) ''close'' path e), d')
      | (Inr _, d') \<Rightarrow> (Inr (), d'))"

section \<open>Sequential files\<close>

record PosixSequentialFile =
  ps_path :: string
  ps_descriptor :: descriptor

definition PosixSequentialFile_Read ::
  "PosixSequentialFile \<Rightarrow> nat \<Rightarrow> bytes result \<times> PosixSequentialFile" where
  "PosixSequentialFile_Read f output_size =
     (if output_size = 0 then (Inr [], f)
      else case sys_read (ps_descriptor f) (MaximumIoSize output_size) of
          (Inl e, d) \<Rightarrow>
            (Inl (FileError (d_message (ps_descriptor f)) ''read'' (ps_path f) e), f\<lparr>ps_descriptor := d\<rparr>)
        | (Inr bs, d) \<Rightarrow> (Inr bs, f\<lparr>ps_descriptor := d\<rparr>))"

section \<open>Writable files\<close>

definition WritableBufferSize :: nat where
  "WritableBufferSize = 64 * 1024"

text \<open>\<open>pw_buffer\<close> is the used part of the staging array, its length the field \<^verbatim>\<open>buffer_size_\<close>.\<close>

record PosixWritableFile =
  pw_buffer :: bytes
  pw_descriptor :: descriptor
  pw_path :: string
  pw_first_error :: "Error option"
  pw_close_attempted :: bool

definition PosixWritableFile_New :: "descriptor \<Rightarrow> string \<Rightarrow> PosixWritableFile" where
  "PosixWritableFile_New d path =
     \<lparr>pw_buffer = [], pw_descriptor = d, pw_path = path, pw_first_error = None,
      pw_close_attempted = False\<rparr>"

definition CheckOpen :: "PosixWritableFile \<Rightarrow> string \<Rightarrow> status" where
  "CheckOpen f operation =
     (if pw_close_attempted f
      then Inl (Error InvalidArgument (operation @ '' called after file close''))
      else Inr ())"

function WriteAll :: "descriptor \<Rightarrow> string \<Rightarrow> bytes \<Rightarrow> status \<times> descriptor" where
  "WriteAll d path data =
     (if data = [] then (Inr (), d)
      else case sys_write d (take (MaximumIoSize (length data)) data) of
          (Inl e, d') \<Rightarrow> (Inl (FileError (d_message d) ''write'' path e), d')
        | (Inr written, d') \<Rightarrow>
            if written = 0
            then (Inl (Error Io (''write made no progress for '' @ [CHR 0x27] @ path @ [CHR 0x27])), d')
            else WriteAll d' path (drop written data))"
  by pat_completeness auto
termination
  by (relation "measure (\<lambda>(d, path, data). length data)") auto

declare WriteAll.simps [simp del]

function BestEffortWriteAll :: "descriptor \<Rightarrow> bytes \<Rightarrow> descriptor" where
  "BestEffortWriteAll d data =
     (if data = [] then d
      else case sys_write d (take (MaximumIoSize (length data)) data) of
          (Inl e, d') \<Rightarrow> d'
        | (Inr written, d') \<Rightarrow>
            if written = 0 then d' else BestEffortWriteAll d' (drop written data))"
  by pat_completeness auto
termination
  by (relation "measure (\<lambda>(d, data). length data)") auto

declare BestEffortWriteAll.simps [simp del]

definition RememberWrite ::
  "PosixWritableFile \<Rightarrow> status \<times> descriptor \<Rightarrow> status \<times> PosixWritableFile" where
  "RememberWrite f r =
     (case r of (st, d) \<Rightarrow>
        (case RememberFirstError (pw_first_error f) st of (st', first) \<Rightarrow>
           (st', f\<lparr>pw_descriptor := d, pw_first_error := first\<rparr>)))"

definition FlushBuffer :: "PosixWritableFile \<Rightarrow> status \<times> PosixWritableFile" where
  "FlushBuffer f =
     (case pw_first_error f of
        Some e \<Rightarrow> (Inl e, f)
      | None \<Rightarrow>
          if pw_buffer f = [] then (Inr (), f)
          else RememberWrite (f\<lparr>pw_buffer := []\<rparr>)
                 (WriteAll (pw_descriptor f) (pw_path f) (pw_buffer f)))"

definition PosixWritableFile_Append ::
  "PosixWritableFile \<Rightarrow> bytes \<Rightarrow> status \<times> PosixWritableFile" where
  "PosixWritableFile_Append f data =
     (case CheckOpen f ''append'' of
        Inl e \<Rightarrow> (Inl e, f)
      | Inr _ \<Rightarrow>
        (case pw_first_error f of
           Some e \<Rightarrow> (Inl e, f)
         | None \<Rightarrow>
            if data = [] then (Inr (), f)
            else
              let copy_size = min (length data) (WritableBufferSize - length (pw_buffer f));
                  f1 = f\<lparr>pw_buffer := pw_buffer f @ take copy_size data\<rparr>;
                  rest = drop copy_size data
              in if rest = [] then (Inr (), f1)
                 else (case FlushBuffer f1 of
                     (Inl e, f2) \<Rightarrow> (Inl e, f2)
                   | (Inr _, f2) \<Rightarrow>
                       if length rest < WritableBufferSize then (Inr (), f2\<lparr>pw_buffer := rest\<rparr>)
                       else RememberWrite f2 (WriteAll (pw_descriptor f2) (pw_path f2) rest))))"

definition PosixWritableFile_Flush :: "PosixWritableFile \<Rightarrow> status \<times> PosixWritableFile" where
  "PosixWritableFile_Flush f =
     (case CheckOpen f ''flush'' of
        Inl e \<Rightarrow> (Inl e, f)
      | Inr _ \<Rightarrow> FlushBuffer f)"

definition PosixWritableFile_Sync :: "PosixWritableFile \<Rightarrow> status \<times> PosixWritableFile" where
  "PosixWritableFile_Sync f =
     (case CheckOpen f ''sync'' of
        Inl e \<Rightarrow> (Inl e, f)
      | Inr _ \<Rightarrow>
        (case FlushBuffer f of
           (Inl e, f1) \<Rightarrow> (Inl e, f1)
         | (Inr _, f1) \<Rightarrow> RememberWrite f1 (SyncDescriptor (pw_descriptor f1) (pw_path f1))))"

definition PosixWritableFile_Close :: "PosixWritableFile \<Rightarrow> status \<times> PosixWritableFile" where
  "PosixWritableFile_Close f =
     (if pw_close_attempted f
      then (case pw_first_error f of Some e \<Rightarrow> (Inl e, f) | None \<Rightarrow> (Inr (), f))
      else
        case FlushBuffer (f\<lparr>pw_close_attempted := True\<rparr>) of (st, f1) \<Rightarrow>
        case CloseDescriptor (pw_descriptor f1) (pw_path f1) of (close_status, d) \<Rightarrow>
        (case st of
           Inl e \<Rightarrow> (Inl e, f1\<lparr>pw_descriptor := d\<rparr>)
         | Inr _ \<Rightarrow> RememberWrite f1 (close_status, d)))"

definition PosixWritableFile_Destroy :: "PosixWritableFile \<Rightarrow> descriptor" where
  "PosixWritableFile_Destroy f =
     (if pw_close_attempted f then pw_descriptor f
      else
        let d = (if pw_first_error f = None \<and> pw_buffer f \<noteq> []
                 then BestEffortWriteAll (pw_descriptor f) (pw_buffer f) else pw_descriptor f)
        in snd (sys_close d))"

section \<open>The contracts\<close>

text \<open>What a reader relies on: a read returns the next bytes, and none only at the end of the file.\<close>

locale sequential_file =
  fixes read_file :: "'f \<Rightarrow> nat \<Rightarrow> bytes result \<times> 'f"
    and unread :: "'f \<Rightarrow> bytes"
  assumes read_prefix: "read_file f n = (Inr bs, f') \<Longrightarrow> unread f = bs @ unread f'"
    and read_bounded: "read_file f n = (Inr bs, f') \<Longrightarrow> length bs \<le> n"
    and read_end: "read_file f n = (Inr [], f') \<Longrightarrow> 0 < n \<Longrightarrow> unread f = []"
    and read_failed: "read_file f n = (Inl e, f') \<Longrightarrow> unread f' = unread f"

text \<open>A file on which reads do not fail.\<close>

locale reliable_file = sequential_file read_file unread
  for read_file :: "'f \<Rightarrow> nat \<Rightarrow> bytes result \<times> 'f" and unread :: "'f \<Rightarrow> bytes" +
  fixes reliable :: "'f \<Rightarrow> bool"
  assumes read_reliable: "reliable f \<Longrightarrow> \<exists>bs f'. read_file f n = (Inr bs, f') \<and> reliable f'"

text \<open>What a writer relies on.  \<open>accepted\<close> is everything appended so far, \<open>written\<close> the part the
  operating system has, \<open>durable\<close> the part that survives a crash.  Whatever the outcome, the
  written part only grows, and only along the accepted stream.\<close>

locale writable_file =
  fixes append_file :: "'f \<Rightarrow> bytes \<Rightarrow> status \<times> 'f"
    and flush_file :: "'f \<Rightarrow> status \<times> 'f"
    and sync_file :: "'f \<Rightarrow> status \<times> 'f"
    and valid :: "'f \<Rightarrow> bool"
    and accepted :: "'f \<Rightarrow> bytes"
    and written :: "'f \<Rightarrow> bytes"
    and durable :: "'f \<Rightarrow> bytes"
  assumes written_accepted: "valid f \<Longrightarrow> prefix (written f) (accepted f)"
    and append_valid: "append_file f bs = (r, f') \<Longrightarrow> valid f \<Longrightarrow> valid f'"
    and append_ok: "append_file f bs = (Inr u, f') \<Longrightarrow> valid f \<Longrightarrow> accepted f' = accepted f @ bs"
    and append_grows: "append_file f bs = (r, f') \<Longrightarrow> valid f \<Longrightarrow> prefix (written f) (written f')"
    and append_stream:
      "append_file f bs = (r, f') \<Longrightarrow> valid f \<Longrightarrow> prefix (written f') (accepted f @ bs)"
    and append_durable: "append_file f bs = (r, f') \<Longrightarrow> valid f \<Longrightarrow> durable f' = durable f"
    and flush_valid: "flush_file f = (r, f') \<Longrightarrow> valid f \<Longrightarrow> valid f'"
    and flush_ok: "flush_file f = (Inr u, f') \<Longrightarrow> valid f \<Longrightarrow>
      accepted f' = accepted f \<and> written f' = accepted f"
    and flush_grows: "flush_file f = (r, f') \<Longrightarrow> valid f \<Longrightarrow> prefix (written f) (written f')"
    and flush_stream: "flush_file f = (r, f') \<Longrightarrow> valid f \<Longrightarrow> prefix (written f') (accepted f)"
    and flush_durable: "flush_file f = (r, f') \<Longrightarrow> valid f \<Longrightarrow> durable f' = durable f"
    and sync_valid: "sync_file f = (r, f') \<Longrightarrow> valid f \<Longrightarrow> valid f'"
    and sync_ok: "sync_file f = (Inr u, f') \<Longrightarrow> valid f \<Longrightarrow>
      accepted f' = accepted f \<and> written f' = accepted f \<and> durable f' = accepted f"
    and sync_grows: "sync_file f = (r, f') \<Longrightarrow> valid f \<Longrightarrow> prefix (written f) (written f')"
    and sync_stream: "sync_file f = (r, f') \<Longrightarrow> valid f \<Longrightarrow> prefix (written f') (accepted f)"

text \<open>A file on which writes succeed.\<close>

locale reliable_writer =
  fixes append_file :: "'f \<Rightarrow> bytes \<Rightarrow> status \<times> 'f" and flush_file :: "'f \<Rightarrow> status \<times> 'f"
    and sync_file :: "'f \<Rightarrow> status \<times> 'f" and healthy :: "'f \<Rightarrow> bool"
  assumes append_healthy: "healthy f \<Longrightarrow> \<exists>f'. append_file f bs = (Inr (), f') \<and> healthy f'"
    and flush_healthy: "healthy f \<Longrightarrow> \<exists>f'. flush_file f = (Inr (), f') \<and> healthy f'"
    and sync_healthy: "healthy f \<Longrightarrow> \<exists>f'. sync_file f = (Inr (), f') \<and> healthy f'"

locale healthy_writer = writable_file append_file flush_file sync_file valid accepted written durable +
    reliable_writer append_file flush_file sync_file healthy
  for append_file :: "'f \<Rightarrow> bytes \<Rightarrow> status \<times> 'f" and flush_file :: "'f \<Rightarrow> status \<times> 'f"
    and sync_file :: "'f \<Rightarrow> status \<times> 'f" and valid :: "'f \<Rightarrow> bool" and accepted :: "'f \<Rightarrow> bytes"
    and written :: "'f \<Rightarrow> bytes" and durable :: "'f \<Rightarrow> bytes" and healthy :: "'f \<Rightarrow> bool"

section \<open>The native files meet the contracts\<close>

definition PosixSequentialFile_unread :: "PosixSequentialFile \<Rightarrow> bytes" where
  "PosixSequentialFile_unread f = d_contents (ps_descriptor f)"

definition PosixWritableFile_written :: "PosixWritableFile \<Rightarrow> bytes" where
  "PosixWritableFile_written f = d_contents (pw_descriptor f)"

definition PosixWritableFile_accepted :: "PosixWritableFile \<Rightarrow> bytes" where
  "PosixWritableFile_accepted f = d_contents (pw_descriptor f) @ pw_buffer f"

definition PosixWritableFile_durable :: "PosixWritableFile \<Rightarrow> bytes" where
  "PosixWritableFile_durable f = d_durable (pw_descriptor f)"

text \<open>The staging array never overflows; data that could not be written is never kept for a retry.\<close>

definition PosixWritableFile_valid :: "PosixWritableFile \<Rightarrow> bool" where
  "PosixWritableFile_valid f \<longleftrightarrow> length (pw_buffer f) \<le> WritableBufferSize"

lemmas posix_views = PosixSequentialFile_unread_def PosixWritableFile_written_def
  PosixWritableFile_accepted_def PosixWritableFile_durable_def PosixWritableFile_valid_def

lemma MaximumIoSize_le: "MaximumIoSize n \<le> n"
  by (simp add: MaximumIoSize_def)

lemma MaximumIoSize_pos: "0 < n \<Longrightarrow> 0 < MaximumIoSize n"
  by (simp add: MaximumIoSize_def)

lemma limit_transfer_le: "limit_transfer l n \<le> n"
  by (simp add: limit_transfer_def split: option.splits)

interpretation posix_reader: sequential_file PosixSequentialFile_Read PosixSequentialFile_unread
proof
  fix f :: PosixSequentialFile and n bs f'
  assume r: "PosixSequentialFile_Read f n = (Inr bs, f')"
  show "PosixSequentialFile_unread f = bs @ PosixSequentialFile_unread f'"
    using r by (auto simp: PosixSequentialFile_Read_def sys_read_def posix_views Let_def
        split: if_splits prod.splits sum.splits)
  show "length bs \<le> n"
  proof (cases "n = 0")
    case False
    then have "limit_transfer l (MaximumIoSize n) \<le> n \<and> 1 \<le> n" for l
      using limit_transfer_le [of l "MaximumIoSize n"] MaximumIoSize_le [of n] by linarith
    with r False show ?thesis
      by (auto simp: PosixSequentialFile_Read_def sys_read_def Let_def min_le_iff_disj
          split: prod.splits sum.splits)
  qed (use r in \<open>simp add: PosixSequentialFile_Read_def\<close>)
next
  fix f :: PosixSequentialFile and n f'
  assume "PosixSequentialFile_Read f n = (Inr [], f')" "0 < n"
  then show "PosixSequentialFile_unread f = []"
    by (auto simp: PosixSequentialFile_Read_def sys_read_def posix_views Let_def
        split: if_splits prod.splits sum.splits)
next
  fix f :: PosixSequentialFile and n e f'
  assume "PosixSequentialFile_Read f n = (Inl e, f')"
  then show "PosixSequentialFile_unread f' = PosixSequentialFile_unread f"
    by (auto simp: PosixSequentialFile_Read_def sys_read_def posix_views Let_def
        split: if_splits prod.splits sum.splits)
qed

text \<open>A file is reliable when none of its future system calls fails; interruptions and short reads
  are allowed.\<close>

definition PosixSequentialFile_reliable :: "PosixSequentialFile \<Rightarrow> bool" where
  "PosixSequentialFile_reliable f \<longleftrightarrow>
     (\<forall>x\<in>set (d_schedule (ps_descriptor f)). \<not> (\<exists>e. x = Failed e))"

lemma next_outcome_reliable:
  assumes "\<forall>x\<in>set sched. \<not> (\<exists>e. x = Failed e)"
  shows "\<exists>l rest. next_outcome sched = (Inr l, rest) \<and> (\<forall>x\<in>set rest. \<not> (\<exists>e. x = Failed e))"
  using assms by (induction sched rule: next_outcome.induct) auto

interpretation posix_reader: reliable_file PosixSequentialFile_Read PosixSequentialFile_unread
  PosixSequentialFile_reliable
proof
  fix f n
  assume r: "PosixSequentialFile_reliable f"
  then obtain l rest where "next_outcome (d_schedule (ps_descriptor f)) = (Inr l, rest)"
      "\<forall>x\<in>set rest. \<not> (\<exists>e. x = Failed e)"
    using next_outcome_reliable unfolding PosixSequentialFile_reliable_def by metis
  with r show "\<exists>bs f'. PosixSequentialFile_Read f n = (Inr bs, f') \<and> PosixSequentialFile_reliable f'"
    by (simp add: PosixSequentialFile_Read_def sys_read_def PosixSequentialFile_reliable_def Let_def)
qed

lemma sys_write_Inr:
  assumes "sys_write d bs = (Inr n, d')"
  shows "n \<le> length bs" "d_contents d' = d_contents d @ take n bs" "d_durable d' = d_durable d"
  using assms by (auto simp: sys_write_def Let_def limit_transfer_le split: prod.splits sum.splits)

lemma sys_write_Inl:
  assumes "sys_write d bs = (Inl e, d')"
  shows "d_contents d' = d_contents d" "d_durable d' = d_durable d"
  using assms by (auto simp: sys_write_def Let_def split: prod.splits sum.splits)

text \<open>What a sequence of writes of \<open>data\<close> may have part to a descriptor.\<close>

definition extends_by :: "descriptor \<Rightarrow> bytes \<Rightarrow> status \<Rightarrow> descriptor \<Rightarrow> bool" where
  "extends_by d data r d' \<longleftrightarrow>
     (\<exists>part. d_contents d' = d_contents d @ part \<and> prefix part data \<and> (r = Inr () \<longrightarrow> part = data)) \<and>
     d_durable d' = d_durable d"

lemma extends_by_refl [simp]: "extends_by d [] r d"
  by (auto simp: extends_by_def)

lemma extends_by_step:
  assumes "extends_by d1 (drop n data) r d2" "d_contents d1 = d_contents d @ take n data"
    "d_durable d1 = d_durable d"
  shows "extends_by d data r d2"
proof -
  from assms(1) obtain part where part: "d_contents d2 = d_contents d1 @ part" "prefix part (drop n data)"
      "r = Inr () \<longrightarrow> part = drop n data" "d_durable d2 = d_durable d1"
    by (auto simp: extends_by_def)
  then have "prefix (take n data @ part) data"
    by (metis append_take_drop_id same_prefix_prefix)
  with part assms(2,3) show ?thesis
    by (auto simp: extends_by_def intro!: exI [of _ "take n data @ part"])
qed

lemma WriteAll_extends: "WriteAll d path data = (r, d') \<Longrightarrow> extends_by d data r d'"
proof (induction d path data rule: WriteAll.induct)
  case (1 d path data)
  show ?case
  proof (cases "data = []")
    case True
    with 1(2) show ?thesis by (simp add: WriteAll.simps)
  next
    case False
    obtain w d1 where w: "sys_write d (take (MaximumIoSize (length data)) data) = (w, d1)"
      by fastforce
    show ?thesis
    proof (cases w)
      case (Inl e)
      with 1(2) w False show ?thesis
        by (subst (asm) WriteAll.simps) (auto simp: extends_by_def dest: sys_write_Inl)
    next
      case (Inr n)
      note wr = sys_write_Inr [OF w [unfolded Inr]]
      have n: "d_contents d1 = d_contents d @ take n data"
        using wr(1,2) by (simp add: min_absorb1)
      show ?thesis
      proof (cases "n = 0")
        case True
        with 1(2) w False Inr wr n show ?thesis
          by (subst (asm) WriteAll.simps) (auto simp: extends_by_def)
      next
        case False
        with 1(2) w Inr \<open>data \<noteq> []\<close> have "WriteAll d1 path (drop n data) = (r, d')"
          by (subst (asm) WriteAll.simps) simp
        from 1(1) [OF \<open>data \<noteq> []\<close> w [symmetric] Inr False this] n wr(3) show ?thesis
          by (rule extends_by_step)
      qed
    qed
  qed
qed

lemma RememberWrite_eq:
  assumes "RememberWrite f (st, d) = (r, f')" "pw_first_error f = None"
  shows "r = st \<and> pw_descriptor f' = d \<and> pw_buffer f' = pw_buffer f"
  using assms by (auto simp: RememberWrite_def RememberFirstError_def CaptureFirstFailure_def Let_def
      split: sum.splits)

lemma FlushBuffer_extends:
  assumes "FlushBuffer f = (r, f')"
  shows "extends_by (pw_descriptor f) (pw_buffer f) r (pw_descriptor f') \<and>
    (pw_buffer f' = [] \<or> f' = f \<and> (\<exists>e. r = Inl e \<and> pw_first_error f = Some e))"
proof (cases "pw_first_error f")
  case (Some e)
  with assms show ?thesis by (auto simp: FlushBuffer_def extends_by_def)
next
  case None
  show ?thesis
  proof (cases "pw_buffer f = []")
    case True
    with assms None show ?thesis by (auto simp: FlushBuffer_def)
  next
    case False
    obtain st d where w: "WriteAll (pw_descriptor f) (pw_path f) (pw_buffer f) = (st, d)"
      by fastforce
    with assms None False have "RememberWrite (f\<lparr>pw_buffer := []\<rparr>) (st, d) = (r, f')"
      by (simp add: FlushBuffer_def)
    from RememberWrite_eq [OF this] None WriteAll_extends [OF w] show ?thesis by simp
  qed
qed

lemma FlushBuffer_Inr_no_error: "FlushBuffer f = (Inr u, f') \<Longrightarrow> pw_first_error f' = None"
  by (auto simp: FlushBuffer_def RememberWrite_def RememberFirstError_def CaptureFirstFailure_def
      Let_def split: option.splits if_splits prod.splits sum.splits)

lemma extends_by_prefix:
  assumes "extends_by d data r d'"
  shows "prefix (d_contents d) (d_contents d')" "prefix (d_contents d') (d_contents d @ data)"
    "d_durable d' = d_durable d" "r = Inr () \<Longrightarrow> d_contents d' = d_contents d @ data"
  using assms by (auto simp: extends_by_def)

lemma extends_by_trans:
  assumes "extends_by d data (Inr ()) d1" "extends_by d1 mor r d2"
  shows "extends_by d (data @ mor) r d2"
  using assms by (auto simp: extends_by_def)

lemma extends_by_weaken:
  "extends_by d data (Inl e) d' \<Longrightarrow> extends_by d (data @ mor) (Inl e) d'"
  by (auto simp: extends_by_def)

lemma PosixWritableFile_Append_unfold:
  assumes "\<not> pw_close_attempted f" "pw_first_error f = None" "data \<noteq> []"
    and "k = min (length data) (WritableBufferSize - length (pw_buffer f))"
    and "f1 = f\<lparr>pw_buffer := pw_buffer f @ take k data\<rparr>" "mor = drop k data"
  shows "PosixWritableFile_Append f data =
    (if mor = [] then (Inr (), f1)
     else (case FlushBuffer f1 of
         (Inl e, f2) \<Rightarrow> (Inl e, f2)
       | (Inr _, f2) \<Rightarrow>
           if length mor < WritableBufferSize then (Inr (), f2\<lparr>pw_buffer := mor\<rparr>)
           else RememberWrite f2 (WriteAll (pw_descriptor f2) (pw_path f2) mor)))"
  unfolding assms(4-6) using assms(1-3)
  by (simp only: PosixWritableFile_Append_def CheckOpen_def Let_def) simp

lemma PosixWritableFile_Append_extends:
  assumes "PosixWritableFile_Append f data = (r, f')" "PosixWritableFile_valid f"
  shows "\<exists>out rest. pw_buffer f @ data = out @ rest \<and> PosixWritableFile_valid f' \<and>
    extends_by (pw_descriptor f) out r (pw_descriptor f') \<and> (r = Inr () \<longrightarrow> pw_buffer f' = rest)"
proof (cases "pw_close_attempted f \<or> pw_first_error f \<noteq> None \<or> data = []")
  case True
  with assms(1) have "f' = f" "r = Inr () \<longrightarrow> data = []"
    by (auto simp: PosixWritableFile_Append_def CheckOpen_def split: if_splits option.splits)
  with assms(2) show ?thesis
    by (intro exI [of _ "[]"] exI [of _ "pw_buffer f @ data"]) auto
next
  case False
  then have live: "\<not> pw_close_attempted f" "pw_first_error f = None" "data \<noteq> []" by simp_all
  define copy_size where "copy_size = min (length data) (WritableBufferSize - length (pw_buffer f))"
  define f1 where "f1 = f\<lparr>pw_buffer := pw_buffer f @ take copy_size data\<rparr>"
  define mor where "mor = drop copy_size data"
  have split: "pw_buffer f @ data = pw_buffer f1 @ mor"
    by (simp add: f1_def mor_def)
  have v1: "length (pw_buffer f1) \<le> WritableBufferSize"
    using assms(2) by (simp add: f1_def PosixWritableFile_valid_def copy_size_def)
  note app = PosixWritableFile_Append_unfold [OF live copy_size_def f1_def mor_def, unfolded assms(1)]
  have d1: "pw_descriptor f1 = pw_descriptor f"
    by (simp add: f1_def)
  show ?thesis
  proof (cases "mor = []")
    case True
    with app have "r = Inr ()" "f' = f1" by simp_all
    then show ?thesis
      using split True v1
      by (intro exI [of _ "[]"] exI [of _ "pw_buffer f @ data"]) (simp add: d1 PosixWritableFile_valid_def)
  next
    case False
    obtain st f2 where fl: "FlushBuffer f1 = (st, f2)" by fastforce
    note ex = FlushBuffer_extends [OF fl, unfolded d1]
    show ?thesis
    proof (cases st)
      case (Inl e)
      with app False fl have eq: "r = Inl e" "f' = f2" by simp_all
      have "length (pw_buffer f2) \<le> WritableBufferSize"
        using ex v1 by auto
      with eq ex Inl split show ?thesis
        by (auto simp: PosixWritableFile_valid_def)
    next
      case (Inr u)
      with ex have b2: "pw_buffer f2 = []" by auto
      have ex2: "extends_by (pw_descriptor f) (pw_buffer f1) (Inr ()) (pw_descriptor f2)"
        using ex Inr by simp
      show ?thesis
      proof (cases "length mor < WritableBufferSize")
        case True
        with app False fl Inr have eq: "r = Inr ()" "f' = f2\<lparr>pw_buffer := mor\<rparr>" by simp_all
        show ?thesis
          using ex2 split eq True by (auto simp: PosixWritableFile_valid_def)
      next
        case large: False
        obtain st3 d3 where w: "WriteAll (pw_descriptor f2) (pw_path f2) mor = (st3, d3)"
          by fastforce
        from app False fl Inr large w have "RememberWrite f2 (st3, d3) = (r, f')" by simp
        from RememberWrite_eq [OF this FlushBuffer_Inr_no_error [OF fl [unfolded Inr]]]
        have eq: "r = st3" "pw_descriptor f' = d3" "pw_buffer f' = []"
          using b2 by simp_all
        have "extends_by (pw_descriptor f) (pw_buffer f1 @ mor) r d3"
          using extends_by_trans [OF ex2 WriteAll_extends [OF w]] eq by simp
        then show ?thesis
          using split eq by (auto simp: PosixWritableFile_valid_def)
      qed
    qed
  qed
qed

lemma PosixWritableFile_Flush_extends:
  assumes "PosixWritableFile_Flush f = (r, f')" "PosixWritableFile_valid f"
  shows "extends_by (pw_descriptor f) (pw_buffer f) r (pw_descriptor f')"
    "PosixWritableFile_valid f'" "r = Inr () \<Longrightarrow> pw_buffer f' = []"
proof -
  have "f' = f \<and> (\<exists>e. r = Inl e) \<or> FlushBuffer f = (r, f')"
    using assms(1) by (auto simp: PosixWritableFile_Flush_def CheckOpen_def split: if_splits)
  then show "extends_by (pw_descriptor f) (pw_buffer f) r (pw_descriptor f')"
    "PosixWritableFile_valid f'" "r = Inr () \<Longrightarrow> pw_buffer f' = []"
    using FlushBuffer_extends [of f r f'] assms(2)
    by (auto simp: PosixWritableFile_valid_def extends_by_def)
qed

lemma SyncDescriptor_effect:
  assumes "SyncDescriptor d path = (r, d')"
  shows "d_contents d' = d_contents d" "r = Inr () \<Longrightarrow> d_durable d' = d_contents d"
  using assms by (auto simp: SyncDescriptor_def sys_fdatasync_def split: prod.splits sum.splits)

lemma PosixWritableFile_Sync_effect:
  assumes "PosixWritableFile_Sync f = (r, f')" "PosixWritableFile_valid f"
  shows "PosixWritableFile_valid f' \<and>
    prefix (d_contents (pw_descriptor f)) (d_contents (pw_descriptor f')) \<and>
    prefix (d_contents (pw_descriptor f')) (d_contents (pw_descriptor f) @ pw_buffer f) \<and>
    (r = Inr () \<longrightarrow> pw_buffer f' = [] \<and>
       d_contents (pw_descriptor f') = d_contents (pw_descriptor f) @ pw_buffer f \<and>
       d_durable (pw_descriptor f') = d_contents (pw_descriptor f'))"
proof (cases "pw_close_attempted f")
  case True
  with assms show ?thesis by (auto simp: PosixWritableFile_Sync_def CheckOpen_def)
next
  case False
  obtain st f1 where fl: "FlushBuffer f = (st, f1)" by fastforce
  note ex = FlushBuffer_extends [OF fl]
  then have v1: "PosixWritableFile_valid f1"
    using assms(2) by (auto simp: PosixWritableFile_valid_def)
  show ?thesis
  proof (cases st)
    case (Inl e)
    with assms False fl have "r = Inl e" "f' = f1"
      by (simp_all add: PosixWritableFile_Sync_def CheckOpen_def)
    then show ?thesis using ex v1 extends_by_prefix by blast
  next
    case (Inr u)
    obtain sy d where sy: "SyncDescriptor (pw_descriptor f1) (pw_path f1) = (sy, d)" by fastforce
    from assms False fl Inr sy have "RememberWrite f1 (sy, d) = (r, f')"
      by (simp add: PosixWritableFile_Sync_def CheckOpen_def)
    from RememberWrite_eq [OF this FlushBuffer_Inr_no_error [OF fl [unfolded Inr]]]
    have eq: "r = sy" "pw_descriptor f' = d" "pw_buffer f' = pw_buffer f1" by simp_all
    have "pw_buffer f1 = []" "d_contents (pw_descriptor f1) = d_contents (pw_descriptor f) @ pw_buffer f"
      using ex Inr extends_by_prefix(4) by auto
    with eq v1 SyncDescriptor_effect [OF sy] show ?thesis
      by (simp add: PosixWritableFile_valid_def)
  qed
qed

interpretation posix_writer: writable_file PosixWritableFile_Append PosixWritableFile_Flush
  PosixWritableFile_Sync PosixWritableFile_valid PosixWritableFile_accepted PosixWritableFile_written
  PosixWritableFile_durable
proof
  fix f
  show "prefix (PosixWritableFile_written f) (PosixWritableFile_accepted f)"
    by (simp add: posix_views)
next
  fix f bs r f'
  assume a: "PosixWritableFile_Append f bs = (r, f')" "PosixWritableFile_valid f"
  then obtain out rest where o: "pw_buffer f @ bs = out @ rest" "PosixWritableFile_valid f'"
      "extends_by (pw_descriptor f) out r (pw_descriptor f')" "r = Inr () \<Longrightarrow> pw_buffer f' = rest"
    using PosixWritableFile_Append_extends by metis
  show "PosixWritableFile_valid f'" by fact
  show "prefix (PosixWritableFile_written f) (PosixWritableFile_written f')"
    "PosixWritableFile_durable f' = PosixWritableFile_durable f"
    using extends_by_prefix [OF o(3)] by (simp_all add: posix_views)
  have "prefix (d_contents (pw_descriptor f')) ((d_contents (pw_descriptor f) @ out) @ rest)"
    using extends_by_prefix(2) [OF o(3)] by (rule prefix_prefix)
  then show "prefix (PosixWritableFile_written f') (PosixWritableFile_accepted f @ bs)"
    by (simp add: posix_views o(1))
next
  fix f bs u f'
  assume a: "PosixWritableFile_Append f bs = (Inr u, f')" "PosixWritableFile_valid f"
  then obtain out rest where o: "pw_buffer f @ bs = out @ rest"
      "extends_by (pw_descriptor f) out (Inr ()) (pw_descriptor f')" "pw_buffer f' = rest"
    using PosixWritableFile_Append_extends by (metis old.unit.exhaust)
  show "PosixWritableFile_accepted f' = PosixWritableFile_accepted f @ bs"
    using extends_by_prefix(4) [OF o(2)] o(1,3) by (simp add: posix_views)
next
  fix f r f'
  assume a: "PosixWritableFile_Flush f = (r, f')" "PosixWritableFile_valid f"
  note fl = PosixWritableFile_Flush_extends [OF a]
  show "PosixWritableFile_valid f'" by (rule fl)
  show "prefix (PosixWritableFile_written f) (PosixWritableFile_written f')"
    "prefix (PosixWritableFile_written f') (PosixWritableFile_accepted f)"
    "PosixWritableFile_durable f' = PosixWritableFile_durable f"
    using extends_by_prefix [OF fl(1)] by (simp_all add: posix_views)
next
  fix f u f'
  assume a: "PosixWritableFile_Flush f = (Inr u, f')" "PosixWritableFile_valid f"
  note fl = PosixWritableFile_Flush_extends [OF a]
  show "PosixWritableFile_accepted f' = PosixWritableFile_accepted f \<and>
      PosixWritableFile_written f' = PosixWritableFile_accepted f"
    using extends_by_prefix(4) [OF fl(1)] fl(3) by (simp add: posix_views)
next
  fix f r f'
  assume a: "PosixWritableFile_Sync f = (r, f')" "PosixWritableFile_valid f"
  note sy = PosixWritableFile_Sync_effect [OF a]
  show "PosixWritableFile_valid f'"
    "prefix (PosixWritableFile_written f) (PosixWritableFile_written f')"
    "prefix (PosixWritableFile_written f') (PosixWritableFile_accepted f)"
    using sy by (simp_all add: PosixWritableFile_written_def PosixWritableFile_accepted_def)
next
  fix f u f'
  assume a: "PosixWritableFile_Sync f = (Inr u, f')" "PosixWritableFile_valid f"
  show "PosixWritableFile_accepted f' = PosixWritableFile_accepted f \<and>
      PosixWritableFile_written f' = PosixWritableFile_accepted f \<and>
      PosixWritableFile_durable f' = PosixWritableFile_accepted f"
    using PosixWritableFile_Sync_effect [OF a] by (simp add: posix_views)
qed

text \<open>A writable file is healthy when it is open, has seen no error, and none of its future system calls
  fails or writes nothing; interruptions and short writes are allowed.\<close>

definition healthy_schedule :: "sys_outcome list \<Rightarrow> bool" where
  "healthy_schedule sched \<longleftrightarrow> (\<forall>x\<in>set sched. x \<noteq> Transferred 0 \<and> \<not> (\<exists>e. x = Failed e))"

definition PosixWritableFile_healthy :: "PosixWritableFile \<Rightarrow> bool" where
  "PosixWritableFile_healthy f \<longleftrightarrow>
     \<not> pw_close_attempted f \<and> pw_first_error f = None \<and> healthy_schedule (d_schedule (pw_descriptor f))"

lemma next_outcome_healthy:
  assumes "healthy_schedule sched"
  shows "\<exists>l rest. next_outcome sched = (Inr l, rest) \<and> healthy_schedule rest \<and> l \<noteq> Some 0"
  using assms by (induction sched rule: next_outcome.induct) (auto simp: healthy_schedule_def)

lemma WriteAll_healthy:
  assumes "healthy_schedule (d_schedule d)"
  shows "\<exists>d'. WriteAll d path data = (Inr (), d') \<and> healthy_schedule (d_schedule d')"
  using assms
proof (induction "length data" arbitrary: d data rule: less_induct)
  case less
  show ?case
  proof (cases "data = []")
    case True
    with less.prems show ?thesis by (simp add: WriteAll.simps)
  next
    case False
    let ?req = "take (MaximumIoSize (length data)) data"
    obtain l rest where n: "next_outcome (d_schedule d) = (Inr l, rest)" "healthy_schedule rest" "l \<noteq> Some 0"
      using next_outcome_healthy [OF less.prems] by blast
    define k where "k = limit_transfer l (length ?req)"
    have "0 < length ?req" using False MaximumIoSize_pos [of "length data"] by simp
    then have k: "0 < k" using n(3) by (auto simp: k_def limit_transfer_def split: option.splits)
    let ?d = "d\<lparr>d_schedule := rest, d_contents := d_contents d @ take k ?req\<rparr>"
    have w: "sys_write d ?req = (Inr k, ?d)" using n by (simp add: sys_write_def k_def Let_def)
    have "length (drop k data) < length data" using k False by simp
    from less.hyps [OF this, of ?d] n(2) obtain d' where
      "WriteAll ?d path (drop k data) = (Inr (), d')" "healthy_schedule (d_schedule d')" by auto
    then show ?thesis using False w k by (subst WriteAll.simps) simp
  qed
qed

lemma FlushBuffer_healthy:
  assumes "PosixWritableFile_healthy f"
  shows "\<exists>f'. FlushBuffer f = (Inr (), f') \<and> PosixWritableFile_healthy f'"
  using assms WriteAll_healthy [of "pw_descriptor f" "pw_path f" "pw_buffer f"]
  by (auto simp: FlushBuffer_def PosixWritableFile_healthy_def RememberWrite_def RememberFirstError_def
      CaptureFirstFailure_def)

interpretation posix_writer: healthy_writer PosixWritableFile_Append PosixWritableFile_Flush
  PosixWritableFile_Sync PosixWritableFile_valid PosixWritableFile_accepted PosixWritableFile_written
  PosixWritableFile_durable PosixWritableFile_healthy
proof
  fix f
  assume h: "PosixWritableFile_healthy f"
  show "\<exists>f'. PosixWritableFile_Flush f = (Inr (), f') \<and> PosixWritableFile_healthy f'"
    using FlushBuffer_healthy [OF h] h
    by (simp add: PosixWritableFile_Flush_def CheckOpen_def PosixWritableFile_healthy_def)
  obtain f1 where f1: "FlushBuffer f = (Inr (), f1)" "PosixWritableFile_healthy f1"
    using FlushBuffer_healthy [OF h] by blast
  then obtain l rest where "next_outcome (d_schedule (pw_descriptor f1)) = (Inr l, rest)" "healthy_schedule rest"
    using next_outcome_healthy unfolding PosixWritableFile_healthy_def by blast
  with f1 h show "\<exists>f'. PosixWritableFile_Sync f = (Inr (), f') \<and> PosixWritableFile_healthy f'"
    by (simp add: PosixWritableFile_Sync_def CheckOpen_def PosixWritableFile_healthy_def SyncDescriptor_def
        sys_fdatasync_def RememberWrite_def RememberFirstError_def CaptureFirstFailure_def)
  fix bs
  show "\<exists>f'. PosixWritableFile_Append f bs = (Inr (), f') \<and> PosixWritableFile_healthy f'"
  proof (cases "bs = []")
    case True
    with h show ?thesis by (simp add: PosixWritableFile_Append_def CheckOpen_def PosixWritableFile_healthy_def)
  next
    case False
    define k where "k = min (length bs) (WritableBufferSize - length (pw_buffer f))"
    define f1 where "f1 = f\<lparr>pw_buffer := pw_buffer f @ take k bs\<rparr>"
    define mor where "mor = drop k bs"
    have h1: "PosixWritableFile_healthy f1" using h by (simp add: PosixWritableFile_healthy_def f1_def)
    obtain f2 where f2: "FlushBuffer f1 = (Inr (), f2)" "PosixWritableFile_healthy f2"
      using FlushBuffer_healthy [OF h1] by blast
    obtain d3 where d3: "WriteAll (pw_descriptor f2) (pw_path f2) mor = (Inr (), d3)" "healthy_schedule (d_schedule d3)"
      using WriteAll_healthy f2(2) unfolding PosixWritableFile_healthy_def by blast
    have app: "PosixWritableFile_Append f bs =
      (if mor = [] then (Inr (), f1)
       else if length mor < WritableBufferSize then (Inr (), f2\<lparr>pw_buffer := mor\<rparr>)
       else RememberWrite f2 (Inr (), d3))"
      using PosixWritableFile_Append_unfold [OF _ _ False k_def f1_def mor_def] h f2(1) d3(1)
      by (simp add: PosixWritableFile_healthy_def)
    show ?thesis
      unfolding app using h1 f2(2) d3(2)
      by (auto simp: PosixWritableFile_healthy_def RememberWrite_def RememberFirstError_def CaptureFirstFailure_def)
  qed
qed

section \<open>Properties\<close>

text \<open>A native file with the given contents and future system calls, for the witnesses.\<close>

definition demo_descriptor :: "bytes \<Rightarrow> sys_outcome list \<Rightarrow> descriptor" where
  "demo_descriptor bs sched = \<lparr>d_contents = bs, d_durable = [], d_schedule = sched, d_message = (\<lambda>_. [])\<rparr>"

definition demo_writable :: "sys_outcome list \<Rightarrow> PosixWritableFile" where
  "demo_writable sched = PosixWritableFile_New (demo_descriptor [] sched) ''wal''"

definition demo_sequential :: "bytes \<Rightarrow> sys_outcome list \<Rightarrow> PosixSequentialFile" where
  "demo_sequential bs sched = \<lparr>ps_path = ''wal'', ps_descriptor = demo_descriptor bs sched\<rparr>"

lemma demo_writable_views [simp]:
  "PosixWritableFile_valid (demo_writable sched)" "PosixWritableFile_accepted (demo_writable sched) = []"
  by (simp_all add: demo_writable_def demo_descriptor_def PosixWritableFile_New_def posix_views)

lemma demo_sequential_views [simp]:
  "PosixSequentialFile_unread (demo_sequential bs sched) = bs"
  "PosixSequentialFile_reliable (demo_sequential bs sched) \<longleftrightarrow> (\<forall>x\<in>set sched. \<not> (\<exists>e. x = Failed e))"
  by (simp_all add: demo_sequential_def demo_descriptor_def posix_views PosixSequentialFile_reliable_def)

text \<open>C12: Buffered appending.  Whatever the system calls do, an append to a valid native file leaves a
  valid one, the bytes in the file grow along the accepted stream followed by the new data, nothing
  becomes durable without a sync, and when it reports success exactly the new data was accepted.\<close>

theorem posix_append_stream:
  assumes "PosixWritableFile_Append f bs = (r, f')" "PosixWritableFile_valid f"
  shows "PosixWritableFile_valid f' \<and> prefix (PosixWritableFile_written f) (PosixWritableFile_written f') \<and>
    prefix (PosixWritableFile_written f') (PosixWritableFile_accepted f @ bs) \<and>
    PosixWritableFile_durable f' = PosixWritableFile_durable f \<and>
    (r = Inr () \<longrightarrow> PosixWritableFile_accepted f' = PosixWritableFile_accepted f @ bs)"
  using posix_writer.append_valid [OF assms] posix_writer.append_grows [OF assms]
    posix_writer.append_stream [OF assms] posix_writer.append_durable [OF assms]
    posix_writer.append_ok [OF _ assms(2), of bs "()" f'] assms(1) by simp

theorem posix_append_stream_witness:
  "let f = demo_writable [Interrupted, Transferred 1, Failed EAGAIN];
       f' = snd (PosixWritableFile_Append f [1, 2, 3])
   in PosixWritableFile_valid f' \<and> prefix (PosixWritableFile_written f') ([] @ [1, 2, 3])"
  using posix_append_stream [OF surjective_pairing demo_writable_views(1),
      of "[Interrupted, Transferred 1, Failed EAGAIN]" "[1, 2, 3]"] by (simp add: Let_def)

text \<open>C13: Write errors are sticky.  After a native file has recorded an error, every further append, flush
  and sync on the open file returns that first error and changes nothing, and closing it returns the
  same error without writing.\<close>

theorem posix_first_error_sticky:
  assumes "pw_first_error f = Some e" "\<not> pw_close_attempted f"
  shows "PosixWritableFile_Append f bs = (Inl e, f) \<and> PosixWritableFile_Flush f = (Inl e, f) \<and>
    PosixWritableFile_Sync f = (Inl e, f) \<and>
    fst (PosixWritableFile_Close f) = Inl e \<and>
    PosixWritableFile_written (snd (PosixWritableFile_Close f)) = PosixWritableFile_written f"
  using assms
  by (auto simp: PosixWritableFile_Append_def PosixWritableFile_Flush_def PosixWritableFile_Sync_def
      PosixWritableFile_Close_def CheckOpen_def FlushBuffer_def PosixWritableFile_written_def
      CloseDescriptor_def sys_close_def split: prod.splits sum.splits list.splits sys_outcome.splits)

theorem posix_first_error_sticky_witness:
  "let e = Error Io ''write''; f = (demo_writable [])\<lparr>pw_first_error := Some e\<rparr>
   in PosixWritableFile_Append f [1] = (Inl e, f) \<and> PosixWritableFile_Sync f = (Inl e, f)"
  using posix_first_error_sticky [of "(demo_writable [])\<lparr>pw_first_error := Some (Error Io ''write'')\<rparr>"
      "Error Io ''write''" "[1]"]
  by (simp add: Let_def demo_writable_def PosixWritableFile_New_def)

end
