(* ===== verification/Wal_IO.thy ===== *)
theory Wal_IO
  imports Wal_Format Posix_Files
begin

text \<open>
  The log writer and the log reader (\<^verbatim>\<open>src/wal/wal_io.{h,cc}\<close>).  The file is an argument: the
  operations \<open>append_file\<close>, \<open>flush_file\<close>, \<open>sync_file\<close>, \<open>close_file\<close> and \<open>read_file\<close> of the handle the object owns.  Borrowed views
  of the reader's buffers are modelled by their bytes.
\<close>

section \<open>The writer\<close>

record 'w WalWriter =
  ww_file :: 'w
  ww_fragmenter :: WalFragmenter
  ww_reopen_padding :: nat

definition WalWriter_New :: "crc_extend \<Rightarrow> 'w \<Rightarrow> nat \<Rightarrow> 'w WalWriter" where
  "WalWriter_New E file initial_file_size =
     (let block_offset = initial_file_size mod WalBlockSize
      in \<lparr>ww_file = file, ww_fragmenter = WalFragmenter_New E 0,
          ww_reopen_padding =
            (if initial_file_size \<noteq> 0 \<and> block_offset \<noteq> 0 then WalBlockSize - block_offset else 0)\<rparr>)"

definition AppendPadding :: "('w \<Rightarrow> bytes \<Rightarrow> status \<times> 'w) \<Rightarrow> 'w \<Rightarrow> nat \<Rightarrow> status \<times> 'w" where
  "AppendPadding append_file file n = append_file file (replicate n 0)"

definition PadReopenedBlock ::
  "('w \<Rightarrow> bytes \<Rightarrow> status \<times> 'w) \<Rightarrow> 'w WalWriter \<Rightarrow> status \<times> 'w WalWriter" where
  "PadReopenedBlock append_file w =
     (if ww_reopen_padding w \<noteq> 0
      then case AppendPadding append_file (ww_file w) (ww_reopen_padding w) of
          (Inl e, file) \<Rightarrow> (Inl e, w\<lparr>ww_file := file\<rparr>)
        | (Inr _, file) \<Rightarrow> (Inr (), w\<lparr>ww_file := file, ww_reopen_padding := 0\<rparr>)
      else (Inr (), w))"

text \<open>The three appends of one loop iteration.\<close>

definition AppendFragment ::
  "('w \<Rightarrow> bytes \<Rightarrow> status \<times> 'w) \<Rightarrow> 'w \<Rightarrow> WalFragment \<Rightarrow> status \<times> 'w" where
  "AppendFragment append_file file fragment =
     (case (if frag_padding_before fragment \<noteq> 0
            then AppendPadding append_file file (frag_padding_before fragment) else (Inr (), file)) of
        (Inl e, file1) \<Rightarrow> (Inl e, file1)
      | (Inr _, file1) \<Rightarrow>
        (case append_file file1 (frag_header fragment) of
           (Inl e, file2) \<Rightarrow> (Inl e, file2)
         | (Inr _, file2) \<Rightarrow>
             if frag_payload fragment \<noteq> [] then append_file file2 (frag_payload fragment)
             else (Inr (), file2)))"

text \<open>The number of fragments still to be produced is bounded by this measure: a fragment either
  takes payload, or is the empty first fragment in the last seven bytes of a block.\<close>

definition fragment_measure :: "WalFragmenter \<Rightarrow> WalCursor \<Rightarrow> nat" where
  "fragment_measure fragmenter cursor =
     (if cur_done cursor then 0
      else 1 + 2 * length (cur_remaining cursor) +
        (if fr_block_offset fragmenter = WalBlockSize - WalHeaderSize then 1 else 0))"

lemma fragment_measure_Next:
  assumes "Next E fragmenter cursor = (Some fragment, fragmenter', cursor')"
  shows "fragment_measure fragmenter' cursor' < fragment_measure fragmenter cursor"
  using assms
  by (auto simp: Next_def Let_def TakePadding_def FragmentPayloadSize_def Advance_def
      fragment_measure_def wal_sizes min_def split: if_splits)

function AddFragments ::
  "crc_extend \<Rightarrow> ('w \<Rightarrow> bytes \<Rightarrow> status \<times> 'w) \<Rightarrow> WalFragmenter \<Rightarrow> WalCursor \<Rightarrow> 'w \<Rightarrow>
   status \<times> WalFragmenter \<times> 'w" where
  "AddFragments E append_file fragmenter cursor file =
     (case Next E fragmenter cursor of
        (None, fragmenter', cursor') \<Rightarrow> (Inr (), fragmenter', file)
      | (Some fragment, fragmenter', cursor') \<Rightarrow>
        (case AppendFragment append_file file fragment of
           (Inl e, file') \<Rightarrow> (Inl e, fragmenter', file')
         | (Inr _, file') \<Rightarrow> AddFragments E append_file fragmenter' cursor' file'))"
  by pat_completeness auto
termination
  by (relation "measure (\<lambda>(E, append_file, fragmenter, cursor, file). fragment_measure fragmenter cursor)")
    (auto intro: fragment_measure_Next [OF sym])

declare AddFragments.simps [simp del]

definition WalWriter_AddRecord ::
  "crc_extend \<Rightarrow> ('w \<Rightarrow> bytes \<Rightarrow> status \<times> 'w) \<Rightarrow> ('w \<Rightarrow> status \<times> 'w) \<Rightarrow>
   'w WalWriter \<Rightarrow> bytes \<Rightarrow> status \<times> 'w WalWriter" where
  "WalWriter_AddRecord E append_file flush_file w logical_record =
     (let cursor = Fragment logical_record
      in case PadReopenedBlock append_file w of
        (Inl e, w1) \<Rightarrow> (Inl e, w1)
      | (Inr _, w1) \<Rightarrow>
        (case AddFragments E append_file (ww_fragmenter w1) cursor (ww_file w1) of
           (Inl e, fragmenter, file) \<Rightarrow> (Inl e, w1\<lparr>ww_fragmenter := fragmenter, ww_file := file\<rparr>)
         | (Inr _, fragmenter, file) \<Rightarrow>
           (case flush_file file of
              (st, file') \<Rightarrow> (st, w1\<lparr>ww_fragmenter := fragmenter, ww_file := file'\<rparr>))))"

definition WalWriter_Sync :: "('w \<Rightarrow> status \<times> 'w) \<Rightarrow> 'w WalWriter \<Rightarrow> status \<times> 'w WalWriter" where
  "WalWriter_Sync sync_file w = (case sync_file (ww_file w) of (st, file) \<Rightarrow> (st, w\<lparr>ww_file := file\<rparr>))"

definition WalWriter_Close :: "('w \<Rightarrow> status \<times> 'w) \<Rightarrow> 'w WalWriter \<Rightarrow> status \<times> 'w WalWriter" where
  "WalWriter_Close close_file w = (case close_file (ww_file w) of (st, file) \<Rightarrow> (st, w\<lparr>ww_file := file\<rparr>))"

section \<open>The reader\<close>

datatype WalReadEvent =
    WalLogicalRecord (record_data: bytes) (record_offset: nat)
  | WalCorruption (corruption_error: Error) (dropped_bytes: nat) (corruption_offset: nat)

type_synonym WalReadResult = "WalReadEvent option result"

text \<open>A physical read: a fragment with its type, payload, file offset and position in the block,
  or a corruption.\<close>

datatype PhysicalRead =
    PhysicalFragment (ph_type: WalRecordType) (ph_payload: bytes) (ph_offset: nat) (ph_block_position: nat)
  | PhysicalCorruption (ph_error: Error) (ph_dropped_bytes: nat) (ph_corruption_offset: nat)

text \<open>\<open>rd_block\<close> is the filled part of the block array, its length the field \<^verbatim>\<open>block_size_\<close>.\<close>

record 'f WalReader =
  rd_file :: "'f option"
  rd_block :: bytes
  rd_block_position :: nat
  rd_block_start_offset :: nat
  rd_scratch :: bytes
  rd_terminal_error :: "Error option"
  rd_partial_record_offset :: nat
  rd_eof_seen :: bool
  rd_in_fragmented_record :: bool

definition WalReader_New :: "'f option \<Rightarrow> 'f WalReader" where
  "WalReader_New file =
     \<lparr>rd_file = file, rd_block = [], rd_block_position = 0, rd_block_start_offset = 0, rd_scratch = [],
      rd_terminal_error =
        (if file = None then Some (Error InvalidArgument ''WAL reader requires a file'') else None),
      rd_partial_record_offset = 0, rd_eof_seen = False, rd_in_fragmented_record = False\<rparr>"

definition ClearPartial :: "'f WalReader \<Rightarrow> 'f WalReader" where
  "ClearPartial rd = rd\<lparr>rd_scratch := [], rd_in_fragmented_record := False, rd_partial_record_offset := 0\<rparr>"

definition HasPartialPayload :: "'f WalReader \<Rightarrow> bool" where
  "HasPartialPayload rd \<longleftrightarrow> rd_in_fragmented_record rd \<and> rd_scratch rd \<noteq> []"

definition AbandonPartial :: "'f WalReader \<Rightarrow> string \<Rightarrow> WalReadEvent \<times> 'f WalReader" where
  "AbandonPartial rd reason =
     (WalCorruption (Error Corruption reason) (length (rd_scratch rd)) (rd_partial_record_offset rd),
      ClearPartial rd)"

definition BeginBlock :: "'f WalReader \<Rightarrow> 'f WalReader" where
  "BeginBlock rd =
     rd\<lparr>rd_block_start_offset := rd_block_start_offset rd + length (rd_block rd), rd_block := [],
        rd_block_position := 0\<rparr>"

text \<open>A count larger than the output is modelled by more bytes than requested.  The handle of a live
  reader is never null; a null one is undefined behaviour, given here as an error value.\<close>

definition ReadBlockChunk ::
  "('f \<Rightarrow> nat \<Rightarrow> bytes result \<times> 'f) \<Rightarrow> 'f WalReader \<Rightarrow> bytes result \<times> 'f WalReader" where
  "ReadBlockChunk read_file rd =
     (case rd_file rd of
        None \<Rightarrow> (Inl (Error Aborted ''null file''), rd)
      | Some file \<Rightarrow>
        let output_size = WalBlockSize - length (rd_block rd)
        in case read_file file output_size of
            (Inl e, file') \<Rightarrow> (Inl e, rd\<lparr>rd_file := Some file'\<rparr>)
          | (Inr bs, file') \<Rightarrow>
              if length bs > output_size
              then (Inl (Error Io ''sequential file returned an oversized WAL read''), rd\<lparr>rd_file := Some file'\<rparr>)
              else (Inr bs, rd\<lparr>rd_file := Some file'\<rparr>))"

definition AcceptBlockChunk :: "'f WalReader \<Rightarrow> bytes \<Rightarrow> 'f WalReader" where
  "AcceptBlockChunk rd bs =
     (if bs = [] then rd\<lparr>rd_eof_seen := True\<rparr> else rd\<lparr>rd_block := rd_block rd @ bs\<rparr>)"

lemma ReadBlockChunk_block:
  "ReadBlockChunk read_file rd = (r, rd') \<Longrightarrow> rd_block rd' = rd_block rd"
  by (auto simp: ReadBlockChunk_def Let_def split: option.splits prod.splits sum.splits if_splits)

function FillBlockLoop ::
  "('f \<Rightarrow> nat \<Rightarrow> bytes result \<times> 'f) \<Rightarrow> 'f WalReader \<Rightarrow> status \<times> 'f WalReader" where
  "FillBlockLoop read_file rd =
     (if length (rd_block rd) < WalBlockSize
      then case ReadBlockChunk read_file rd of
          (Inl e, rd1) \<Rightarrow> (Inl e, rd1)
        | (Inr bs, rd1) \<Rightarrow>
            if bs = [] then (Inr (), AcceptBlockChunk rd1 bs)
            else FillBlockLoop read_file (AcceptBlockChunk rd1 bs)
      else (Inr (), rd))"
  by pat_completeness auto
termination
  by (relation "measure (\<lambda>(read_file, rd). WalBlockSize - length (rd_block rd))")
    (auto simp: AcceptBlockChunk_def neq_Nil_conv dest!: ReadBlockChunk_block [OF sym])

declare FillBlockLoop.simps [simp del]

definition FillBlock ::
  "('f \<Rightarrow> nat \<Rightarrow> bytes result \<times> 'f) \<Rightarrow> 'f WalReader \<Rightarrow> bool result \<times> 'f WalReader" where
  "FillBlock read_file rd =
     (if rd_eof_seen rd then (Inr False, rd)
      else case FillBlockLoop read_file (BeginBlock rd) of
          (Inl e, rd1) \<Rightarrow> (Inl e, rd1)
        | (Inr _, rd1) \<Rightarrow> (Inr (rd_block rd1 \<noteq> []), rd1))"

definition RecoverPhysicalFailure ::
  "'f WalReader \<Rightarrow> WalDecodeError \<Rightarrow> nat \<Rightarrow> nat \<Rightarrow> PhysicalRead option \<times> 'f WalReader" where
  "RecoverPhysicalFailure rd failure offset remaining =
     (let discarded = (if wde_recovery failure = SkipPhysicalRecord then wde_encoded_size failure else remaining);
          rd1 = rd\<lparr>rd_block_position := rd_block_position rd + discarded\<rparr>;
          truncated_tail = (rd_eof_seen rd1 \<and>
            (wde_failure failure = TruncatedPayload \<or> wde_failure failure = PayloadTooLarge))
      in if truncated_tail then (None, rd1)
         else (Some (PhysicalCorruption (wde_error failure) discarded offset), rd1))"

definition DecodePhysical ::
  "crc_extend \<Rightarrow> 'f WalReader \<Rightarrow> nat \<Rightarrow> nat \<Rightarrow> PhysicalRead option \<times> 'f WalReader" where
  "DecodePhysical E rd position remaining =
     (let offset = rd_block_start_offset rd + position
      in case DecodeWalFragment E (take remaining (drop position (rd_block rd))) True of
          Inl failure \<Rightarrow> RecoverPhysicalFailure rd failure offset remaining
        | Inr decoded \<Rightarrow>
            (Some (PhysicalFragment (wdo_type decoded) (wdo_payload decoded) offset position),
             rd\<lparr>rd_block_position :=
               (if wdo_kind decoded = EndOfBlock then length (rd_block rd)
                else position + wdo_encoded_size decoded)\<rparr>))"

text \<open>\<open>ReadPhysical\<close> ends: each iteration that does not return either fills a block, which happens
  once more at most when the end of the file is known, or moves to the end of the block.\<close>

lemma FillBlockLoop_effect:
  assumes "FillBlockLoop read_file rd = (Inr u, rd')"
  shows "rd_block_position rd' = rd_block_position rd \<and>
    (rd_eof_seen rd' \<or> WalBlockSize \<le> length (rd_block rd'))"
  using assms
proof (induction read_file rd rule: FillBlockLoop.induct)
  case (1 read_file rd)
  note IH = 1(1) and run = 1(2)
  show ?case
  proof (cases "length (rd_block rd) < WalBlockSize")
    case False
    with run show ?thesis by (simp add: FillBlockLoop.simps)
  next
    case True
    with run obtain bs rd1 where c: "ReadBlockChunk read_file rd = (Inr bs, rd1)"
      by (subst (asm) FillBlockLoop.simps) (auto split: prod.splits sum.splits)
    then have p: "rd_block_position rd1 = rd_block_position rd"
      by (auto simp: ReadBlockChunk_def Let_def split: option.splits prod.splits sum.splits if_splits)
    show ?thesis
    proof (cases "bs = []")
      case True
      with run c \<open>length (rd_block rd) < WalBlockSize\<close> p show ?thesis
        by (subst (asm) FillBlockLoop.simps) (auto simp: AcceptBlockChunk_def)
    next
      case False
      with run c True have "FillBlockLoop read_file (AcceptBlockChunk rd1 bs) = (Inr u, rd')"
        by (subst (asm) FillBlockLoop.simps) simp
      from IH [OF True c [symmetric] refl False this] p False show ?thesis
        by (simp add: AcceptBlockChunk_def)
    qed
  qed
qed

lemma FillBlock_effect:
  assumes "FillBlock read_file rd = (Inr True, rd')"
  shows "\<not> rd_eof_seen rd \<and> rd_block_position rd' = 0 \<and> rd_block rd' \<noteq> []
    \<and> (rd_eof_seen rd' \<or> WalBlockSize \<le> length (rd_block rd'))"
  using assms FillBlockLoop_effect [of read_file "BeginBlock rd"]
  by (auto simp: FillBlock_def BeginBlock_def split: if_splits prod.splits sum.splits)

text \<open>The measure of the loop of \<open>ReadPhysical\<close>: two for a file whose end is not yet seen, one for a
  block that is not finished.\<close>

definition physical_measure :: "'f WalReader \<Rightarrow> nat" where
  "physical_measure rd =
     (if rd_eof_seen rd then 0 else 2) + (if rd_block_position rd = length (rd_block rd) then 0 else 1)"

lemma DecodePhysical_None:
  assumes "DecodePhysical E rd (rd_block_position rd) (length (rd_block rd) - rd_block_position rd) = (None, rd')"
    "7 \<le> length (rd_block rd) - rd_block_position rd"
  shows "rd_eof_seen rd \<and> rd_eof_seen rd' \<and> rd_block rd' = rd_block rd
    \<and> rd_block_position rd' = length (rd_block rd)"
proof -
  let ?enc = "take (length (rd_block rd) - rd_block_position rd) (drop (rd_block_position rd) (rd_block rd))"
  obtain failure where f: "DecodeWalFragment E ?enc True = Inl failure"
    using assms(1) by (cases "DecodeWalFragment E ?enc True") (auto simp: DecodePhysical_def Let_def)
  have "wde_failure failure = TruncatedPayload \<or> wde_failure failure = PayloadTooLarge \<Longrightarrow>
      wde_recovery failure = DropBlock"
    using f by (auto simp: DecodeWalFragment_def bindR_eq_Inl ReadWalPayloadSize_def DecodeFailure_def Let_def
        split: if_splits)
  with assms f show ?thesis
    by (auto simp: DecodePhysical_def RecoverPhysicalFailure_def Let_def split: if_splits)
qed

text \<open>The first part of an iteration: a new block when the current one is finished.\<close>

definition EnsureBlock ::
  "('f \<Rightarrow> nat \<Rightarrow> bytes result \<times> 'f) \<Rightarrow> 'f WalReader \<Rightarrow> bool result \<times> 'f WalReader" where
  "EnsureBlock read_file rd =
     (if rd_block_position rd = length (rd_block rd) then FillBlock read_file rd else (Inr True, rd))"

lemma EnsureBlock_measure:
  assumes "EnsureBlock read_file rd = (Inr True, rd1)"
  shows "rd_block_position rd1 \<noteq> length (rd_block rd1)"
    and "physical_measure rd1 \<le> physical_measure rd \<or>
      \<not> rd_eof_seen rd1 \<and> rd_block_position rd1 = 0 \<and> WalBlockSize \<le> length (rd_block rd1)"
  using assms FillBlock_effect [of read_file rd rd1]
  by (auto simp: EnsureBlock_def physical_measure_def split: if_splits)

lemma physical_measure_skip:
  assumes "(Inr True, rd1) = EnsureBlock read_file rd"
    "length (rd_block rd1) - rd_block_position rd1 < WalHeaderSize"
  shows "physical_measure (rd1\<lparr>rd_block_position := length (rd_block rd1)\<rparr>) < physical_measure rd"
  using assms(2) EnsureBlock_measure [OF assms(1) [symmetric]]
  by (auto simp: physical_measure_def wal_sizes split: if_splits)

lemma physical_measure_retry:
  assumes "(Inr True, rd1) = EnsureBlock read_file rd"
    "\<not> length (rd_block rd1) - rd_block_position rd1 < WalHeaderSize"
    "(None, rd2) = DecodePhysical E rd1 (rd_block_position rd1) (length (rd_block rd1) - rd_block_position rd1)"
  shows "physical_measure rd2 < physical_measure rd"
proof -
  have "7 \<le> length (rd_block rd1) - rd_block_position rd1"
    using assms(2) by (simp add: wal_sizes)
  from DecodePhysical_None [OF assms(3) [symmetric] this] EnsureBlock_measure [OF assms(1) [symmetric]]
  show ?thesis by (auto simp: physical_measure_def split: if_splits)
qed

function ReadPhysical ::
  "('f \<Rightarrow> nat \<Rightarrow> bytes result \<times> 'f) \<Rightarrow> crc_extend \<Rightarrow> 'f WalReader \<Rightarrow>
   PhysicalRead option result \<times> 'f WalReader" where
  "ReadPhysical read_file E rd =
     (case EnsureBlock read_file rd of
        (Inl e, rd1) \<Rightarrow> (Inl e, rd1)
      | (Inr filled, rd1) \<Rightarrow>
          if \<not> filled then (Inr None, rd1)
          else
            let position = rd_block_position rd1;
                remaining = length (rd_block rd1) - position
            in if remaining < WalHeaderSize
               then ReadPhysical read_file E (rd1\<lparr>rd_block_position := length (rd_block rd1)\<rparr>)
               else (case DecodePhysical E rd1 position remaining of
                   (Some decoded, rd2) \<Rightarrow> (Inr (Some decoded), rd2)
                 | (None, rd2) \<Rightarrow> ReadPhysical read_file E rd2))"
  by pat_completeness auto
termination
  by (relation "measure (\<lambda>(read_file, E, rd). physical_measure rd)")
    (auto intro: physical_measure_skip physical_measure_retry)

declare ReadPhysical.simps [simp del]

section \<open>Logical records\<close>

definition ConsumeCorruption :: "'f WalReader \<Rightarrow> Error \<Rightarrow> nat \<Rightarrow> nat \<Rightarrow> WalReadEvent \<times> 'f WalReader" where
  "ConsumeCorruption rd error dropped offset =
     ((if rd_in_fragmented_record rd
       then WalCorruption error (dropped + length (rd_scratch rd)) (rd_partial_record_offset rd)
       else WalCorruption error dropped offset), ClearPartial rd)"

definition ConsumeZero :: "'f WalReader \<Rightarrow> WalReadEvent option \<times> 'f WalReader" where
  "ConsumeZero rd =
     (if HasPartialPayload rd
      then (case AbandonPartial rd ''WAL fragmented record ended at a zero marker'' of (ev, rd') \<Rightarrow> (Some ev, rd'))
      else (None, ClearPartial rd))"

definition ConsumeFull :: "'f WalReader \<Rightarrow> bytes \<Rightarrow> nat \<Rightarrow> nat \<Rightarrow> WalReadEvent option \<times> 'f WalReader" where
  "ConsumeFull rd data offset block_position =
     (if HasPartialPayload rd
      then (case AbandonPartial (rd\<lparr>rd_block_position := block_position\<rparr>)
                   ''WAL fragmented record was interrupted by a full record'' of
              (ev, rd') \<Rightarrow> (Some ev, rd'))
      else (Some (WalLogicalRecord data offset), ClearPartial rd))"

definition ConsumeFirst :: "'f WalReader \<Rightarrow> bytes \<Rightarrow> nat \<Rightarrow> nat \<Rightarrow> WalReadEvent option \<times> 'f WalReader" where
  "ConsumeFirst rd data offset block_position =
     (if HasPartialPayload rd
      then (case AbandonPartial (rd\<lparr>rd_block_position := block_position\<rparr>)
                   ''WAL fragmented record was interrupted by a first fragment'' of
              (ev, rd') \<Rightarrow> (Some ev, rd'))
      else (None, rd\<lparr>rd_scratch := data, rd_partial_record_offset := offset, rd_in_fragmented_record := True\<rparr>))"

definition ConsumeContinuation ::
  "'f WalReader \<Rightarrow> WalRecordType \<Rightarrow> bytes \<Rightarrow> nat \<Rightarrow> WalReadEvent option \<times> 'f WalReader" where
  "ConsumeContinuation rd t data offset =
     (if \<not> rd_in_fragmented_record rd
      then (Some (WalCorruption (Error Corruption ''WAL fragment has no starting fragment'')
                   (length data) offset), rd)
      else let rd1 = rd\<lparr>rd_scratch := rd_scratch rd @ data\<rparr>
           in if t = Middle then (None, rd1)
              else (Some (WalLogicalRecord (rd_scratch rd1) (rd_partial_record_offset rd1)),
                    rd1\<lparr>rd_in_fragmented_record := False\<rparr>))"

text \<open>\<^verbatim>\<open>std::unreachable\<close> for a stored type without an enumerator: \<open>DecodeWalFragment\<close> never returns
  one, and the branch is given as \<open>ConsumeZero\<close>.\<close>

definition ConsumeFragment ::
  "'f WalReader \<Rightarrow> WalRecordType \<Rightarrow> bytes \<Rightarrow> nat \<Rightarrow> nat \<Rightarrow> WalReadEvent option \<times> 'f WalReader" where
  "ConsumeFragment rd t data offset block_position =
     (case t of
        Zero \<Rightarrow> ConsumeZero rd
      | Full \<Rightarrow> ConsumeFull rd data offset block_position
      | First \<Rightarrow> ConsumeFirst rd data offset block_position
      | Middle \<Rightarrow> ConsumeContinuation rd Middle data offset
      | Last \<Rightarrow> ConsumeContinuation rd Last data offset
      | OtherType _ \<Rightarrow> ConsumeZero rd)"

partial_function (option) ReadNextLoop ::
  "('f \<Rightarrow> nat \<Rightarrow> bytes result \<times> 'f) \<Rightarrow> crc_extend \<Rightarrow> 'f WalReader \<Rightarrow> (WalReadResult \<times> 'f WalReader) option" where
  "ReadNextLoop read_file E rd =
     (case ReadPhysical read_file E rd of
        (Inl e, rd1) \<Rightarrow> Some (Inl e, rd1\<lparr>rd_terminal_error := Some e\<rparr>)
      | (Inr None, rd1) \<Rightarrow> Some (Inr None, ClearPartial rd1)
      | (Inr (Some (PhysicalCorruption error dropped offset)), rd1) \<Rightarrow>
          (case ConsumeCorruption rd1 error dropped offset of (ev, rd2) \<Rightarrow> Some (Inr (Some ev), rd2))
      | (Inr (Some (PhysicalFragment t data offset block_position)), rd1) \<Rightarrow>
          (case ConsumeFragment rd1 t data offset block_position of
             (Some ev, rd2) \<Rightarrow> Some (Inr (Some ev), rd2)
           | (None, rd2) \<Rightarrow> ReadNextLoop read_file E rd2))"

definition WalReader_ReadNext ::
  "('f \<Rightarrow> nat \<Rightarrow> bytes result \<times> 'f) \<Rightarrow> crc_extend \<Rightarrow> 'f WalReader \<Rightarrow> (WalReadResult \<times> 'f WalReader) option" where
  "WalReader_ReadNext read_file E rd =
     (case rd_terminal_error rd of
        Some e \<Rightarrow> Some (Inl e, rd)
      | None \<Rightarrow> ReadNextLoop read_file E rd)"

end
