(* ===== verification/Wal_Roundtrip.thy ===== *)
theory Wal_Roundtrip
  imports Wal_IO
begin

text \<open>
  The log as a whole: what \<open>AddRecord\<close> leaves in the file, and that \<open>ReadNext\<close> recovers it.  The layout
  of a log is given by a reference function on records; the writer appends exactly this layout, and
  the reader, on any prefix of it, returns the complete records in order and then the end of the
  file, never a corruption.
\<close>

section \<open>The layout of a log\<close>

definition fragment_image :: "crc_extend \<Rightarrow> WalRecordType \<Rightarrow> bytes \<Rightarrow> bytes" where
  "fragment_image E t data = EncodeHeader E t data (Crc32c E [WalRecordType_byte t]) @ data"

function record_image :: "crc_extend \<Rightarrow> nat \<Rightarrow> bool \<Rightarrow> bytes \<Rightarrow> bytes" where
  "record_image E off begins data =
     (let o' = snd (TakePadding off);
          n = min (length data) (WalBlockSize - o' - WalHeaderSize);
          ends = (n = length data);
          frag = replicate (fst (TakePadding off)) 0 @
            fragment_image E (SelectFragmentType begins ends) (take n data)
      in if ends then frag else frag @ record_image E 0 False (drop n data))"
  by pat_completeness auto
termination
  by (relation "measure (\<lambda>(E, off, begins, data). 2 * length data + (if off = WalBlockSize - WalHeaderSize then 1 else 0))")
    (auto simp: TakePadding_def wal_sizes Let_def min_def split: if_splits)

declare record_image.simps [simp del]

fun log_image :: "crc_extend \<Rightarrow> nat \<Rightarrow> bytes list \<Rightarrow> bytes" where
  "log_image E p [] = []"
| "log_image E p (r # rs) =
     (let img = record_image E (p mod WalBlockSize) True r in img @ log_image E (p + length img) rs)"

text \<open>The events of the records that lie completely within the first \<open>n\<close> bytes after \<open>p\<close>.\<close>

fun recovered_events :: "crc_extend \<Rightarrow> nat \<Rightarrow> bytes list \<Rightarrow> nat \<Rightarrow> WalReadEvent list" where
  "recovered_events E p [] n = []"
| "recovered_events E p (r # rs) n =
     (let len = length (record_image E (p mod WalBlockSize) True r)
      in if len \<le> n
         then WalLogicalRecord r (p + fst (TakePadding (p mod WalBlockSize))) #
                recovered_events E (p + len) rs (n - len)
         else [])"

text \<open>The results of \<open>m\<close> calls of \<open>ReadNext\<close>, undefined if one of them does not return.\<close>

fun ReadEvents ::
  "('f \<Rightarrow> nat \<Rightarrow> bytes result \<times> 'f) \<Rightarrow> crc_extend \<Rightarrow> nat \<Rightarrow> 'f WalReader \<Rightarrow> WalReadResult list option" where
  "ReadEvents read_file E 0 rd = Some []"
| "ReadEvents read_file E (Suc m) rd =
     (case WalReader_ReadNext read_file E rd of
        None \<Rightarrow> None
      | Some (r, rd') \<Rightarrow> map_option (Cons r) (ReadEvents read_file E m rd'))"

text \<open>The results of \<open>m\<close> calls that deliver the given events and then report the end of the file.\<close>

definition event_results :: "nat \<Rightarrow> WalReadEvent list \<Rightarrow> WalReadResult list" where
  "event_results m evs = take m (map (Inr \<circ> Some) evs) @ replicate (m - length evs) (Inr None)"

lemma event_results_simps [simp]:
  "event_results 0 evs = []"
  "event_results m [] = replicate m (Inr None)"
  "event_results (Suc m) (ev # evs) = Inr (Some ev) # event_results m evs"
  by (simp_all add: event_results_def)

section \<open>The position of a reader in a file\<close>

lemma drop_append_eq: "drop p xs = ys @ zs \<Longrightarrow> drop (p + length ys) xs = zs"
  by (metis add.commute append_eq_conv_conj drop_drop)

definition same_partial :: "'f WalReader \<Rightarrow> 'f WalReader \<Rightarrow> bool" where
  "same_partial rd rd' \<longleftrightarrow>
     rd_scratch rd' = rd_scratch rd \<and> rd_in_fragmented_record rd' = rd_in_fragmented_record rd \<and>
     rd_partial_record_offset rd' = rd_partial_record_offset rd"

lemma same_partial_refl [simp]: "same_partial rd rd"
  by (simp add: same_partial_def)

lemma same_partial_trans: "same_partial a b \<Longrightarrow> same_partial b c \<Longrightarrow> same_partial a c"
  by (simp add: same_partial_def)

definition block_window :: "'f WalReader \<Rightarrow> bytes \<Rightarrow> nat \<Rightarrow> bool" where
  "block_window rd C p \<longleftrightarrow>
     rd_terminal_error rd = None \<and>
     rd_block rd = take (length (rd_block rd)) (drop (rd_block_start_offset rd) C) \<and>
     rd_block_start_offset rd mod WalBlockSize = 0 \<and>
     rd_block_position rd \<le> length (rd_block rd) \<and>
     p = rd_block_start_offset rd + rd_block_position rd \<and>
     rd_block_start_offset rd + length (rd_block rd) \<le> length C \<and>
     (if rd_eof_seen rd
      then rd_block_start_offset rd + length (rd_block rd) = length C \<and> length (rd_block rd) < WalBlockSize
      else length (rd_block rd) = WalBlockSize \<or> rd_block rd = [] \<and> rd_block_start_offset rd = 0)"

lemma TakePadding_cases:
  assumes "off < WalBlockSize"
  shows "fst (TakePadding off) = 0 \<and> snd (TakePadding off) = off \<and> off + WalHeaderSize \<le> WalBlockSize \<or>
    0 < fst (TakePadding off) \<and> fst (TakePadding off) = WalBlockSize - off \<and> snd (TakePadding off) = 0 \<and>
    WalBlockSize - off < WalHeaderSize"
  using assms by (auto simp: TakePadding_def wal_sizes Let_def)

lemma TakePadding_mod: "(p + fst (TakePadding (p mod WalBlockSize))) mod WalBlockSize = snd (TakePadding (p mod WalBlockSize))"
proof -
  have "p mod WalBlockSize < WalBlockSize" by (simp add: wal_sizes)
  from TakePadding_cases [OF this] show ?thesis
  proof
    assume "0 < fst (TakePadding (p mod WalBlockSize)) \<and>
      fst (TakePadding (p mod WalBlockSize)) = WalBlockSize - p mod WalBlockSize \<and>
      snd (TakePadding (p mod WalBlockSize)) = 0 \<and> WalBlockSize - p mod WalBlockSize < WalHeaderSize"
    moreover have "(p + (WalBlockSize - p mod WalBlockSize)) mod WalBlockSize = 0"
      using \<open>p mod WalBlockSize < WalBlockSize\<close>
      by (metis add_diff_inverse_nat less_or_eq_imp_le mod_add_left_eq mod_self not_less)
    ultimately show ?thesis by simp
  qed simp
qed

lemma record_fragment_fits:
  assumes "n \<le> WalBlockSize - snd (TakePadding (p mod WalBlockSize)) - WalHeaderSize"
  shows "(p + fst (TakePadding (p mod WalBlockSize))) mod WalBlockSize + WalHeaderSize + n \<le> WalBlockSize"
proof -
  have "p mod WalBlockSize < WalBlockSize" by (simp add: wal_sizes)
  from TakePadding_cases [OF this] show ?thesis
    unfolding TakePadding_mod using assms by (auto simp: wal_sizes)
qed

lemma ReadNextLoop_cong:
  "ReadPhysical read_file E rd = ReadPhysical read_file E rd' \<Longrightarrow>
   ReadNextLoop read_file E rd = ReadNextLoop read_file E rd'"
  by (subst (1 2) ReadNextLoop.simps) simp

context reliable_file
begin

definition reader_at :: "'f WalReader \<Rightarrow> bytes \<Rightarrow> nat \<Rightarrow> bool" where
  "reader_at rd C p \<longleftrightarrow>
     block_window rd C p \<and>
     (\<exists>f. rd_file rd = Some f \<and> reliable f \<and>
        unread f = drop (rd_block_start_offset rd + length (rd_block rd)) C)"

lemma reader_at_New:
  assumes "reliable f" "unread f = C"
  shows "reader_at (WalReader_New (Some f)) C 0"
  using assms by (auto simp: reader_at_def block_window_def WalReader_New_def)

text \<open>Filling a block that starts at \<open>s\<close>: \<open>filling\<close> holds between the reads.\<close>

definition filling :: "'f WalReader \<Rightarrow> bytes \<Rightarrow> nat \<Rightarrow> bool" where
  "filling rd C s \<longleftrightarrow>
     rd_terminal_error rd = None \<and> \<not> rd_eof_seen rd \<and> rd_block_start_offset rd = s \<and> rd_block_position rd = 0 \<and>
     length (rd_block rd) \<le> WalBlockSize \<and> s + length (rd_block rd) \<le> length C \<and>
     rd_block rd = take (length (rd_block rd)) (drop s C) \<and>
     (\<exists>f. rd_file rd = Some f \<and> reliable f \<and> unread f = drop (s + length (rd_block rd)) C)"

lemma filling_chunk:
  assumes "filling rd C s" "length (rd_block rd) < WalBlockSize"
  obtains bs rd1 where "ReadBlockChunk read_file rd = (Inr bs, rd1)"
    "same_partial rd rd1" "bs \<noteq> [] \<Longrightarrow> filling (AcceptBlockChunk rd1 bs) C s"
    "bs = [] \<Longrightarrow> s + length (rd_block rd) = length C" "bs = [] \<Longrightarrow> filling rd1 C s"
    "rd_block rd1 = rd_block rd"
proof -
  from assms(1) obtain f where f: "rd_file rd = Some f" "reliable f"
      "unread f = drop (s + length (rd_block rd)) C"
    by (auto simp: filling_def)
  let ?n = "WalBlockSize - length (rd_block rd)"
  obtain bs f' where r: "read_file f ?n = (Inr bs, f')" "reliable f'"
    using read_reliable [OF f(2)] by blast
  have b: "length bs \<le> ?n" by (rule read_bounded [OF r(1)])
  have u: "drop (s + length (rd_block rd)) C = bs @ unread f'"
    using read_prefix [OF r(1)] f(3) by simp
  then have len: "length C - (s + length (rd_block rd)) = length bs + length (unread f')"
    by (metis length_append length_drop)
  have u': "unread f' = drop (s + length (rd_block rd) + length bs) C"
    using u by (metis append_eq_conv_conj drop_drop add.commute)
  have sC: "s + length (rd_block rd) \<le> length C"
    and blk: "rd_block rd = take (length (rd_block rd)) (drop s C)"
    using assms(1) by (simp_all add: filling_def)
  have "rd_block rd @ bs = take (length (rd_block rd) + length bs) (drop s C)"
    using u blk sC by (metis add.commute append_eq_conv_conj drop_drop take_add)
  then have fill: "filling (rd\<lparr>rd_file := Some f', rd_block := rd_block rd @ bs\<rparr>) C s"
    using assms b len sC r(2) u' by (simp add: filling_def add.assoc) linarith
  show thesis
  proof (rule that)
    show "ReadBlockChunk read_file rd = (Inr bs, rd\<lparr>rd_file := Some f'\<rparr>)"
      using f r b by (simp add: ReadBlockChunk_def)
    show "bs \<noteq> [] \<Longrightarrow> filling (AcceptBlockChunk (rd\<lparr>rd_file := Some f'\<rparr>) bs) C s"
      using fill by (simp add: AcceptBlockChunk_def)
    show "bs = [] \<Longrightarrow> s + length (rd_block rd) = length C"
      using read_end [of f ?n f'] r f assms sC by auto
    show "bs = [] \<Longrightarrow> filling (rd\<lparr>rd_file := Some f'\<rparr>) C s"
      using fill by (simp add: filling_def)
  qed (simp_all add: same_partial_def)
qed

lemma filling_FillBlockLoop:
  assumes "filling rd C s" "s mod WalBlockSize = 0"
  shows "\<exists>rd'. FillBlockLoop read_file rd = (Inr (), rd') \<and> same_partial rd rd' \<and> reader_at rd' C s \<and>
    rd_block rd' = take WalBlockSize (drop s C)"
  using assms
proof (induction "WalBlockSize - length (rd_block rd)" arbitrary: rd rule: less_induct)
  case less
  show ?case
  proof (cases "length (rd_block rd) < WalBlockSize")
    case False
    with less.prems have "length (rd_block rd) = WalBlockSize"
      by (simp add: filling_def)
    with less.prems False show ?thesis
      by (subst FillBlockLoop.simps)
        (auto simp: filling_def reader_at_def block_window_def)
  next
    case True
    obtain bs rd1 where c: "ReadBlockChunk read_file rd = (Inr bs, rd1)" "same_partial rd rd1"
        "bs \<noteq> [] \<Longrightarrow> filling (AcceptBlockChunk rd1 bs) C s"
        "bs = [] \<Longrightarrow> s + length (rd_block rd) = length C" "bs = [] \<Longrightarrow> filling rd1 C s"
        "rd_block rd1 = rd_block rd"
      using filling_chunk [OF less.prems(1) True] by metis
    show ?thesis
    proof (cases "bs = []")
      case end_of_file: True
      have "rd_block rd = take (length C - s) (drop s C)"
        using c(4) end_of_file less.prems by (metis add_diff_cancel_left' filling_def)
      then have "rd_block rd1 = drop s C"
        by (simp add: c(6))
      moreover have "length (drop s C) < WalBlockSize"
        using c(6) True calculation by simp
      ultimately show ?thesis
        using c end_of_file True less.prems
        by (subst FillBlockLoop.simps)
          (auto simp: AcceptBlockChunk_def same_partial_def reader_at_def block_window_def filling_def)
    next
      case False
      let ?rd2 = "AcceptBlockChunk rd1 bs"
      have "WalBlockSize - length (rd_block ?rd2) < WalBlockSize - length (rd_block rd)"
        using True False c(6) by (cases bs) (auto simp: AcceptBlockChunk_def)
      from less.hyps [OF this c(3) [OF False] less.prems(2)] obtain rd' where
        "FillBlockLoop read_file ?rd2 = (Inr (), rd')" "same_partial ?rd2 rd'" "reader_at rd' C s"
        "rd_block rd' = take WalBlockSize (drop s C)" by blast
      moreover have "same_partial rd ?rd2"
        using c(2) False by (simp add: AcceptBlockChunk_def same_partial_def)
      ultimately show ?thesis
        using c(1) True False by (subst FillBlockLoop.simps) (auto intro: same_partial_trans)
    qed
  qed
qed

lemma FillBlock_at:
  assumes "reader_at rd C p" "rd_block_position rd = length (rd_block rd)"
  shows "\<exists>rd'. FillBlock read_file rd = (Inr (p < length C), rd') \<and> same_partial rd rd' \<and> reader_at rd' C p"
proof (cases "rd_eof_seen rd")
  case True
  with assms show ?thesis
    by (auto simp: FillBlock_def reader_at_def block_window_def)
next
  case False
  then have "filling (BeginBlock rd) C p" and m: "p mod WalBlockSize = 0"
    using assms by (auto simp: filling_def BeginBlock_def reader_at_def block_window_def wal_sizes)
  from filling_FillBlockLoop [OF this] obtain rd' where rd':
    "FillBlockLoop read_file (BeginBlock rd) = (Inr (), rd')" "same_partial (BeginBlock rd) rd'"
    "reader_at rd' C p" "rd_block rd' = take WalBlockSize (drop p C)" by blast
  moreover have "rd_block rd' \<noteq> [] \<longleftrightarrow> p < length C"
    using rd'(4) by (auto simp: wal_sizes)
  ultimately show ?thesis
    using False by (auto simp: FillBlock_def same_partial_def BeginBlock_def)
qed

text \<open>The block that holds position \<open>p\<close>: what is left of it, and that its end is known to be the end
  of the file when it is short.\<close>

lemma EnsureBlock_at:
  assumes "reader_at rd C p" "p < length C"
  obtains rd1 where "EnsureBlock read_file rd = (Inr True, rd1)" "same_partial rd rd1" "reader_at rd1 C p"
    "rd_block_position rd1 = p mod WalBlockSize"
    "length (rd_block rd1) - p mod WalBlockSize = min (length C - p) (WalBlockSize - p mod WalBlockSize)"
    "drop (p mod WalBlockSize) (rd_block rd1) = take (WalBlockSize - p mod WalBlockSize) (drop p C)"
    "rd_eof_seen rd1 \<longleftrightarrow> length C - p < WalBlockSize - p mod WalBlockSize"
    "p mod WalBlockSize < length (rd_block rd1)"
    "rd_block_start_offset rd1 = p - p mod WalBlockSize"
proof -
  obtain rd1 where e: "EnsureBlock read_file rd = (Inr True, rd1)" "same_partial rd rd1" "reader_at rd1 C p"
      "rd_block_position rd1 \<noteq> length (rd_block rd1)"
  proof (cases "rd_block_position rd = length (rd_block rd)")
    case True
    from FillBlock_at [OF assms(1) True] assms(2) obtain rd1 where
      f: "FillBlock read_file rd = (Inr True, rd1)" "same_partial rd rd1" "reader_at rd1 C p" by auto
    with True that show thesis
      using EnsureBlock_measure(1) [of read_file rd rd1] by (auto simp: EnsureBlock_def)
  next
    case False
    with assms that show thesis by (auto simp: EnsureBlock_def)
  qed
  let ?s = "rd_block_start_offset rd1" and ?b = "rd_block rd1" and ?q = "rd_block_position rd1"
  have w: "?b = take (length ?b) (drop ?s C)" "?s mod WalBlockSize = 0" "?q < length ?b" "p = ?s + ?q"
    "?s + length ?b \<le> length C" "length ?b \<le> WalBlockSize"
    "if rd_eof_seen rd1 then ?s + length ?b = length C \<and> length ?b < WalBlockSize
     else length ?b = WalBlockSize"
    using e(3,4) by (auto simp: reader_at_def block_window_def wal_sizes split: if_splits)
  have q: "p mod WalBlockSize = ?q"
    using w(2,3,4,6) by (simp add: mod_add_left_eq [symmetric])
  have "drop ?q ?b = take (length ?b - ?q) (drop p C)"
    by (subst w(1)) (simp add: w(4) drop_take add.commute)
  also have "\<dots> = take (WalBlockSize - ?q) (drop p C)"
    using w by (cases "rd_eof_seen rd1") auto
  finally have d: "drop ?q ?b = take (WalBlockSize - ?q) (drop p C)" .
  have len: "length ?b - ?q = min (length C - p) (WalBlockSize - ?q)"
    using w by (cases "rd_eof_seen rd1") auto
  have eof: "rd_eof_seen rd1 \<longleftrightarrow> length C - p < WalBlockSize - ?q"
    using w by (cases "rd_eof_seen rd1") auto
  show thesis
    by (rule that [OF e(1-3)]) (use d len eof w(3) in \<open>simp_all add: q\<close>, use w(4) in simp)
qed

lemma ReadPhysical_end:
  assumes "reader_at rd C p" "p = length C"
  shows "\<exists>rd'. ReadPhysical read_file E rd = (Inr None, rd') \<and> same_partial rd rd' \<and> reader_at rd' C p"
proof -
  have "rd_block_position rd = length (rd_block rd)"
    using assms by (auto simp: reader_at_def block_window_def)
  from FillBlock_at [OF assms(1) this] assms(2) this show ?thesis
    by (subst ReadPhysical.simps) (auto simp: EnsureBlock_def)
qed

text \<open>Fewer than seven bytes before the end of the block are skipped.\<close>

lemma ReadPhysical_skip:
  assumes "reader_at rd C p" "p < length C"
    and "min (length C - p) (WalBlockSize - p mod WalBlockSize) < WalHeaderSize"
  shows "\<exists>rd'. ReadPhysical read_file E rd = ReadPhysical read_file E rd' \<and> same_partial rd rd' \<and>
    reader_at rd' C (p + min (length C - p) (WalBlockSize - p mod WalBlockSize))"
proof -
  obtain rd1 where e: "EnsureBlock read_file rd = (Inr True, rd1)" "same_partial rd rd1" "reader_at rd1 C p"
    "rd_block_position rd1 = p mod WalBlockSize"
    "length (rd_block rd1) - p mod WalBlockSize = min (length C - p) (WalBlockSize - p mod WalBlockSize)"
    "p mod WalBlockSize < length (rd_block rd1)"
    using EnsureBlock_at [OF assms(1,2)] by metis
  let ?rd2 = "rd1\<lparr>rd_block_position := length (rd_block rd1)\<rparr>"
  have "ReadPhysical read_file E rd = ReadPhysical read_file E ?rd2"
    using e assms(3) by (subst ReadPhysical.simps) (simp add: Let_def)
  moreover have "reader_at ?rd2 C (p + min (length C - p) (WalBlockSize - p mod WalBlockSize))"
    using e(3,4,6) unfolding e(5) [symmetric] reader_at_def block_window_def by auto
  moreover have "same_partial rd ?rd2"
    using e(2) by (simp add: same_partial_def)
  ultimately show ?thesis by blast
qed

lemma ReadPhysical_fragment:
  assumes "reader_at rd C p" "drop p C = fragment_image E t data @ rest" "IsFragmentType t"
    and fits: "p mod WalBlockSize + WalHeaderSize + length data \<le> WalBlockSize"
  shows "\<exists>rd'. ReadPhysical read_file E rd = (Inr (Some (PhysicalFragment t data p (p mod WalBlockSize))), rd') \<and>
    same_partial rd rd' \<and> reader_at rd' C (p + length (fragment_image E t data))"
proof -
  have len: "length C - p = 7 + length data + length rest"
    using arg_cong [OF assms(2), of length] by (simp add: fragment_image_def)
  then have "p < length C" by simp
  then obtain rd1 where e: "EnsureBlock read_file rd = (Inr True, rd1)" "same_partial rd rd1" "reader_at rd1 C p"
    "rd_block_position rd1 = p mod WalBlockSize"
    "length (rd_block rd1) - p mod WalBlockSize = min (length C - p) (WalBlockSize - p mod WalBlockSize)"
    "drop (p mod WalBlockSize) (rd_block rd1) = take (WalBlockSize - p mod WalBlockSize) (drop p C)"
    "rd_block_start_offset rd1 = p - p mod WalBlockSize"
    using EnsureBlock_at [OF assms(1)] by metis
  have rem: "7 + length data \<le> length (rd_block rd1) - p mod WalBlockSize"
    using fits len unfolding e(5) by (simp add: wal_sizes)
  define rest' where "rest' = take (WalBlockSize - p mod WalBlockSize - (7 + length data)) rest"
  have enc: "drop (p mod WalBlockSize) (rd_block rd1) =
      EncodeHeader E t data (Crc32c E [WalRecordType_byte t]) @ data @ rest'"
    using fits unfolding e(6) assms(2) by (simp add: fragment_image_def rest'_def wal_sizes)
  have cap: "length data \<le> MaximumWalPayload"
    using fits by (simp add: wal_sizes)
  have dec: "DecodeWalFragment E (take (length (rd_block rd1) - p mod WalBlockSize)
      (drop (p mod WalBlockSize) (rd_block rd1))) True =
      Inr \<lparr>wdo_kind = FragmentKind, wdo_type = t, wdo_payload = data, wdo_encoded_size = 7 + length data\<rparr>"
  proof -
    have "take (length (rd_block rd1) - p mod WalBlockSize) (drop (p mod WalBlockSize) (rd_block rd1)) =
        drop (p mod WalBlockSize) (rd_block rd1)" by simp
    then show ?thesis
      by (simp only: enc DecodeWalFragment_EncodeHeader [OF assms(3) cap refl])
  qed
  let ?rd2 = "rd1\<lparr>rd_block_position := p mod WalBlockSize + (7 + length data)\<rparr>"
  have "p - p mod WalBlockSize + p mod WalBlockSize = p" by simp
  then have "ReadPhysical read_file E rd = (Inr (Some (PhysicalFragment t data p (p mod WalBlockSize))), ?rd2)"
    using e(1,4,7) rem dec
    by (subst ReadPhysical.simps) (simp add: Let_def DecodePhysical_def WalHeaderSize_def)
  moreover have "reader_at ?rd2 C (p + length (fragment_image E t data))"
    using e(3,4) rem by (auto simp: reader_at_def block_window_def fragment_image_def)
  moreover have "same_partial rd ?rd2"
    using e(2) by (simp add: same_partial_def)
  ultimately show ?thesis by blast
qed

text \<open>A fragment cut off by the end of the file ends the log.\<close>

lemma DecodeWalFragment_truncated:
  assumes "7 \<le> n" "n < length (fragment_image E t data)" "length data \<le> MaximumWalPayload"
  shows "DecodeWalFragment E (take n (fragment_image E t data)) verify =
    Inl (DecodeFailure TruncatedPayload DropBlock ''WAL physical record has a truncated payload'' 0)"
proof -
  let ?enc = "take n (fragment_image E t data)"
  have "?enc = EncodeHeader E t data (Crc32c E [WalRecordType_byte t]) @ take (n - 7) data"
    using assms(1) by (simp add: fragment_image_def)
  then have "?enc ! 4 = of_nat (length data AND 0xff)" "?enc ! 5 = of_nat (drop_bit 8 (length data) AND 0xff)"
    by (simp_all add: EncodeHeader_def Let_def nth_append)
  then have "unat (?enc ! 4) OR push_bit 8 (unat (?enc ! 5)) = length data"
    using assms(3) by (simp only:, intro length_bytes_split) (simp add: wal_sizes)
  then show ?thesis
    using assms by (simp add: DecodeWalFragment_def ReadWalPayloadSize_def fragment_image_def Let_def wal_sizes)
qed

lemma ReadPhysical_truncated:
  assumes "reader_at rd C p" "drop p C = take n (fragment_image E t data)" "n < length (fragment_image E t data)"
    and p: "p \<le> length C" and fits: "p mod WalBlockSize + WalHeaderSize + length data \<le> WalBlockSize"
  shows "\<exists>rd'. ReadPhysical read_file E rd = (Inr None, rd') \<and> same_partial rd rd' \<and> reader_at rd' C (length C)"
proof -
  have len: "length C - p = n"
    using arg_cong [OF assms(2), of length] assms(3) by simp
  have frag: "length (fragment_image E t data) = 7 + length data"
    by (simp add: fragment_image_def)
  have short: "length C - p < WalBlockSize - p mod WalBlockSize"
    using len assms(3) fits frag by (simp add: wal_sizes)
  consider "n = 0" | "0 < n" "n < 7" | "7 \<le> n" by linarith
  then show ?thesis
  proof cases
    case 1
    with len p have "p = length C" by simp
    with ReadPhysical_end [OF assms(1)] show ?thesis by blast
  next
    case 2
    have "p < length C" "min (length C - p) (WalBlockSize - p mod WalBlockSize) = n"
      using 2 len short by simp_all
    with ReadPhysical_skip [OF assms(1)] 2 obtain rd1 where rd1:
      "ReadPhysical read_file E rd = ReadPhysical read_file E rd1" "same_partial rd rd1"
      "reader_at rd1 C (p + n)" by (metis WalHeaderSize_def)
    moreover have "p + n = length C" using len p by simp
    ultimately show ?thesis
      using ReadPhysical_end [of rd1 C "length C" E] by (metis same_partial_trans)
  next
    case 3
    then have "p < length C" using len by simp
    with EnsureBlock_at [OF assms(1)] obtain rd1 where e: "EnsureBlock read_file rd = (Inr True, rd1)"
      "same_partial rd rd1" "reader_at rd1 C p" "rd_block_position rd1 = p mod WalBlockSize"
      "length (rd_block rd1) - p mod WalBlockSize = min (length C - p) (WalBlockSize - p mod WalBlockSize)"
      "drop (p mod WalBlockSize) (rd_block rd1) = take (WalBlockSize - p mod WalBlockSize) (drop p C)"
      "rd_eof_seen rd1 \<longleftrightarrow> length C - p < WalBlockSize - p mod WalBlockSize"
      "p mod WalBlockSize < length (rd_block rd1)" by metis
    have r: "length (rd_block rd1) - p mod WalBlockSize = n"
      using e(5) len short by simp
    have "take n (drop (p mod WalBlockSize) (rd_block rd1)) = take n (fragment_image E t data)"
      unfolding e(6) assms(2) using short len by simp
    moreover have "length data \<le> MaximumWalPayload" using fits by (simp add: wal_sizes)
    ultimately have dec: "DecodeWalFragment E (take n (drop (p mod WalBlockSize) (rd_block rd1))) True =
        Inl (DecodeFailure TruncatedPayload DropBlock ''WAL physical record has a truncated payload'' 0)"
      using DecodeWalFragment_truncated 3 assms(3) by metis
    let ?rd2 = "rd1\<lparr>rd_block_position := p mod WalBlockSize + n\<rparr>"
    have "ReadPhysical read_file E rd = ReadPhysical read_file E ?rd2"
      using e(1,4,7) r dec 3 short
      by (subst ReadPhysical.simps)
        (simp add: Let_def DecodePhysical_def RecoverPhysicalFailure_def DecodeFailure_def WalHeaderSize_def)
    moreover have "reader_at ?rd2 C (length C)"
      using e(3,4,8) r len p by (auto simp: reader_at_def block_window_def)
    moreover have "same_partial rd ?rd2" using e(2) by (simp add: same_partial_def)
    ultimately show ?thesis
      using ReadPhysical_end [of ?rd2 C "length C" E] by (metis same_partial_trans)
  qed
qed

lemma reader_at_ClearPartial [simp]: "reader_at (ClearPartial rd) C p \<longleftrightarrow> reader_at rd C p"
  by (simp add: reader_at_def block_window_def ClearPartial_def)

lemma reader_at_le: "reader_at rd C p \<Longrightarrow> p \<le> length C"
  by (auto simp: reader_at_def block_window_def)

lemma ReadPhysical_padding:
  assumes "reader_at rd C p" "drop p C = replicate (fst (TakePadding (p mod WalBlockSize))) 0 @ rest"
  shows "\<exists>rd'. ReadPhysical read_file E rd = ReadPhysical read_file E rd' \<and> same_partial rd rd' \<and>
    reader_at rd' C (p + fst (TakePadding (p mod WalBlockSize)))"
proof -
  have "p mod WalBlockSize < WalBlockSize" by (simp add: wal_sizes)
  from TakePadding_cases [OF this] show ?thesis
  proof
    assume pad: "0 < fst (TakePadding (p mod WalBlockSize)) \<and>
      fst (TakePadding (p mod WalBlockSize)) = WalBlockSize - p mod WalBlockSize \<and>
      snd (TakePadding (p mod WalBlockSize)) = 0 \<and> WalBlockSize - p mod WalBlockSize < WalHeaderSize"
    have "length C - p = fst (TakePadding (p mod WalBlockSize)) + length rest"
      using arg_cong [OF assms(2), of length] by simp
    with pad have "p < length C" "min (length C - p) (WalBlockSize - p mod WalBlockSize) = WalBlockSize - p mod WalBlockSize"
      by linarith+
    with ReadPhysical_skip [OF assms(1), of E] pad show ?thesis by metis
  qed (use assms(1) in auto)
qed

lemma ReadNextLoop_record:
  assumes "reader_at rd C p" "drop p C = record_image E (p mod WalBlockSize) begins data @ rest"
    "rd_in_fragmented_record rd \<longleftrightarrow> \<not> begins"
  shows "\<exists>rd'. ReadNextLoop read_file E rd =
      Some (Inr (Some (if begins then WalLogicalRecord data (p + fst (TakePadding (p mod WalBlockSize)))
        else WalLogicalRecord (rd_scratch rd @ data) (rd_partial_record_offset rd))), rd') \<and>
    reader_at rd' C (p + length (record_image E (p mod WalBlockSize) begins data)) \<and>
    \<not> rd_in_fragmented_record rd'"
  using assms
proof (induction E "p mod WalBlockSize" begins data arbitrary: p rd rule: record_image.induct)
  case (1 E begins data)
  let ?pad = "fst (TakePadding (p mod WalBlockSize))" and ?o = "snd (TakePadding (p mod WalBlockSize))"
  define n where "n = min (length data) (WalBlockSize - ?o - WalHeaderSize)"
  define ends where "ends \<longleftrightarrow> n = length data"
  let ?t = "SelectFragmentType begins ends"
  define more_image where "more_image = (if ends then [] else record_image E 0 False (drop n data))"
  have img: "record_image E (p mod WalBlockSize) begins data =
      replicate ?pad 0 @ fragment_image E ?t (take n data) @ more_image"
    by (subst record_image.simps) (simp add: Let_def n_def ends_def more_image_def)
  let ?p1 = "p + ?pad"
  have d: "drop p C = replicate ?pad 0 @ (fragment_image E ?t (take n data) @ more_image @ rest)"
    using 1(3) by (simp add: img)
  obtain rd1 where rd1: "ReadPhysical read_file E rd = ReadPhysical read_file E rd1" "same_partial rd rd1"
      "reader_at rd1 C ?p1"
    using ReadPhysical_padding [OF 1(2) d] by blast
  have d1: "drop ?p1 C = fragment_image E ?t (take n data) @ more_image @ rest"
    using drop_append_eq [OF d] by simp
  have "?p1 mod WalBlockSize + WalHeaderSize + length (take n data) \<le> WalBlockSize"
    using record_fragment_fits [of "length (take n data)" p] by (simp add: n_def)
  from ReadPhysical_fragment [OF rd1(3) d1 SelectFragmentType_valid this] obtain rd2 where
    rd2: "ReadPhysical read_file E rd = (Inr (Some (PhysicalFragment ?t (take n data) ?p1 (?p1 mod WalBlockSize))), rd2)"
      "same_partial rd rd2" "reader_at rd2 C (?p1 + length (fragment_image E ?t (take n data)))"
    using same_partial_trans [OF rd1(2)] unfolding rd1(1) by blast
  have clean: "rd_in_fragmented_record rd2 \<longleftrightarrow> \<not> begins" "rd_scratch rd2 = rd_scratch rd"
    "rd_partial_record_offset rd2 = rd_partial_record_offset rd"
    using rd2(2) 1(4) by (simp_all add: same_partial_def)
  have upd: "reader_at (rd2\<lparr>rd_scratch := a, rd_partial_record_offset := b, rd_in_fragmented_record := c\<rparr>) C
      (?p1 + length (fragment_image E ?t (take n data)))" for a b c
    using rd2(3) by (simp add: reader_at_def block_window_def)
  show ?case
  proof (cases ends)
    case True
    then have tk: "take n data = data" "more_image = []" by (simp_all add: ends_def more_image_def)
    let ?rd3 = "if begins then ClearPartial rd2
      else rd2\<lparr>rd_scratch := rd_scratch rd2 @ data, rd_in_fragmented_record := False\<rparr>"
    have "ReadNextLoop read_file E rd =
      Some (Inr (Some (if begins then WalLogicalRecord data ?p1
        else WalLogicalRecord (rd_scratch rd @ data) (rd_partial_record_offset rd))), ?rd3)"
      using rd2(1) True tk clean
      by (subst ReadNextLoop.simps) (auto simp: SelectFragmentType_def ConsumeFragment_def ConsumeFull_def
          ConsumeContinuation_def HasPartialPayload_def)
    moreover have "reader_at ?rd3 C (p + length (record_image E (p mod WalBlockSize) begins data))"
      using rd2(3) unfolding img tk by (simp add: reader_at_def block_window_def ClearPartial_def add.assoc)
    moreover have "\<not> rd_in_fragmented_record ?rd3" by (simp add: ClearPartial_def)
    ultimately show ?thesis by blast
  next
    case False
    let ?p2 = "?p1 + length (fragment_image E ?t (take n data))"
    let ?rd3 = "rd2\<lparr>rd_scratch := (if begins then [] else rd_scratch rd) @ take n data,
      rd_partial_record_offset := (if begins then ?p1 else rd_partial_record_offset rd),
      rd_in_fragmented_record := True\<rparr>"
    have n: "n = WalBlockSize - ?o - WalHeaderSize" "length (take n data) = n"
      using False by (auto simp: ends_def n_def)
    have "?o + WalHeaderSize \<le> WalBlockSize"
      using TakePadding_cases [of "p mod WalBlockSize"] by (auto simp: wal_sizes)
    then have len: "?o + length (fragment_image E ?t (take n data)) = WalBlockSize"
      using n by (simp add: fragment_image_def wal_sizes)
    have m2: "?p2 mod WalBlockSize = 0"
      by (subst mod_add_left_eq [symmetric]) (simp add: TakePadding_mod len)
    have d2: "drop ?p2 C = record_image E 0 False (drop n data) @ rest"
      using drop_append_eq [OF d1] False by (simp add: more_image_def)
    have step: "ReadNextLoop read_file E rd = ReadNextLoop read_file E ?rd3"
      using rd2(1) False clean
      by (subst ReadNextLoop.simps) (auto simp: SelectFragmentType_def ConsumeFragment_def ConsumeFirst_def
          ConsumeContinuation_def HasPartialPayload_def intro!: arg_cong [where f = "ReadNextLoop read_file E"])
    have "\<exists>rd'. ReadNextLoop read_file E ?rd3 =
        Some (Inr (Some (WalLogicalRecord (rd_scratch ?rd3 @ drop n data) (rd_partial_record_offset ?rd3))), rd') \<and>
        reader_at rd' C (?p2 + length (record_image E 0 False (drop n data))) \<and> \<not> rd_in_fragmented_record rd'"
    proof -
      have e: "\<not> min (length data) (WalBlockSize - ?o - WalHeaderSize) = length data"
        using False by (simp add: ends_def n_def)
      have at3: "reader_at ?rd3 C ?p2" by (rule upd)
      have d3: "drop ?p2 C = record_image E (?p2 mod WalBlockSize) False
          (drop (min (length data) (WalBlockSize - ?o - WalHeaderSize)) data) @ rest"
        by (subst m2) (simp only: d2 flip: n_def)
      have fr: "rd_in_fragmented_record ?rd3 \<longleftrightarrow> \<not> False" by simp
      from 1(1) [OF refl refl refl refl e m2 [symmetric] at3 d3 fr] show ?thesis
        by (simp only: m2 if_False flip: n_def)
    qed
    moreover have "p + length (record_image E (p mod WalBlockSize) begins data) =
        ?p2 + length (record_image E 0 False (drop n data))"
      unfolding img using False by (simp add: more_image_def)
    ultimately show ?thesis
      unfolding step by (cases begins) (auto simp: add.assoc)
  qed
qed

text \<open>A record that is cut off anywhere ends the log: an incomplete record is never reported.\<close>

lemma ReadNextLoop_truncated:
  assumes "reader_at rd C p" "drop p C = take n (record_image E (p mod WalBlockSize) begins data)"
    "n < length (record_image E (p mod WalBlockSize) begins data)"
    "rd_in_fragmented_record rd \<longleftrightarrow> \<not> begins"
  shows "\<exists>rd'. ReadNextLoop read_file E rd = Some (Inr None, rd') \<and>
    reader_at rd' C (length C) \<and> \<not> rd_in_fragmented_record rd'"
  using assms
proof (induction E "p mod WalBlockSize" begins data arbitrary: p rd n rule: record_image.induct)
  case (1 E begins data)
  let ?pad = "fst (TakePadding (p mod WalBlockSize))" and ?o = "snd (TakePadding (p mod WalBlockSize))"
  define m where "m = min (length data) (WalBlockSize - ?o - WalHeaderSize)"
  define ends where "ends \<longleftrightarrow> m = length data"
  let ?t = "SelectFragmentType begins ends"
  let ?frag = "fragment_image E ?t (take m data)"
  define more_image where "more_image = (if ends then [] else record_image E 0 False (drop m data))"
  have img: "record_image E (p mod WalBlockSize) begins data = replicate ?pad 0 @ ?frag @ more_image"
    by (subst record_image.simps) (simp add: Let_def m_def ends_def more_image_def)
  have len: "length C - p = n"
    using arg_cong [OF 1(3), of length] 1(4) by simp
  have p: "p \<le> length C" by (rule reader_at_le [OF 1(2)])
  have finish: "ReadNextLoop read_file E rd = Some (Inr None, ClearPartial rd')"
      "reader_at (ClearPartial rd') C (length C)" "\<not> rd_in_fragmented_record (ClearPartial rd')"
    if "ReadPhysical read_file E rd = (Inr None, rd')" "reader_at rd' C (length C)" for rd'
    using that by (simp_all add: ReadNextLoop.simps [of read_file E rd])
      (simp_all add: ClearPartial_def)
  show ?case
  proof (cases "n < ?pad")
    case True
    have "ReadPhysical read_file E rd = (Inr None, rd') \<Longrightarrow> reader_at rd' C (length C) \<Longrightarrow> ?thesis" for rd'
      using finish by blast
    moreover have "\<exists>rd'. ReadPhysical read_file E rd = (Inr None, rd') \<and> reader_at rd' C (length C)"
    proof (cases "n = 0")
      case True
      with len p have "p = length C" by simp
      with ReadPhysical_end [OF 1(2), of E] show ?thesis by blast
    next
      case False
      have "?pad = WalBlockSize - p mod WalBlockSize \<and> ?pad < WalHeaderSize"
        using \<open>n < ?pad\<close> TakePadding_cases [of "p mod WalBlockSize"] by (auto simp: wal_sizes)
      with \<open>n < ?pad\<close> len have "min (length C - p) (WalBlockSize - p mod WalBlockSize) = n" "n < WalHeaderSize"
        by linarith+
      with ReadPhysical_skip [OF 1(2), of E] len False p obtain rd1 where
        "ReadPhysical read_file E rd = ReadPhysical read_file E rd1" "reader_at rd1 C (length C)"
        by (metis le_add_diff_inverse zero_less_diff neq0_conv)
      with ReadPhysical_end [of rd1 C "length C" E] show ?thesis by metis
    qed
    ultimately show ?thesis by blast
  next
    case False
    define n1 where "n1 = n - ?pad"
    have d: "drop p C = replicate ?pad 0 @ take n1 (?frag @ more_image)"
      using 1(3) False unfolding img by (simp add: n1_def)
    let ?p1 = "p + ?pad"
    obtain rd1 where rd1: "ReadPhysical read_file E rd = ReadPhysical read_file E rd1" "same_partial rd rd1"
        "reader_at rd1 C ?p1"
      using ReadPhysical_padding [OF 1(2) d] by blast
    have d1: "drop ?p1 C = take n1 (?frag @ more_image)"
      using drop_append_eq [OF d] by simp
    have fits: "?p1 mod WalBlockSize + WalHeaderSize + length (take m data) \<le> WalBlockSize"
      using record_fragment_fits [of "length (take m data)" p] by (simp add: m_def)
    show ?thesis
    proof (cases "n1 < length ?frag")
      case True
      then have "drop ?p1 C = take n1 ?frag" using d1 by simp
      from ReadPhysical_truncated [OF rd1(3) this True reader_at_le [OF rd1(3)] fits] rd1(1) finish
      show ?thesis by metis
    next
      case complete: False
      have "\<not> ends"
        using 1(4) False complete unfolding img by (auto simp: n1_def more_image_def)
      have d1': "drop ?p1 C = ?frag @ take (n1 - length ?frag) more_image"
        using d1 complete by simp
      from ReadPhysical_fragment [OF rd1(3) d1' SelectFragmentType_valid fits] obtain rd2 where
        rd2: "ReadPhysical read_file E rd = (Inr (Some (PhysicalFragment ?t (take m data) ?p1 (?p1 mod WalBlockSize))), rd2)"
          "same_partial rd rd2" "reader_at rd2 C (?p1 + length ?frag)"
        using same_partial_trans [OF rd1(2)] unfolding rd1(1) by blast
      have clean: "rd_in_fragmented_record rd2 \<longleftrightarrow> \<not> begins"
        using rd2(2) 1(5) by (simp add: same_partial_def)
      let ?p2 = "?p1 + length ?frag"
      let ?rd3 = "rd2\<lparr>rd_scratch := (if begins then [] else rd_scratch rd2) @ take m data,
        rd_partial_record_offset := (if begins then ?p1 else rd_partial_record_offset rd2),
        rd_in_fragmented_record := True\<rparr>"
      have step: "ReadNextLoop read_file E rd = ReadNextLoop read_file E ?rd3"
        using rd2(1) \<open>\<not> ends\<close> clean
        by (subst ReadNextLoop.simps) (auto simp: SelectFragmentType_def ConsumeFragment_def ConsumeFirst_def
            ConsumeContinuation_def HasPartialPayload_def intro!: arg_cong [where f = "ReadNextLoop read_file E"])
      have m: "m = WalBlockSize - ?o - WalHeaderSize" "length (take m data) = m"
        using \<open>\<not> ends\<close> by (auto simp: ends_def m_def)
      have "?o + WalHeaderSize \<le> WalBlockSize"
        using TakePadding_cases [of "p mod WalBlockSize"] by (auto simp: wal_sizes)
      then have flen: "?o + length ?frag = WalBlockSize"
        using m by (simp add: fragment_image_def wal_sizes)
      have m2: "?p2 mod WalBlockSize = 0"
        by (subst mod_add_left_eq [symmetric]) (simp add: TakePadding_mod flen)
      have e: "\<not> min (length data) (WalBlockSize - ?o - WalHeaderSize) = length data"
        using \<open>\<not> ends\<close> by (simp add: ends_def m_def)
      have at3: "reader_at ?rd3 C ?p2"
        using rd2(3) by (simp add: reader_at_def block_window_def)
      have d3: "drop ?p2 C = take (n1 - length ?frag) (record_image E (?p2 mod WalBlockSize) False
          (drop (min (length data) (WalBlockSize - ?o - WalHeaderSize)) data))"
        by (subst m2) (use drop_append_eq [OF d1'] \<open>\<not> ends\<close> in \<open>simp only: more_image_def if_False flip: m_def\<close>)
      have n3: "n1 - length ?frag < length (record_image E (?p2 mod WalBlockSize) False
          (drop (min (length data) (WalBlockSize - ?o - WalHeaderSize)) data))"
      proof -
        have "n1 - length ?frag < length more_image"
          using 1(4) False complete unfolding img by (simp add: n1_def)
        then show ?thesis
          using \<open>\<not> ends\<close> by (subst m2) (simp only: more_image_def if_False flip: m_def)
      qed
      have fr: "rd_in_fragmented_record ?rd3 \<longleftrightarrow> \<not> False" by simp
      from 1(1) [OF refl refl refl refl e m2 [symmetric] at3 d3 n3 fr] show ?thesis
        unfolding step .
    qed
  qed
qed

lemma ReadNext_at [simp]: "reader_at rd C p \<Longrightarrow> WalReader_ReadNext read_file E rd = ReadNextLoop read_file E rd"
  by (auto simp: WalReader_ReadNext_def reader_at_def block_window_def)

lemma ReadNextLoop_end:
  assumes "reader_at rd C (length C)"
  shows "\<exists>rd'. ReadNextLoop read_file E rd = Some (Inr None, rd') \<and> reader_at rd' C (length C)"
proof -
  from ReadPhysical_end [OF assms refl, of E] obtain rd' where
    "ReadPhysical read_file E rd = (Inr None, rd')" "reader_at rd' C (length C)" by blast
  then show ?thesis by (simp add: ReadNextLoop.simps [of read_file E rd])
qed

lemma ReadEvents_end:
  "reader_at rd C (length C) \<Longrightarrow> ReadEvents read_file E m rd = Some (replicate m (Inr None))"
proof (induction m arbitrary: rd)
  case (Suc m)
  from ReadNextLoop_end [OF Suc.prems, of E] obtain rd' where
    "ReadNextLoop read_file E rd = Some (Inr None, rd')" "reader_at rd' C (length C)" by blast
  with Suc show ?case by simp
qed simp

lemma ReadEvents_log:
  assumes "reader_at rd C p" "drop p C = take n (log_image E p rs)" "\<not> rd_in_fragmented_record rd"
  shows "ReadEvents read_file E m rd =
    Some (event_results m (recovered_events E p rs n))"
  using assms
proof (induction rs arbitrary: rd p n m)
  case Nil
  then have "p = length C" using reader_at_le [OF Nil.prems(1)] by simp
  with Nil.prems ReadEvents_end show ?case by simp
next
  case (Cons r rs)
  let ?img = "record_image E (p mod WalBlockSize) True r"
  show ?case
  proof (cases m)
    case (Suc k)
    show ?thesis
    proof (cases "length ?img \<le> n")
      case True
      then have d: "drop p C = ?img @ take (n - length ?img) (log_image E (p + length ?img) rs)"
        using Cons.prems(2) by (simp add: Let_def)
      from ReadNextLoop_record [OF Cons.prems(1) d] Cons.prems(3) obtain rd' where
        "ReadNextLoop read_file E rd = Some (Inr (Some (WalLogicalRecord r (p + fst (TakePadding (p mod WalBlockSize))))), rd')"
        "reader_at rd' C (p + length ?img)" "\<not> rd_in_fragmented_record rd'" by auto
      with Cons.IH [OF this(2) drop_append_eq [OF d] this(3), of k] Cons.prems(1) True Suc
      show ?thesis by (simp add: Let_def)
    next
      case False
      then have "drop p C = take n ?img" using Cons.prems(2) by (simp add: Let_def)
      from ReadNextLoop_truncated [OF Cons.prems(1) this] False Cons.prems(3) obtain rd' where
        "ReadNextLoop read_file E rd = Some (Inr None, rd')" "reader_at rd' C (length C)" by auto
      with ReadEvents_end Cons.prems(1) False Suc show ?thesis by simp
    qed
  qed simp
qed

text \<open>The zero bytes with which a reopened log finishes its last block are passed over silently.\<close>

lemma ReadNextLoop_zeroes:
  assumes "reader_at rd C p" "drop p C = replicate (WalBlockSize - p mod WalBlockSize) 0 @ rest"
    "p mod WalBlockSize \<noteq> 0" "\<not> rd_in_fragmented_record rd"
  shows "\<exists>rd'. ReadNextLoop read_file E rd = ReadNextLoop read_file E rd' \<and>
    reader_at rd' C (p + (WalBlockSize - p mod WalBlockSize)) \<and> \<not> rd_in_fragmented_record rd'"
proof -
  let ?z = "WalBlockSize - p mod WalBlockSize"
  have z: "0 < ?z" by (simp add: wal_sizes)
  have len: "length C - p = ?z + length rest"
    using arg_cong [OF assms(2), of length] by simp
  then have p: "p < length C" and mn: "min (length C - p) ?z = ?z" using z by linarith+
  show ?thesis
  proof (cases "?z < WalHeaderSize")
    case True
    with ReadPhysical_skip [OF assms(1) p, of E] mn obtain rd1 where
      "ReadPhysical read_file E rd = ReadPhysical read_file E rd1" "same_partial rd rd1" "reader_at rd1 C (p + ?z)"
      by metis
    with ReadNextLoop_cong assms(4) show ?thesis unfolding same_partial_def by metis
  next
    case False
    from EnsureBlock_at [OF assms(1) p] obtain rd1 where e: "EnsureBlock read_file rd = (Inr True, rd1)"
      "same_partial rd rd1" "reader_at rd1 C p" "rd_block_position rd1 = p mod WalBlockSize"
      "length (rd_block rd1) - p mod WalBlockSize = min (length C - p) ?z"
      "drop (p mod WalBlockSize) (rd_block rd1) = take ?z (drop p C)"
      "p mod WalBlockSize < length (rd_block rd1)" "rd_block_start_offset rd1 = p - p mod WalBlockSize" by metis
    have lb: "length (rd_block rd1) - p mod WalBlockSize = ?z" using e(5) mn by simp
    have "take ?z (drop (p mod WalBlockSize) (rd_block rd1)) = replicate ?z 0"
      unfolding e(6) assms(2) by simp
    then have dec: "DecodeWalFragment E (take ?z (drop (p mod WalBlockSize) (rd_block rd1))) True =
        Inr \<lparr>wdo_kind = EndOfBlock, wdo_type = Zero, wdo_payload = [], wdo_encoded_size = 7\<rparr>"
      using DecodeWalFragment_zeroes [of ?z E True] False by (simp only: WalHeaderSize_def not_less)
    let ?rd2 = "rd1\<lparr>rd_block_position := length (rd_block rd1)\<rparr>"
    have "ReadPhysical read_file E rd = (Inr (Some (PhysicalFragment Zero [] p (p mod WalBlockSize))), ?rd2)"
      using e(1,4,8) lb dec False by (subst ReadPhysical.simps) (simp add: Let_def DecodePhysical_def)
    then have "ReadNextLoop read_file E rd = ReadNextLoop read_file E (ClearPartial ?rd2)"
      using e(2) assms(4) by (subst ReadNextLoop.simps)
        (simp add: ConsumeFragment_def ConsumeZero_def HasPartialPayload_def same_partial_def)
    moreover have "reader_at ?rd2 C (p + ?z)"
      using e(3,4,7) unfolding lb [symmetric] reader_at_def block_window_def by auto
    moreover have "\<not> rd_in_fragmented_record (ClearPartial ?rd2)"
      by (simp add: ClearPartial_def)
    ultimately show ?thesis by (metis reader_at_ClearPartial)
  qed
qed

lemma ReadEvents_complete:
  assumes "reader_at rd C p" "drop p C = log_image E p rs @ rest" "\<not> rd_in_fragmented_record rd"
    and tail_events: "\<And>rd' k. reader_at rd' C (p + length (log_image E p rs)) \<Longrightarrow> \<not> rd_in_fragmented_record rd' \<Longrightarrow>
      ReadEvents read_file E k rd' = Some (event_results k evs)"
  shows "ReadEvents read_file E m rd =
    Some (event_results m (recovered_events E p rs (length (log_image E p rs)) @ evs))"
  using assms
proof (induction rs arbitrary: rd p m)
  case (Cons r rs)
  let ?img = "record_image E (p mod WalBlockSize) True r"
  show ?case
  proof (cases m)
    case (Suc k)
    have d: "drop p C = ?img @ log_image E (p + length ?img) rs @ rest"
      using Cons.prems(2) by (simp add: Let_def)
    from ReadNextLoop_record [OF Cons.prems(1) d] Cons.prems(3) obtain rd' where rd':
      "ReadNextLoop read_file E rd = Some (Inr (Some (WalLogicalRecord r (p + fst (TakePadding (p mod WalBlockSize))))), rd')"
      "reader_at rd' C (p + length ?img)" "\<not> rd_in_fragmented_record rd'" by auto
    have "ReadEvents read_file E k rd' = Some (event_results k
        (recovered_events E (p + length ?img) rs (length (log_image E (p + length ?img) rs)) @ evs))"
      by (rule Cons.IH [OF rd'(2) drop_append_eq [OF d] rd'(3)], rule Cons.prems(4))
        (simp_all add: Let_def add.assoc)
    with rd' Cons.prems(1) Suc show ?thesis by (simp add: Let_def)
  qed simp
qed simp

end

end
