(* ===== verification/Wal_Recovery.thy ===== *)
theory Wal_Recovery
  imports Wal_Roundtrip
begin

text \<open>
  The log writer against its contract, and the crash story of the log: whatever the operating system
  does to the writer, the file holds a prefix of the layout of the records added so far, and reading
  such a prefix delivers the complete records and nothing else.
\<close>

section \<open>What the writer appends\<close>

lemma Next_fragment:
  assumes wf: "wf_fragmenter E fragmenter" and live: "\<not> cur_done cursor"
    and off: "off = fr_block_offset fragmenter" and data: "data = cur_remaining cursor"
    and n: "n = min (length data) (WalBlockSize - snd (TakePadding off) - WalHeaderSize)"
    and ends: "ends \<longleftrightarrow> n = length data"
    and frag: "frag = replicate (fst (TakePadding off)) 0 @
      fragment_image E (SelectFragmentType (cur_begin cursor) ends) (take n data)"
  shows "\<exists>fragment fr1.
    Next E fragmenter cursor =
      (Some fragment, fr1, cursor\<lparr>cur_remaining := drop n data, cur_begin := False, cur_done := ends\<rparr>) \<and>
    replicate (frag_padding_before fragment) 0 @ frag_header fragment @ frag_payload fragment = frag \<and>
    wf_fragmenter E fr1 \<and> fr_block_offset fr1 = (off + length frag) mod WalBlockSize"
proof -
  have bound: "off < WalBlockSize" using wf off by (simp add: wf_fragmenter_def)
  let ?o = "snd (TakePadding off)" and ?pad = "fst (TakePadding off)"
  let ?t = "SelectFragmentType (cur_begin cursor) ends"
  have crc: "fr_type_crc fragmenter ! TypeIndex ?t = Crc32c E [WalRecordType_byte ?t]"
    using wf by (simp add: wf_fragmenter_def)
  have "length (take n data) = n" by (simp add: n)
  have "(off + ?pad) mod WalBlockSize = ?o"
    using TakePadding_mod [of off] bound by simp
  moreover have "off + length frag = (off + ?pad) + (WalHeaderSize + n)"
    using \<open>length (take n data) = n\<close> by (simp add: frag fragment_image_def WalHeaderSize_def)
  ultimately have pos: "(?o + WalHeaderSize + n) mod WalBlockSize = (off + length frag) mod WalBlockSize"
    by (metis add.assoc mod_add_left_eq)
  let ?fragment = "BuildWalFragment E ?pad ?t (take n data) (Crc32c E [WalRecordType_byte ?t])"
  let ?fr1 = "fragmenter\<lparr>fr_block_offset := (?o + WalHeaderSize + n) mod WalBlockSize\<rparr>"
  have "Next E fragmenter cursor =
      (Some ?fragment, ?fr1, cursor\<lparr>cur_remaining := drop n data, cur_begin := False, cur_done := ends\<rparr>)"
    using live crc by (simp add: Next_def Let_def case_prod_beta FragmentPayloadSize_def Advance_def
        off [symmetric] data [symmetric] n [symmetric] ends [symmetric] del: diff_diff_left)
  moreover have "wf_fragmenter E ?fr1"
    using wf by (simp add: wf_fragmenter_def wal_sizes)
  moreover have "replicate (frag_padding_before ?fragment) 0 @ frag_header ?fragment @ frag_payload ?fragment = frag"
    by (simp add: BuildWalFragment_def frag fragment_image_def)
  moreover have "fr_block_offset ?fr1 = (off + length frag) mod WalBlockSize"
    by (simp add: pos)
  ultimately show ?thesis by blast
qed

lemma fragment_fills_block:
  assumes "off < WalBlockSize" "n = min (length data) (WalBlockSize - snd (TakePadding off) - WalHeaderSize)"
    "n \<noteq> length data"
  shows "(off + length (replicate (fst (TakePadding off)) 0 @ fragment_image E t (take n data))) mod WalBlockSize = 0"
proof -
  have "length (take n data) = WalBlockSize - snd (TakePadding off) - WalHeaderSize"
    using assms(2,3) by auto
  then show ?thesis
    using TakePadding_cases [OF assms(1)] assms(1)
    by (auto simp: fragment_image_def wal_sizes)
qed

text \<open>The state of a writer whose file has \<open>n\<close> bytes, and the bytes that precede its next record.\<close>

definition writer_at :: "crc_extend \<Rightarrow> 'w WalWriter \<Rightarrow> nat \<Rightarrow> bool" where
  "writer_at E w n \<longleftrightarrow>
     wf_fragmenter E (ww_fragmenter w) \<and>
     fr_block_offset (ww_fragmenter w) = (n + ww_reopen_padding w) mod WalBlockSize"

definition reopen_padding :: "nat \<Rightarrow> nat" where
  "reopen_padding n = (if n mod WalBlockSize = 0 then 0 else WalBlockSize - n mod WalBlockSize)"

lemma reopen_padding_boundary: "(n + reopen_padding n) mod WalBlockSize = 0"
proof (cases "n mod WalBlockSize = 0")
  case False
  have "n mod WalBlockSize < WalBlockSize" by (simp add: wal_sizes)
  then have "(n mod WalBlockSize + (WalBlockSize - n mod WalBlockSize)) mod WalBlockSize = 0" by simp
  then show ?thesis
    using False by (simp only: reopen_padding_def mod_add_left_eq if_False)
qed (simp add: reopen_padding_def)

lemma writer_at_New: "writer_at E (WalWriter_New E f n) n \<and> ww_reopen_padding (WalWriter_New E f n) = reopen_padding n"
proof -
  have "ww_reopen_padding (WalWriter_New E f n) = reopen_padding n"
    by (auto simp: WalWriter_New_def reopen_padding_def Let_def)
  then show ?thesis
    using wf_fragmenter_New [of E 0] reopen_padding_boundary [of n]
    by (simp add: writer_at_def WalWriter_New_def WalFragmenter_New_def Let_def)
qed

lemma ww_file_New [simp]: "ww_file (WalWriter_New E f n) = f"
  by (simp add: WalWriter_New_def Let_def)

text \<open>Adding records until one fails.\<close>

fun AddRecords ::
  "crc_extend \<Rightarrow> ('w \<Rightarrow> bytes \<Rightarrow> status \<times> 'w) \<Rightarrow> ('w \<Rightarrow> status \<times> 'w) \<Rightarrow>
   'w WalWriter \<Rightarrow> bytes list \<Rightarrow> status \<times> 'w WalWriter" where
  "AddRecords E append_file flush_file w [] = (Inr (), w)"
| "AddRecords E append_file flush_file w (r # rs) =
     (case WalWriter_AddRecord E append_file flush_file w r of
        (Inl e, w') \<Rightarrow> (Inl e, w')
      | (Inr _, w') \<Rightarrow> AddRecords E append_file flush_file w' rs)"

context writable_file
begin

definition appended :: "'f \<Rightarrow> bytes \<Rightarrow> status \<Rightarrow> 'f \<Rightarrow> bool" where
  "appended f bs r f' \<longleftrightarrow>
     valid f' \<and> prefix (written f) (written f') \<and> prefix (written f') (accepted f @ bs) \<and>
     durable f' = durable f \<and> (r = Inr () \<longrightarrow> accepted f' = accepted f @ bs)"

lemma appended_append: "append_file f bs = (r, f') \<Longrightarrow> valid f \<Longrightarrow> appended f bs r f'"
  using append_valid append_ok append_grows append_stream append_durable
  by (auto simp: appended_def)

lemma appended_Nil: "valid f \<Longrightarrow> appended f [] r f"
  using written_accepted by (simp add: appended_def)

lemma appended_trans:
  "appended f a (Inr ()) f1 \<Longrightarrow> appended f1 b r f2 \<Longrightarrow> appended f (a @ b) r f2"
  by (auto simp: appended_def intro: prefix_order.trans)

lemma appended_failed: "appended f a (Inl e) f1 \<Longrightarrow> appended f (a @ b) (Inl e) f1"
  by (auto simp: appended_def simp flip: append_assoc intro: prefix_prefix)

lemma appended_bind:
  assumes "appended f a r f1" "\<And>u. r = Inr u \<Longrightarrow> appended f1 b r' f2"
    and "\<And>e. r = Inl e \<Longrightarrow> r' = Inl e \<and> f2 = f1"
  shows "appended f (a @ b) r' f2"
proof (cases r)
  case (Inl e)
  with assms show ?thesis using appended_failed by metis
next
  case (Inr u)
  with assms show ?thesis using appended_trans by simp
qed

lemma AppendFragment_appended:
  assumes "AppendFragment append_file f fragment = (r, f')" "valid f"
  shows "appended f (replicate (frag_padding_before fragment) 0 @ frag_header fragment @ frag_payload fragment) r f'"
proof -
  obtain r1 f1 where p: "(if frag_padding_before fragment \<noteq> 0
      then AppendPadding append_file f (frag_padding_before fragment) else (Inr (), f)) = (r1, f1)" by fastforce
  have a1: "appended f (replicate (frag_padding_before fragment) 0) r1 f1"
    using p assms(2) appended_append appended_Nil by (auto simp: AppendPadding_def split: if_splits)
  then have v1: "valid f1" by (simp add: appended_def)
  show ?thesis
  proof (rule appended_bind [OF a1])
    fix e assume "r1 = Inl e"
    then show "r = Inl e \<and> f' = f1" using assms(1) p by (simp add: AppendFragment_def)
  next
    fix u assume r1: "r1 = Inr u"
    obtain r2 f2 where h: "append_file f1 (frag_header fragment) = (r2, f2)" by fastforce
    then have a2: "appended f1 (frag_header fragment) r2 f2" using v1 by (rule appended_append)
    then have v2: "valid f2" by (simp add: appended_def)
    show "appended f1 (frag_header fragment @ frag_payload fragment) r f'"
    proof (rule appended_bind [OF a2])
      fix e assume "r2 = Inl e"
      then show "r = Inl e \<and> f' = f2" using assms(1) p r1 h by (simp add: AppendFragment_def)
    next
      fix u assume "r2 = Inr u"
      then have "(if frag_payload fragment \<noteq> [] then append_file f2 (frag_payload fragment) else (Inr (), f2)) = (r, f')"
        using assms(1) p r1 h by (simp add: AppendFragment_def)
      then show "appended f2 (frag_payload fragment) r f'"
        using v2 appended_append appended_Nil by (auto split: if_splits)
    qed
  qed
qed

lemma AddFragments_appended:
  assumes "AddFragments E append_file fragmenter cursor f = (r, fragmenter', f')" "valid f"
    "wf_fragmenter E fragmenter" "\<not> cur_done cursor"
  shows "appended f (record_image E (fr_block_offset fragmenter) (cur_begin cursor) (cur_remaining cursor)) r f' \<and>
    (r = Inr () \<longrightarrow> wf_fragmenter E fragmenter' \<and> fr_block_offset fragmenter' =
      (fr_block_offset fragmenter +
        length (record_image E (fr_block_offset fragmenter) (cur_begin cursor) (cur_remaining cursor))) mod WalBlockSize)"
  using assms
proof (induction "fragment_measure fragmenter cursor" arbitrary: fragmenter cursor f rule: less_induct)
  case less
  let ?off = "fr_block_offset fragmenter" and ?data = "cur_remaining cursor" and ?b = "cur_begin cursor"
  let ?pad = "fst (TakePadding ?off)" and ?o = "snd (TakePadding ?off)"
  define n where "n = min (length ?data) (WalBlockSize - ?o - WalHeaderSize)"
  define ends where "ends \<longleftrightarrow> n = length ?data"
  let ?frag = "replicate ?pad 0 @ fragment_image E (SelectFragmentType ?b ends) (take n ?data)"
  obtain fragment fr1 where nx: "Next E fragmenter cursor =
        (Some fragment, fr1, cursor\<lparr>cur_remaining := drop n ?data, cur_begin := False, cur_done := ends\<rparr>)"
      "replicate (frag_padding_before fragment) 0 @ frag_header fragment @ frag_payload fragment = ?frag"
      "wf_fragmenter E fr1" "fr_block_offset fr1 = (?off + length ?frag) mod WalBlockSize"
    using Next_fragment [OF less.prems(3,4) refl refl n_def ends_def refl] by blast
  let ?cur1 = "cursor\<lparr>cur_remaining := drop n ?data, cur_begin := False, cur_done := ends\<rparr>"
  have img: "record_image E ?off ?b ?data = ?frag @ (if ends then [] else record_image E 0 False (drop n ?data))"
    by (subst record_image.simps) (simp add: Let_def n_def ends_def)
  obtain r1 f1 where af: "AppendFragment append_file f fragment = (r1, f1)" by fastforce
  have a1: "appended f ?frag r1 f1"
    using AppendFragment_appended [OF af less.prems(2)] unfolding nx(2) .
  then have v1: "valid f1" by (simp add: appended_def)
  show ?case
  proof (cases r1)
    case (Inl e)
    with less.prems(1) nx(1) af have "r = Inl e" "f' = f1"
      by (simp_all add: AddFragments.simps [of E append_file fragmenter])
    then show ?thesis using appended_failed [OF a1 [unfolded Inl]] unfolding img by simp
  next
    case (Inr u)
    then have run: "AddFragments E append_file fr1 ?cur1 f1 = (r, fragmenter', f')"
      using less.prems(1) nx(1) af by (simp add: AddFragments.simps [of E append_file fragmenter])
    show ?thesis
    proof (cases ends)
      case True
      then have "r = Inr ()" "fragmenter' = fr1" "f' = f1"
        using run by (simp_all add: AddFragments.simps [of E append_file fr1] Next_def)
      then show ?thesis using a1 Inr nx(3,4) True unfolding img by simp
    next
      case False
      then have o1: "fr_block_offset fr1 = 0"
        using fragment_fills_block [OF _ n_def] nx(4) less.prems(3) by (simp add: ends_def wf_fragmenter_def)
      from less.hyps [OF fragment_measure_Next [OF nx(1)] run v1 nx(3)] False
      have ih: "appended f1 (record_image E 0 False (drop n ?data)) r f'"
        "r = Inr () \<longrightarrow> wf_fragmenter E fragmenter' \<and> fr_block_offset fragmenter' =
          length (record_image E 0 False (drop n ?data)) mod WalBlockSize"
        by (simp_all add: o1)
      have "(?off + length (record_image E ?off ?b ?data)) mod WalBlockSize =
          length (record_image E 0 False (drop n ?data)) mod WalBlockSize"
        unfolding img using False o1 nx(4)
        by (simp only: if_False length_append add.assoc [symmetric]) (metis add_0 mod_add_left_eq)
      moreover have "appended f (record_image E ?off ?b ?data) r f'"
        unfolding img using appended_trans [OF _ ih(1), of f ?frag] a1 Inr False by simp
      ultimately show ?thesis using ih(2) by simp
    qed
  qed
qed

lemma flush_appended:
  "flush_file f = (r, f') \<Longrightarrow> valid f \<Longrightarrow> appended f [] r f' \<and> (r = Inr () \<longrightarrow> written f' = accepted f')"
  using flush_valid flush_ok flush_grows flush_stream flush_durable by (auto simp: appended_def)

lemma AddRecord_appended:
  assumes run: "WalWriter_AddRecord E append_file flush_file w data = (r, w')"
    and "valid (ww_file w)" "writer_at E w (length (accepted (ww_file w)))"
  shows "appended (ww_file w) (replicate (ww_reopen_padding w) 0 @
        record_image E ((length (accepted (ww_file w)) + ww_reopen_padding w) mod WalBlockSize) True data)
      r (ww_file w') \<and>
    (r = Inr () \<longrightarrow> writer_at E w' (length (accepted (ww_file w'))) \<and> ww_reopen_padding w' = 0 \<and>
      written (ww_file w') = accepted (ww_file w'))"
proof -
  let ?n = "length (accepted (ww_file w))" and ?pad = "ww_reopen_padding w"
  let ?img = "record_image E ((?n + ?pad) mod WalBlockSize) True data"
  obtain r1 w1 where p: "PadReopenedBlock append_file w = (r1, w1)" by fastforce
  have w1: "appended (ww_file w) (replicate ?pad 0) r1 (ww_file w1)"
      "ww_fragmenter w1 = ww_fragmenter w" "r1 = Inr () \<Longrightarrow> ww_reopen_padding w1 = 0"
    using p assms(2) appended_append [of "ww_file w" "replicate ?pad 0"] appended_Nil
    by (auto simp: PadReopenedBlock_def AppendPadding_def split: if_splits prod.splits sum.splits)
  then have v1: "valid (ww_file w1)" by (simp add: appended_def)
  show ?thesis
  proof (cases r1)
    case (Inl e)
    with run p have "r = Inl e" "w' = w1" by (simp_all add: WalWriter_AddRecord_def)
    with w1(1) Inl show ?thesis by (auto intro: appended_failed)
  next
    case (Inr u)
    obtain r2 fr2 f2 where a: "AddFragments E append_file (ww_fragmenter w1) (Fragment data) (ww_file w1) = (r2, fr2, f2)"
      using prod_cases3 by blast
    have wf1: "wf_fragmenter E (ww_fragmenter w1)" and off1: "fr_block_offset (ww_fragmenter w1) = (?n + ?pad) mod WalBlockSize"
      using assms(3) w1(2) by (simp_all add: writer_at_def)
    from AddFragments_appended [OF a v1 wf1]
    have a2: "appended (ww_file w1) ?img r2 f2"
      "r2 = Inr () \<Longrightarrow> wf_fragmenter E fr2 \<and> fr_block_offset fr2 = (?n + ?pad + length ?img) mod WalBlockSize"
      by (auto simp: Fragment_def off1 mod_add_left_eq)
    have a12: "appended (ww_file w) (replicate ?pad 0 @ ?img) r2 f2"
      using appended_trans [OF _ a2(1)] w1(1) Inr by simp
    show ?thesis
    proof (cases r2)
      case Inl2: (Inl e)
      with run p Inr a have "r = Inl e" "ww_file w' = f2" by (auto simp: WalWriter_AddRecord_def)
      with a12 Inl2 show ?thesis by simp
    next
      case Inr2: (Inr u2)
      obtain r3 f3 where fl: "flush_file f2 = (r3, f3)" by fastforce
      with run p Inr a Inr2 have w': "r = r3" "w' = w1\<lparr>ww_fragmenter := fr2, ww_file := f3\<rparr>"
        by (auto simp: WalWriter_AddRecord_def)
      have fa: "appended f2 [] r3 f3" "r3 = Inr () \<Longrightarrow> written f3 = accepted f3"
        using flush_appended [OF fl] a2(1) by (simp_all add: appended_def)
      have "appended (ww_file w) (replicate ?pad 0 @ ?img) r3 f3"
        using appended_trans [OF _ fa(1)] a12 Inr2 by simp
      then show ?thesis
        using w' w1(3) Inr a2(2) Inr2 fa(2) by (auto simp: writer_at_def appended_def add.assoc)
    qed
  qed
qed

lemma AddRecords_appended:
  assumes "AddRecords E append_file flush_file w rs = (r, w')"
    "valid (ww_file w)" "writer_at E w (length (accepted (ww_file w)))" "ww_reopen_padding w = 0"
  shows "appended (ww_file w) (log_image E (length (accepted (ww_file w))) rs) r (ww_file w') \<and>
    (r = Inr () \<longrightarrow> writer_at E w' (length (accepted (ww_file w'))) \<and> ww_reopen_padding w' = 0 \<and>
      (rs \<noteq> [] \<longrightarrow> written (ww_file w') = accepted (ww_file w')))"
  using assms
proof (induction rs arbitrary: w)
  case Nil
  then show ?case using appended_Nil by auto
next
  case (Cons x rs)
  let ?n = "length (accepted (ww_file w))"
  let ?img = "record_image E (?n mod WalBlockSize) True x"
  obtain r1 w1 where a: "WalWriter_AddRecord E append_file flush_file w x = (r1, w1)" by fastforce
  note a1 = AddRecord_appended [OF a Cons.prems(2,3), unfolded Cons.prems(4), simplified]
  show ?case
  proof (cases r1)
    case (Inl e)
    with Cons.prems(1) a have "r = Inl e" "w' = w1" by simp_all
    with a1 Inl show ?thesis by (auto simp: Let_def intro: appended_failed)
  next
    case (Inr u)
    with Cons.prems(1) a have run: "AddRecords E append_file flush_file w1 rs = (r, w')" by simp
    have "accepted (ww_file w1) = accepted (ww_file w) @ ?img" "valid (ww_file w1)"
      using a1 Inr by (simp_all add: appended_def)
    with Cons.IH [OF run] a1 Inr
    have ih: "appended (ww_file w1) (log_image E (?n + length ?img) rs) r (ww_file w')"
      "r = Inr () \<longrightarrow> writer_at E w' (length (accepted (ww_file w'))) \<and> ww_reopen_padding w' = 0 \<and>
        (rs \<noteq> [] \<longrightarrow> written (ww_file w') = accepted (ww_file w'))" by simp_all
    have "rs = [] \<Longrightarrow> w' = w1" using run by simp
    moreover have "appended (ww_file w) (?img @ log_image E (?n + length ?img) rs) r (ww_file w')"
      using appended_trans [OF _ ih(1)] a1 Inr by simp
    ultimately show ?thesis using ih(2) a1 Inr by (auto simp: Let_def)
  qed
qed

end

context reliable_writer
begin

lemma AppendFragment_healthy:
  assumes "healthy f"
  shows "\<exists>f'. AppendFragment append_file f fragment = (Inr (), f') \<and> healthy f'"
proof -
  obtain f1 where f1: "(if frag_padding_before fragment \<noteq> 0
      then AppendPadding append_file f (frag_padding_before fragment) else (Inr (), f)) = (Inr (), f1)" "healthy f1"
    using append_healthy [OF assms] assms by (cases "frag_padding_before fragment = 0") (auto simp: AppendPadding_def)
  obtain f2 where f2: "append_file f1 (frag_header fragment) = (Inr (), f2)" "healthy f2"
    using append_healthy [OF f1(2)] by blast
  show ?thesis
    using append_healthy [OF f2(2), of "frag_payload fragment"] f1 f2 by (auto simp: AppendFragment_def)
qed

lemma AddFragments_healthy:
  assumes "healthy f"
  shows "\<exists>fr f'. AddFragments E append_file fragmenter cursor f = (Inr (), fr, f') \<and> healthy f'"
  using assms
proof (induction "fragment_measure fragmenter cursor" arbitrary: fragmenter cursor f rule: less_induct)
  case less
  obtain fo fr1 cur1 where nx: "Next E fragmenter cursor = (fo, fr1, cur1)" using prod_cases3 by blast
  show ?case
  proof (cases fo)
    case None
    with nx less.prems show ?thesis by (simp add: AddFragments.simps [of E append_file fragmenter])
  next
    case (Some fragment)
    obtain f1 where f1: "AppendFragment append_file f fragment = (Inr (), f1)" "healthy f1"
      using AppendFragment_healthy [OF less.prems] by blast
    from less.hyps [OF fragment_measure_Next [OF nx [unfolded Some]] f1(2)] show ?thesis
      using nx Some f1(1) by (simp add: AddFragments.simps [of E append_file fragmenter])
  qed
qed

lemma AddRecord_healthy:
  assumes "healthy (ww_file w)"
  shows "\<exists>w'. WalWriter_AddRecord E append_file flush_file w data = (Inr (), w') \<and> healthy (ww_file w')"
proof -
  obtain w1 where w1: "PadReopenedBlock append_file w = (Inr (), w1)" "healthy (ww_file w1)"
    using append_healthy [OF assms, of "replicate (ww_reopen_padding w) 0"] assms
    by (cases "ww_reopen_padding w = 0") (auto simp: PadReopenedBlock_def AppendPadding_def)
  obtain fr f2 where a: "AddFragments E append_file (ww_fragmenter w1) (Fragment data) (ww_file w1) = (Inr (), fr, f2)"
      "healthy f2"
    using AddFragments_healthy [OF w1(2)] by blast
  show ?thesis using flush_healthy [OF a(2)] w1(1) a(1) by (auto simp: WalWriter_AddRecord_def)
qed

lemma AddRecords_healthy:
  "healthy (ww_file w) \<Longrightarrow> \<exists>w'. AddRecords E append_file flush_file w rs = (Inr (), w') \<and> healthy (ww_file w')"
proof (induction rs arbitrary: w)
  case (Cons r rs)
  from AddRecord_healthy [OF Cons.prems, of E r] Cons.IH show ?case by fastforce
qed simp

lemma Sync_healthy:
  "healthy (ww_file w) \<Longrightarrow> \<exists>w'. WalWriter_Sync sync_file w = (Inr (), w') \<and> healthy (ww_file w')"
  using sync_healthy [of "ww_file w"] by (auto simp: WalWriter_Sync_def)

end

section \<open>Recovery after a crash\<close>

lemma log_image_append:
  "log_image E p (rs @ ss) = log_image E p rs @ log_image E (p + length (log_image E p rs)) ss"
  by (induction rs arbitrary: p) (simp_all add: Let_def add.assoc)

lemma recovered_prefix: "prefix (map record_data (recovered_events E p rs n)) rs"
  by (induction E p rs n rule: recovered_events.induct) (simp_all add: Let_def)

lemma recovered_append:
  "length (log_image E p rs) \<le> n \<Longrightarrow> prefix rs (map record_data (recovered_events E p (rs @ ss) n))"
  by (induction rs arbitrary: p n) (simp_all add: Let_def)

lemma recovered_all:
  "length (log_image E p rs) \<le> n \<Longrightarrow> map record_data (recovered_events E p rs n) = rs"
  using recovered_append [of E p rs n "[]"] recovered_prefix [of E p rs n]
  by (simp add: prefix_order.antisym)

lemma WalReader_New_unfragmented [simp]: "\<not> rd_in_fragmented_record (WalReader_New f)"
  by (simp add: WalReader_New_def)

context reliable_file
begin

lemma read_log_prefix:
  assumes "reliable f" "prefix (unread f) (log_image E 0 rs)"
  shows "ReadEvents read_file E m (WalReader_New (Some f)) =
    Some (event_results m (recovered_events E 0 rs (length (unread f))))"
proof -
  have "drop 0 (unread f) = take (length (unread f)) (log_image E 0 rs)"
    using assms(2) by (auto elim!: prefixE)
  from ReadEvents_log [OF reader_at_New [OF assms(1) refl] this] show ?thesis by simp
qed

lemma read_reopened_log:
  assumes "reliable f" "q = length (log_image E 0 rs)"
    "unread f = log_image E 0 rs @ replicate (reopen_padding q) 0 @ log_image E (q + reopen_padding q) ss"
  shows "ReadEvents read_file E m (WalReader_New (Some f)) =
    Some (event_results m (recovered_events E 0 rs q @
      recovered_events E (q + reopen_padding q) ss (length (log_image E (q + reopen_padding q) ss))))"
  unfolding assms(2)
proof (rule ReadEvents_complete [OF reader_at_New [OF assms(1) refl]])
  let ?C = "unread f" and ?p = "q + reopen_padding q"
  show d: "drop 0 ?C = log_image E 0 rs @ replicate (reopen_padding q) 0 @ log_image E ?p ss"
    by (simp add: assms(3))
  fix rd k
  assume rd: "reader_at rd ?C (0 + length (log_image E 0 rs))" "\<not> rd_in_fragmented_record rd"
  then have at_q: "reader_at rd ?C q" by (simp add: assms(2))
  have dq: "drop q ?C = replicate (reopen_padding q) 0 @ log_image E ?p ss"
    using drop_append_eq [OF d] by (simp add: assms(2))
  have dp: "drop ?p ?C = take (length (log_image E ?p ss)) (log_image E ?p ss)"
    using drop_append_eq [OF dq] by simp
  show "ReadEvents read_file E k rd = Some (event_results k
      (recovered_events E (length (log_image E 0 rs) + reopen_padding (length (log_image E 0 rs))) ss
        (length (log_image E (length (log_image E 0 rs) + reopen_padding (length (log_image E 0 rs))) ss))))"
    unfolding assms(2) [symmetric]
  proof (cases "q mod WalBlockSize = 0")
    case True
    then have "?p = q" by (simp add: reopen_padding_def)
    with ReadEvents_log [OF at_q _ rd(2)] dp
    show "ReadEvents read_file E k rd =
      Some (event_results k (recovered_events E ?p ss (length (log_image E ?p ss))))" by simp
  next
    case False
    then have z: "reopen_padding q = WalBlockSize - q mod WalBlockSize" by (simp add: reopen_padding_def)
    from ReadNextLoop_zeroes [OF at_q dq [unfolded z] False rd(2), of E, folded z] obtain rd' where
      rd': "ReadNextLoop read_file E rd = ReadNextLoop read_file E rd'" "reader_at rd' ?C ?p"
        "\<not> rd_in_fragmented_record rd'" by blast
    have "ReadEvents read_file E k rd = ReadEvents read_file E k rd'"
      using at_q rd' by (cases k) simp_all
    with ReadEvents_log [OF rd'(2) dp rd'(3)]
    show "ReadEvents read_file E k rd =
      Some (event_results k (recovered_events E ?p ss (length (log_image E ?p ss))))" by simp
  qed
qed simp_all

end

section \<open>Properties of the log on native files\<close>

text \<open>C1: Crash safety of the log.  Start a log on an empty native file and add any records; the
  system calls may be interrupted, short or failing at any point, and adding stops at the first error.
  If the machine then stops so that any prefix \<open>C\<close> of the written bytes survives, reading the file
  delivers, in order, exactly the records that lie completely within \<open>C\<close>, which are a prefix of the
  records added, then the end of the file: no torn record and no corruption is ever reported.\<close>

theorem wal_crash_recovery:
  assumes "AddRecords E PosixWritableFile_Append PosixWritableFile_Flush (WalWriter_New E f 0) rs = (r, w)"
    and "PosixWritableFile_valid f" "PosixWritableFile_accepted f = []"
    and "prefix C (PosixWritableFile_written (ww_file w))"
    and "PosixSequentialFile_reliable g" "PosixSequentialFile_unread g = C"
  shows "ReadEvents PosixSequentialFile_Read E m (WalReader_New (Some g)) =
      Some (event_results m (recovered_events E 0 rs (length C))) \<and>
    prefix (map record_data (recovered_events E 0 rs (length C))) rs"
proof -
  let ?w = "WalWriter_New E f 0"
  have "ww_file ?w = f" "ww_reopen_padding ?w = 0" "writer_at E ?w 0"
    using writer_at_New [of E f 0] by (simp_all add: reopen_padding_def)
  with posix_writer.AddRecords_appended [OF assms(1)] assms(2,3)
  have "posix_writer.appended f (log_image E 0 rs) r (ww_file w)" by simp
  then have "prefix C (log_image E 0 rs)"
    using assms(3,4) by (auto simp: posix_writer.appended_def intro: prefix_order.trans)
  with posix_reader.read_log_prefix [OF assms(5)] assms(6) show ?thesis
    using recovered_prefix by auto
qed

definition demo_crc :: crc_extend where
  "demo_crc c bs = fold (\<lambda>b acc. 31 * acc + ucast b) bs c"

theorem wal_crash_recovery_witness:
  "let w = snd (AddRecords demo_crc PosixWritableFile_Append PosixWritableFile_Flush
        (WalWriter_New demo_crc (demo_writable [Interrupted, Transferred 11, Failed EAGAIN]) 0) [[1, 2], [3]]);
      C = take 10 (PosixWritableFile_written (ww_file w))
   in ReadEvents PosixSequentialFile_Read demo_crc 3 (WalReader_New (Some (demo_sequential C [Transferred 3, Interrupted]))) =
      Some (event_results 3 (recovered_events demo_crc 0 [[1, 2], [3]] (length C)))"
  using wal_crash_recovery [of demo_crc "demo_writable [Interrupted, Transferred 11, Failed EAGAIN]" "[[1, 2], [3]]",
      OF surjective_pairing demo_writable_views take_is_prefix _ demo_sequential_views(1)]
  by (simp add: Let_def)

text \<open>C2: Durability of synced records.  If records \<open>rs\<close> were added and a later \<open>Sync\<close> returned
  success, then after any further additions \<open>ss\<close>, successful or not, and a crash that keeps at least the
  durable bytes, reading the log recovers every record of \<open>rs\<close>, followed by a prefix of \<open>ss\<close>.\<close>

theorem wal_sync_durable:
  assumes "AddRecords E PosixWritableFile_Append PosixWritableFile_Flush (WalWriter_New E f 0) rs = (Inr u, w1)"
    and "WalWriter_Sync PosixWritableFile_Sync w1 = (Inr v, w2)"
    and "AddRecords E PosixWritableFile_Append PosixWritableFile_Flush w2 ss = (r, w3)"
    and "PosixWritableFile_valid f" "PosixWritableFile_accepted f = []"
    and "prefix (PosixWritableFile_durable (ww_file w3)) C" "prefix C (PosixWritableFile_written (ww_file w3))"
    and "PosixSequentialFile_reliable g" "PosixSequentialFile_unread g = C"
  shows "\<exists>evs. ReadEvents PosixSequentialFile_Read E m (WalReader_New (Some g)) = Some (event_results m evs) \<and>
    prefix rs (map record_data evs) \<and> prefix (map record_data evs) (rs @ ss)"
proof -
  let ?w = "WalWriter_New E f 0" and ?L = "log_image E 0 rs"
  have "ww_file ?w = f" "ww_reopen_padding ?w = 0" "writer_at E ?w 0"
    using writer_at_New [of E f 0] by (simp_all add: reopen_padding_def)
  with posix_writer.AddRecords_appended [OF assms(1)] assms(4,5)
  have w1: "PosixWritableFile_accepted (ww_file w1) = ?L" "PosixWritableFile_valid (ww_file w1)"
    "writer_at E w1 (length ?L)" "ww_reopen_padding w1 = 0"
    by (auto simp: posix_writer.appended_def)
  obtain f2 where s: "PosixWritableFile_Sync (ww_file w1) = (Inr v, f2)" "w2 = w1\<lparr>ww_file := f2\<rparr>"
    using assms(2) by (auto simp: WalWriter_Sync_def split: prod.splits)
  have w2: "PosixWritableFile_accepted f2 = ?L" "PosixWritableFile_durable f2 = ?L" "PosixWritableFile_valid f2"
    using posix_writer.sync_ok [OF s(1) w1(2)] posix_writer.sync_valid [OF s(1) w1(2)] w1(1) by simp_all
  have "posix_writer.appended f2 (log_image E (length ?L) ss) r (ww_file w3)"
    using posix_writer.AddRecords_appended [OF assms(3)] w1 w2 s(2) by (simp add: writer_at_def)
  then have "prefix ?L C" "prefix C (log_image E 0 (rs @ ss))"
    using assms(6,7) w2 by (auto simp: posix_writer.appended_def log_image_append intro: prefix_order.trans)
  with posix_reader.read_log_prefix [OF assms(8), of E "rs @ ss" m] assms(9)
    recovered_append [of E 0 rs "length C" ss] recovered_prefix [of E 0 "rs @ ss" "length C"]
  show ?thesis by (auto dest: prefix_length_le)
qed

definition demo_w1 :: "PosixWritableFile WalWriter" where
  "demo_w1 = snd (AddRecords demo_crc PosixWritableFile_Append PosixWritableFile_Flush
     (WalWriter_New demo_crc (demo_writable [Interrupted, Transferred 2]) 0) [[1, 2]])"

definition demo_w2 :: "PosixWritableFile WalWriter" where
  "demo_w2 = snd (WalWriter_Sync PosixWritableFile_Sync demo_w1)"

definition demo_w3 :: "PosixWritableFile WalWriter" where
  "demo_w3 = snd (AddRecords demo_crc PosixWritableFile_Append PosixWritableFile_Flush demo_w2 [[3]])"

lemma demo_healthy: "PosixWritableFile_healthy (demo_writable [Interrupted, Transferred 2])"
  by (simp add: demo_writable_def demo_descriptor_def PosixWritableFile_New_def PosixWritableFile_healthy_def
      healthy_schedule_def)

lemma demo_session:
  "AddRecords demo_crc PosixWritableFile_Append PosixWritableFile_Flush
     (WalWriter_New demo_crc (demo_writable [Interrupted, Transferred 2]) 0) [[1, 2]] = (Inr (), demo_w1)"
  "WalWriter_Sync PosixWritableFile_Sync demo_w1 = (Inr (), demo_w2)"
  "AddRecords demo_crc PosixWritableFile_Append PosixWritableFile_Flush demo_w2 [[3]] = (Inr (), demo_w3)"
  "prefix (PosixWritableFile_durable (ww_file demo_w3)) (PosixWritableFile_written (ww_file demo_w3))"
proof -
  let ?w0 = "WalWriter_New demo_crc (demo_writable [Interrupted, Transferred 2]) 0"
  have "PosixWritableFile_healthy (ww_file ?w0)" by (simp add: demo_healthy)
  from posix_writer.AddRecords_healthy [OF this, of demo_crc "[[1, 2]]"]
  have 1: "AddRecords demo_crc PosixWritableFile_Append PosixWritableFile_Flush ?w0 [[1, 2]] = (Inr (), demo_w1)"
    and h1: "PosixWritableFile_healthy (ww_file demo_w1)"
    unfolding demo_w1_def by (metis snd_conv)+
  from posix_writer.Sync_healthy [OF h1]
  have 2: "WalWriter_Sync PosixWritableFile_Sync demo_w1 = (Inr (), demo_w2)"
    and h2: "PosixWritableFile_healthy (ww_file demo_w2)"
    unfolding demo_w2_def by (metis snd_conv)+
  from posix_writer.AddRecords_healthy [OF h2, of demo_crc "[[3]]"]
  have 3: "AddRecords demo_crc PosixWritableFile_Append PosixWritableFile_Flush demo_w2 [[3]] = (Inr (), demo_w3)"
    unfolding demo_w3_def by (metis snd_conv)
  have w1: "PosixWritableFile_valid (ww_file demo_w1)" "ww_reopen_padding demo_w1 = 0"
    "writer_at demo_crc demo_w1 (length (PosixWritableFile_accepted (ww_file demo_w1)))"
    using posix_writer.AddRecords_appended [OF 1] writer_at_New [of demo_crc "demo_writable [Interrupted, Transferred 2]" 0]
    by (auto simp: posix_writer.appended_def reopen_padding_def)
  obtain f2 where s: "PosixWritableFile_Sync (ww_file demo_w1) = (Inr (), f2)" "demo_w2 = demo_w1\<lparr>ww_file := f2\<rparr>"
    using 2 by (auto simp: WalWriter_Sync_def split: prod.splits)
  have w2: "PosixWritableFile_valid (ww_file demo_w2)" "ww_reopen_padding demo_w2 = 0"
    "writer_at demo_crc demo_w2 (length (PosixWritableFile_accepted (ww_file demo_w2)))"
    "PosixWritableFile_durable (ww_file demo_w2) = PosixWritableFile_written (ww_file demo_w2)"
    using posix_writer.sync_ok [OF s(1) w1(1)] posix_writer.sync_valid [OF s(1) w1(1)] w1(2,3)
    by (simp_all add: s(2) writer_at_def)
  have "prefix (PosixWritableFile_durable (ww_file demo_w3)) (PosixWritableFile_written (ww_file demo_w3))"
    using posix_writer.AddRecords_appended [OF 3 w2(1,3,2)] unfolding posix_writer.appended_def w2(4)
    by (elim conjE) (simp only:)
  with 1 2 3 show
    "AddRecords demo_crc PosixWritableFile_Append PosixWritableFile_Flush ?w0 [[1, 2]] = (Inr (), demo_w1)"
    "WalWriter_Sync PosixWritableFile_Sync demo_w1 = (Inr (), demo_w2)"
    "AddRecords demo_crc PosixWritableFile_Append PosixWritableFile_Flush demo_w2 [[3]] = (Inr (), demo_w3)"
    "prefix (PosixWritableFile_durable (ww_file demo_w3)) (PosixWritableFile_written (ww_file demo_w3))"
    by blast+
qed

theorem wal_sync_durable_witness:
  "\<exists>evs. ReadEvents PosixSequentialFile_Read demo_crc 4
      (WalReader_New (Some (demo_sequential (PosixWritableFile_written (ww_file demo_w3)) [Transferred 5]))) =
      Some (event_results 4 evs) \<and>
    prefix [[1, 2]] (map record_data evs) \<and> prefix (map record_data evs) [[1, 2], [3]]"
  using wal_sync_durable [OF demo_session(1-3) demo_writable_views demo_session(4) prefix_order.refl _
      demo_sequential_views(1), of "[Transferred 5]" 4] by simp

text \<open>C3: Reopening.  A log closed after records \<open>rs\<close> and reopened with its size for records \<open>ss\<close> (the
  writer finishes the open block with zero bytes) reads back as \<open>rs\<close> followed by \<open>ss\<close>, then the end of
  the file, with no corruption at the seam.\<close>

theorem wal_reopen_roundtrip:
  assumes "PosixWritableFile_valid f" "PosixWritableFile_accepted f = log_image E 0 rs"
    and "n = length (log_image E 0 rs)" "ss \<noteq> []"
    and "AddRecords E PosixWritableFile_Append PosixWritableFile_Flush (WalWriter_New E f n) ss = (Inr u, w)"
    and "PosixSequentialFile_reliable g" "PosixSequentialFile_unread g = PosixWritableFile_written (ww_file w)"
  shows "\<exists>evs. ReadEvents PosixSequentialFile_Read E m (WalReader_New (Some g)) = Some (event_results m evs) \<and>
    map record_data evs = rs @ ss"
proof -
  obtain x xs where ss: "ss = x # xs" using assms(4) by (cases ss) auto
  let ?w = "WalWriter_New E f n" and ?z = "reopen_padding n"
  let ?img = "record_image E ((n + ?z) mod WalBlockSize) True x"
  have w0: "ww_file ?w = f" "ww_reopen_padding ?w = ?z" "writer_at E ?w n"
    using writer_at_New [of E f n] by simp_all
  obtain w1 where a: "WalWriter_AddRecord E PosixWritableFile_Append PosixWritableFile_Flush ?w x = (Inr (), w1)"
    and b: "AddRecords E PosixWritableFile_Append PosixWritableFile_Flush w1 xs = (Inr u, w)"
    using assms(5) ss by (auto split: prod.splits sum.splits)
  have len: "length (PosixWritableFile_accepted f) = n" by (simp add: assms(2,3))
  have w1: "PosixWritableFile_accepted (ww_file w1) = log_image E 0 rs @ replicate ?z 0 @ ?img"
    "PosixWritableFile_valid (ww_file w1)" "ww_reopen_padding w1 = 0"
    "writer_at E w1 (length (PosixWritableFile_accepted (ww_file w1)))"
    "PosixWritableFile_written (ww_file w1) = PosixWritableFile_accepted (ww_file w1)"
    using posix_writer.AddRecord_appended [OF a] w0 assms(1,2) len by (auto simp: posix_writer.appended_def)
  have "PosixWritableFile_written (ww_file w) = PosixWritableFile_accepted (ww_file w)"
    using posix_writer.AddRecords_appended [OF b w1(2,4,3)] w1(5) b by (cases xs) auto
  moreover have "PosixWritableFile_accepted (ww_file w) = log_image E 0 rs @ replicate ?z 0 @ log_image E (n + ?z) ss"
    using posix_writer.AddRecords_appended [OF b w1(2,4,3)] w1(1) len ss assms(3)
    by (simp add: posix_writer.appended_def Let_def add.assoc)
  ultimately have "PosixSequentialFile_unread g = log_image E 0 rs @ replicate ?z 0 @ log_image E (n + ?z) ss"
    using assms(7) by simp
  from posix_reader.read_reopened_log [OF assms(6,3) this] show ?thesis
    using recovered_all [of E 0 rs n] recovered_all [of E "n + ?z" ss] assms(3) by auto
qed

definition demo_w4 :: "PosixWritableFile WalWriter" where
  "demo_w4 = snd (AddRecords demo_crc PosixWritableFile_Append PosixWritableFile_Flush
     (WalWriter_New demo_crc (ww_file demo_w1) (length (log_image demo_crc 0 [[1, 2]]))) [[4], [5, 6]])"

lemma demo_reopened:
  "PosixWritableFile_valid (ww_file demo_w1)" "PosixWritableFile_accepted (ww_file demo_w1) = log_image demo_crc 0 [[1, 2]]"
  "AddRecords demo_crc PosixWritableFile_Append PosixWritableFile_Flush
     (WalWriter_New demo_crc (ww_file demo_w1) (length (log_image demo_crc 0 [[1, 2]]))) [[4], [5, 6]] = (Inr (), demo_w4)"
proof -
  have "PosixWritableFile_healthy (ww_file demo_w1)"
    using posix_writer.AddRecords_healthy [of "WalWriter_New demo_crc (demo_writable [Interrupted, Transferred 2]) 0"
        demo_crc "[[1, 2]]"] demo_session(1) demo_healthy by simp
  then have "PosixWritableFile_healthy
      (ww_file (WalWriter_New demo_crc (ww_file demo_w1) (length (log_image demo_crc 0 [[1, 2]]))))" by simp
  from posix_writer.AddRecords_healthy [OF this, of demo_crc "[[4], [5, 6]]"]
  show "AddRecords demo_crc PosixWritableFile_Append PosixWritableFile_Flush
     (WalWriter_New demo_crc (ww_file demo_w1) (length (log_image demo_crc 0 [[1, 2]]))) [[4], [5, 6]] = (Inr (), demo_w4)"
    unfolding demo_w4_def by (metis snd_conv)
  show "PosixWritableFile_valid (ww_file demo_w1)" "PosixWritableFile_accepted (ww_file demo_w1) = log_image demo_crc 0 [[1, 2]]"
    using posix_writer.AddRecords_appended [OF demo_session(1)]
      writer_at_New [of demo_crc "demo_writable [Interrupted, Transferred 2]" 0]
    by (simp_all add: posix_writer.appended_def reopen_padding_def)
qed

theorem wal_reopen_roundtrip_witness:
  "\<exists>evs. ReadEvents PosixSequentialFile_Read demo_crc 5
      (WalReader_New (Some (demo_sequential (PosixWritableFile_written (ww_file demo_w4)) [Interrupted]))) =
      Some (event_results 5 evs) \<and> map record_data evs = [[1, 2]] @ [[4], [5, 6]]"
  using wal_reopen_roundtrip [OF demo_reopened(1,2) refl _ demo_reopened(3) _ demo_sequential_views(1),
      of "[Interrupted]" 5] by simp

end
