(* ===== verification/Comparator.thy ===== *)
theory Comparator
  imports Prelude
begin

text \<open>
  Key ordering: the abstract class of \<^verbatim>\<open>include/modern_leveldb/base/comparator.h\<close> as a record of its
  virtual functions, the contract its comments state as the locale \<open>comparator_laws\<close>, and the
  built-in bytewise comparator of \<^verbatim>\<open>src/base/comparator.cc\<close>, which is shown to satisfy it.
  A comparator may identify keys with different bytes, so the contract is a total preorder.
\<close>

record comparator =
  Compare :: "bytes \<Rightarrow> bytes \<Rightarrow> int"
  Name :: string
  FindShortestSeparator :: "bytes \<Rightarrow> bytes \<Rightarrow> bytes"
  FindShortSuccessor :: "bytes \<Rightarrow> bytes"

section \<open>The contract\<close>

text \<open>\<open>D\<close> is the set of byte strings the comparator is used on: every byte string for a user
  comparator, the strings that hold a trailer for the internal-key comparator.\<close>

locale comparator_laws =
  fixes c :: comparator and D :: "bytes set"
  assumes compare_refl: "x \<in> D \<Longrightarrow> Compare c x x = 0"
    and compare_antisym: "x \<in> D \<Longrightarrow> y \<in> D \<Longrightarrow> sgn (Compare c y x) = - sgn (Compare c x y)"
    and compare_trans: "x \<in> D \<Longrightarrow> y \<in> D \<Longrightarrow> z \<in> D \<Longrightarrow>
      Compare c x y \<le> 0 \<Longrightarrow> Compare c y z \<le> 0 \<Longrightarrow> Compare c x z \<le> 0"
    and separator_closed: "x \<in> D \<Longrightarrow> y \<in> D \<Longrightarrow> FindShortestSeparator c x y \<in> D"
    and separator_between: "x \<in> D \<Longrightarrow> y \<in> D \<Longrightarrow> Compare c x y < 0 \<Longrightarrow>
      Compare c x (FindShortestSeparator c x y) \<le> 0 \<and> Compare c (FindShortestSeparator c x y) y < 0"
    and successor_closed: "x \<in> D \<Longrightarrow> FindShortSuccessor c x \<in> D"
    and successor_above: "x \<in> D \<Longrightarrow> Compare c x (FindShortSuccessor c x) \<le> 0"
begin

lemma compare_flip_less: "x \<in> D \<Longrightarrow> y \<in> D \<Longrightarrow> Compare c y x < 0 \<longleftrightarrow> 0 < Compare c x y"
  using compare_antisym [of x y] by (auto simp: sgn_if split: if_splits)

lemma compare_flip_eq: "x \<in> D \<Longrightarrow> y \<in> D \<Longrightarrow> Compare c y x = 0 \<longleftrightarrow> Compare c x y = 0"
  using compare_antisym [of x y] by (auto simp: sgn_if split: if_splits)

lemma compare_flip_le: "x \<in> D \<Longrightarrow> y \<in> D \<Longrightarrow> Compare c y x \<le> 0 \<longleftrightarrow> 0 \<le> Compare c x y"
  using compare_antisym [of x y] by (auto simp: sgn_if split: if_splits)

lemma compare_le_less_trans:
  assumes "x \<in> D" "y \<in> D" "z \<in> D" "Compare c x y \<le> 0" "Compare c y z < 0"
  shows "Compare c x z < 0"
proof (rule ccontr)
  assume "\<not> Compare c x z < 0"
  then have "Compare c z x \<le> 0" using compare_flip_le assms by simp
  then have "Compare c z y \<le> 0" using compare_trans assms by blast
  then show False using compare_flip_le [of y z] assms by simp
qed

lemma compare_less_le_trans:
  assumes "x \<in> D" "y \<in> D" "z \<in> D" "Compare c x y < 0" "Compare c y z \<le> 0"
  shows "Compare c x z < 0"
proof (rule ccontr)
  assume "\<not> Compare c x z < 0"
  then have "Compare c z x \<le> 0" using compare_flip_le assms by simp
  then have "Compare c y x \<le> 0" using compare_trans assms by blast
  then show False using compare_flip_le [of x y] assms by simp
qed

lemma compare_eq_trans:
  assumes "x \<in> D" "y \<in> D" "z \<in> D" "Compare c x y = 0" "Compare c y z = 0"
  shows "Compare c x z = 0"
proof -
  have "Compare c x z \<le> 0" by (rule compare_trans [OF assms(1-3)]) (simp_all add: assms)
  moreover have "Compare c z x \<le> 0"
    by (rule compare_trans [OF assms(3,2,1)]) (simp_all add: assms compare_flip_le)
  ultimately show ?thesis using compare_flip_le [OF assms(1,3)] by simp
qed

lemma compare_eq_left:
  assumes "x \<in> D" "y \<in> D" "z \<in> D" "Compare c x y = 0"
  shows "Compare c x z < 0 \<longleftrightarrow> Compare c y z < 0" and "Compare c x z = 0 \<longleftrightarrow> Compare c y z = 0"
proof -
  have yx: "Compare c y x = 0" using assms compare_flip_eq by simp
  show "Compare c x z < 0 \<longleftrightarrow> Compare c y z < 0"
    by (rule iffI) (rule compare_le_less_trans; simp add: assms yx)+
  show "Compare c x z = 0 \<longleftrightarrow> Compare c y z = 0"
    by (rule iffI) (rule compare_eq_trans; simp add: assms yx)+
qed

lemma compare_eq_right:
  assumes "x \<in> D" "y \<in> D" "z \<in> D" "Compare c x y = 0"
  shows "Compare c z x < 0 \<longleftrightarrow> Compare c z y < 0" and "Compare c z x = 0 \<longleftrightarrow> Compare c z y = 0"
proof -
  have yx: "Compare c y x = 0" using assms compare_flip_eq by simp
  show "Compare c z x < 0 \<longleftrightarrow> Compare c z y < 0"
    using compare_less_le_trans [OF assms(3,1,2)] compare_less_le_trans [OF assms(3,2,1)] assms(4) yx
    by auto
  show "Compare c z x = 0 \<longleftrightarrow> Compare c z y = 0"
    using compare_eq_trans [OF assms(3,1,2)] compare_eq_trans [OF assms(3,2,1)] assms(4) yx
    by auto
qed

end

text \<open>A user comparator orders every byte string.\<close>

locale user_comparator_laws = comparator_laws c UNIV for c

section \<open>The bytewise comparator\<close>

fun SharedPrefixLength :: "bytes \<Rightarrow> bytes \<Rightarrow> nat" where
  "SharedPrefixLength (x # left) (y # right) = (if x = y then Suc (SharedPrefixLength left right) else 0)"
| "SharedPrefixLength _ _ = 0"

text \<open>\<^verbatim>\<open>std::memcmp\<close> on two ranges of the same size: the sign of the first difference of the bytes
  as unsigned values.\<close>

fun memcmp :: "bytes \<Rightarrow> bytes \<Rightarrow> int" where
  "memcmp (x # xs) (y # ys) = (if x = y then memcmp xs ys else if x < y then -1 else 1)"
| "memcmp _ _ = 0"

definition CompareCommonPrefix :: "bytes \<Rightarrow> bytes \<Rightarrow> int" where
  "CompareCommonPrefix left right =
     (let size = min (length left) (length right)
      in if size = 0 then 0 else memcmp (take size left) (take size right))"

definition CompareKeyLengths :: "nat \<Rightarrow> nat \<Rightarrow> int" where
  "CompareKeyLengths left right = (if left < right then -1 else if left > right then 1 else 0)"

definition SeparatorSuccessor :: "byte \<Rightarrow> byte \<Rightarrow> byte option" where
  "SeparatorSuccessor start limit =
     (if unat start < 0xff \<and> unat start + 1 < unat limit then Some (of_nat (unat start + 1)) else None)"

record ByteSuccessor =
  bs_index :: nat
  bs_value :: byte

fun FindByteSuccessorLoop :: "bytes \<Rightarrow> nat \<Rightarrow> ByteSuccessor option" where
  "FindByteSuccessorLoop [] index = None"
| "FindByteSuccessorLoop (v # key) index =
     (if unat v \<noteq> 0xff then Some \<lparr>bs_index = index, bs_value = of_nat (unat v + 1)\<rparr>
      else FindByteSuccessorLoop key (Suc index))"

definition FindByteSuccessor :: "bytes \<Rightarrow> ByteSuccessor option" where
  "FindByteSuccessor key = FindByteSuccessorLoop key 0"

definition CommitShortKey :: "bytes \<Rightarrow> nat \<Rightarrow> byte \<Rightarrow> bytes" where
  "CommitShortKey key index successor = take (index + 1) (key[index := successor])"

definition BytewiseCompare :: "bytes \<Rightarrow> bytes \<Rightarrow> int" where
  "BytewiseCompare left right =
     (let order = CompareCommonPrefix left right
      in if order \<noteq> 0 then order else CompareKeyLengths (length left) (length right))"

definition BytewiseFindShortestSeparator :: "bytes \<Rightarrow> bytes \<Rightarrow> bytes" where
  "BytewiseFindShortestSeparator start limit =
     (let minimum_size = min (length start) (length limit);
          difference = SharedPrefixLength start limit
      in if difference \<ge> minimum_size then start
         else case SeparatorSuccessor (start ! difference) (limit ! difference) of
           Some successor \<Rightarrow> CommitShortKey start difference successor
         | None \<Rightarrow> start)"

definition BytewiseFindShortSuccessor :: "bytes \<Rightarrow> bytes" where
  "BytewiseFindShortSuccessor key =
     (case FindByteSuccessor key of
        Some successor \<Rightarrow> CommitShortKey key (bs_index successor) (bs_value successor)
      | None \<Rightarrow> key)"

definition BytewiseComparator :: comparator where
  "BytewiseComparator =
     \<lparr>Compare = BytewiseCompare,
      Name = ''leveldb.BytewiseComparator'',
      FindShortestSeparator = BytewiseFindShortestSeparator,
      FindShortSuccessor = BytewiseFindShortSuccessor\<rparr>"

section \<open>The bytewise comparator satisfies the contract\<close>

text \<open>The comparison of prefixes and lengths is the lexicographic comparison of the bytes.\<close>

lemma BytewiseCompare_simps [simp]:
  "BytewiseCompare [] [] = 0"
  "BytewiseCompare [] (y # ys) = -1"
  "BytewiseCompare (x # xs) [] = 1"
  "BytewiseCompare (x # xs) (y # ys) =
     (if x = y then BytewiseCompare xs ys else if x < y then -1 else 1)"
  by (auto simp: BytewiseCompare_def CompareCommonPrefix_def CompareKeyLengths_def Let_def)

lemma BytewiseCompare_eq_0: "BytewiseCompare x y = 0 \<longleftrightarrow> x = y"
proof (induction x arbitrary: y)
  case Nil
  then show ?case by (cases y) simp_all
next
  case (Cons a x)
  then show ?case by (cases y) auto
qed

lemma BytewiseCompare_self [simp]: "BytewiseCompare x x = 0"
  by (simp add: BytewiseCompare_eq_0)

lemma BytewiseCompare_antisym: "BytewiseCompare y x = - BytewiseCompare x y"
proof (induction x arbitrary: y)
  case Nil
  then show ?case by (cases y) simp_all
next
  case (Cons a x)
  then show ?case by (cases y) auto
qed

lemma BytewiseCompare_trans:
  "BytewiseCompare x y \<le> 0 \<Longrightarrow> BytewiseCompare y z \<le> 0 \<Longrightarrow> BytewiseCompare x z \<le> 0"
proof (induction x arbitrary: y z)
  case Nil
  then show ?case by (cases z) simp_all
next
  case (Cons a x)
  from Cons.prems obtain b y' where y: "y = b # y'" by (cases y) auto
  with Cons.prems obtain d z' where z: "z = d # z'" by (cases z) auto
  from Cons.prems Cons.IH [of y' z'] y z show ?case
    by (auto split: if_splits)
qed

lemma BytewiseCompare_prefix: "BytewiseCompare (p @ x) (p @ y) = BytewiseCompare x y"
  by (induction p) simp_all

lemma SharedPrefixLength_split:
  "SharedPrefixLength x y < min (length x) (length y) \<Longrightarrow>
     \<exists>p a x' b y'. x = p @ a # x' \<and> y = p @ b # y' \<and> a \<noteq> b \<and> SharedPrefixLength x y = length p"
proof (induction x y rule: SharedPrefixLength.induct)
  case (1 a x b y)
  show ?case
  proof (cases "a = b")
    case True
    with 1 obtain p a' x' b' y' where "x = p @ a' # x'" "y = p @ b' # y'" "a' \<noteq> b'"
      "SharedPrefixLength x y = length p" by auto
    with True show ?thesis by (intro exI [of _ "a # p"]) auto
  next
    case False
    then show ?thesis by (intro exI [of _ "[]"]) auto
  qed
qed auto

lemma byte_successor:
  fixes a :: byte
  assumes "unat a < 0xff"
  shows "unat (of_nat (unat a + 1) :: byte) = unat a + 1" and "a < of_nat (unat a + 1)"
proof -
  show "unat (of_nat (unat a + 1) :: byte) = unat a + 1"
    using assms by (subst unat_of_nat) simp
  then show "a < of_nat (unat a + 1)" by (simp add: word_less_nat_alt)
qed

lemma CommitShortKey_append: "CommitShortKey (p @ a # x) (length p) s = p @ [s]"
  by (simp add: CommitShortKey_def)

lemma BytewiseFindShortestSeparator_between:
  assumes "BytewiseCompare x y < 0"
  shows "BytewiseCompare x (BytewiseFindShortestSeparator x y) \<le> 0 \<and>
     BytewiseCompare (BytewiseFindShortestSeparator x y) y < 0"
proof (cases "SharedPrefixLength x y < min (length x) (length y)")
  case True
  then obtain p a x' b y' where split: "x = p @ a # x'" "y = p @ b # y'"
    and shared: "SharedPrefixLength x y = length p"
    using SharedPrefixLength_split by blast
  show ?thesis
  proof (cases "unat a < 0xff \<and> unat a + 1 < unat b")
    case succ: True
    then have "BytewiseFindShortestSeparator x y = p @ [of_nat (unat a + 1)]"
      using True shared split
      by (simp add: BytewiseFindShortestSeparator_def SeparatorSuccessor_def CommitShortKey_append)
    moreover have "of_nat (unat a + 1) < b"
      using succ byte_successor(1) [of a] by (simp add: word_less_nat_alt del: of_nat_add)
    ultimately show ?thesis
      using succ byte_successor(2) [of a] by (auto simp: split BytewiseCompare_prefix simp del: of_nat_add)
  next
    case False
    then have "BytewiseFindShortestSeparator x y = x"
      using split shared by (auto simp: BytewiseFindShortestSeparator_def SeparatorSuccessor_def Let_def)
    with assms show ?thesis by simp
  qed
next
  case False
  then have "BytewiseFindShortestSeparator x y = x"
    by (auto simp: BytewiseFindShortestSeparator_def Let_def)
  with assms show ?thesis by simp
qed

lemma FindByteSuccessorLoop_split:
  "FindByteSuccessorLoop key index = Some s \<Longrightarrow>
     \<exists>p a rest. key = p @ a # rest \<and> unat a < 0xff \<and> bs_index s = index + length p \<and>
       bs_value s = of_nat (unat a + 1)"
proof (induction key index rule: FindByteSuccessorLoop.induct)
  case (2 v key index)
  show ?case
  proof (cases "unat v = 0xff")
    case True
    with 2 obtain p a rest where "key = p @ a # rest" "unat a < 0xff"
      "bs_index s = Suc index + length p" "bs_value s = of_nat (unat a + 1)" by auto
    then show ?thesis by (intro exI [of _ "v # p"]) auto
  next
    case False
    moreover have "unat v < 256" using unsigned_less [of v, where ?'a = nat] by simp
    ultimately show ?thesis using 2(2) by (intro exI [of _ "[]"]) auto
  qed
qed simp

lemma BytewiseFindShortSuccessor_above: "BytewiseCompare x (BytewiseFindShortSuccessor x) \<le> 0"
proof (cases "FindByteSuccessor x")
  case None
  then show ?thesis by (simp add: BytewiseFindShortSuccessor_def)
next
  case (Some s)
  then obtain p a rest where x: "x = p @ a # rest" and a: "unat a < 0xff"
    and s: "bs_index s = length p" "bs_value s = of_nat (unat a + 1)"
    using FindByteSuccessorLoop_split [of x 0 s] by (auto simp: FindByteSuccessor_def)
  then have "BytewiseFindShortSuccessor x = p @ [of_nat (unat a + 1)]"
    using Some by (simp add: BytewiseFindShortSuccessor_def CommitShortKey_append)
  then show ?thesis
    using byte_successor(2) [OF a] by (auto simp: x BytewiseCompare_prefix simp del: of_nat_add)
qed

lemma BytewiseComparator_sel [simp]:
  "Compare BytewiseComparator = BytewiseCompare"
  "Name BytewiseComparator = ''leveldb.BytewiseComparator''"
  "FindShortestSeparator BytewiseComparator = BytewiseFindShortestSeparator"
  "FindShortSuccessor BytewiseComparator = BytewiseFindShortSuccessor"
  by (simp_all add: BytewiseComparator_def)

interpretation bytewise: user_comparator_laws BytewiseComparator
proof unfold_locales
  fix x y :: bytes
  show "sgn (Compare BytewiseComparator y x) = - sgn (Compare BytewiseComparator x y)"
    using BytewiseCompare_antisym [of y x] by simp
qed (auto intro: BytewiseCompare_trans BytewiseFindShortSuccessor_above
    dest: BytewiseFindShortestSeparator_between)

section \<open>Properties\<close>

text \<open>C24: The bytewise order.  \<open>Compare\<close> of the bytewise comparator is a total order on byte strings that
  is zero on equal strings only, and its separator and successor are sound: a separator of two ordered
  keys lies in the half-open interval between them, a short successor is not below its key.\<close>

theorem bytewise_comparator_contract:
  "(Compare BytewiseComparator x y = 0 \<longleftrightarrow> x = y) \<and>
   (Compare BytewiseComparator x y < 0 \<longleftrightarrow> 0 < Compare BytewiseComparator y x) \<and>
   (Compare BytewiseComparator x y \<le> 0 \<longrightarrow> Compare BytewiseComparator y z \<le> 0 \<longrightarrow> Compare BytewiseComparator x z \<le> 0) \<and>
   (Compare BytewiseComparator x y < 0 \<longrightarrow>
      Compare BytewiseComparator x (FindShortestSeparator BytewiseComparator x y) \<le> 0 \<and>
      Compare BytewiseComparator (FindShortestSeparator BytewiseComparator x y) y < 0) \<and>
   Compare BytewiseComparator x (FindShortSuccessor BytewiseComparator x) \<le> 0"
  using bytewise.compare_flip_less [of x y] bytewise.compare_flip_less [of y x] bytewise.compare_antisym [of x y] bytewise.compare_trans [of x y z] bytewise.separator_between [of x y]
    bytewise.successor_above [of x]
  by (auto simp: BytewiseCompare_eq_0)

theorem bytewise_comparator_contract_witness:
  "Compare BytewiseComparator [97, 98] (FindShortestSeparator BytewiseComparator [97, 98] [97, 104]) \<le> 0 \<and>
   Compare BytewiseComparator (FindShortestSeparator BytewiseComparator [97, 98] [97, 104]) [97, 104] < 0"
proof -
  have "Compare BytewiseComparator [97, 98] [97, 104] < 0" by code_simp
  then show ?thesis using bytewise_comparator_contract [of "[97, 98]" "[97, 104]"] by simp
qed

end
