(* ===== verification/Internal_Key.thy ===== *)
theory Internal_Key
  imports Coding Comparator
begin

text \<open>
  Internal keys (\<^verbatim>\<open>src/format/internal_key.h\<close>, \<^verbatim>\<open>src/format/internal_key.cc\<close>): a user key followed
  by a 64-bit trailer that packs a 56-bit sequence number with the kind of the entry; the seek
  targets built from a user key and a snapshot; and the comparator that orders internal keys by
  ascending user key and descending trailer.
\<close>

section \<open>Kinds and trailers\<close>

type_synonym SequenceNumber = u64

definition MaxSequenceNumber :: SequenceNumber where
  "MaxSequenceNumber = push_bit 56 1 - 1"

definition InternalKeyTrailerSize :: nat where
  "InternalKeyTrailerSize = 8"

text \<open>\<^verbatim>\<open>enum class ValueKind : std::uint8_t\<close> can hold any byte; \<open>OtherKind\<close> is a byte that is neither
  enumerator.\<close>

datatype ValueKind = Deletion | Value | OtherKind byte

definition ValueKind_byte :: "ValueKind \<Rightarrow> byte" where
  "ValueKind_byte kind = (case kind of Deletion \<Rightarrow> 0 | Value \<Rightarrow> 1 | OtherKind b \<Rightarrow> b)"

definition SeekValueKind :: ValueKind where
  "SeekValueKind = Value"

definition IsValidValueKind :: "ValueKind \<Rightarrow> bool" where
  "IsValidValueKind kind \<longleftrightarrow> kind = Deletion \<or> kind = Value"

definition DecodeValueKind :: "byte \<Rightarrow> ValueKind" where
  "DecodeValueKind encoded = (if encoded = 0 then Deletion else if encoded = 1 then Value else OtherKind encoded)"

definition ConsumeValueKindTrusted :: "bytes \<Rightarrow> (ValueKind \<times> bytes) option" where
  "ConsumeValueKindTrusted input = (case input of [] \<Rightarrow> None | b # rest \<Rightarrow> Some (DecodeValueKind b, rest))"

definition PackInternalKeyTrailer :: "SequenceNumber \<Rightarrow> ValueKind \<Rightarrow> u64" where
  "PackInternalKeyTrailer sequence kind = push_bit 8 sequence OR ucast (ValueKind_byte kind)"

definition DecodeInternalKeySequence :: "u64 \<Rightarrow> SequenceNumber" where
  "DecodeInternalKeySequence trailer = drop_bit 8 trailer"

definition DecodeInternalKeyValueKind :: "u64 \<Rightarrow> ValueKind" where
  "DecodeInternalKeyValueKind trailer = DecodeValueKind (ucast (trailer AND 0xff))"

text \<open>\<^verbatim>\<open>span::first\<close> and \<^verbatim>\<open>span::last\<close> around the trailer; both need a key that holds one.\<close>

definition first_user_key :: "bytes \<Rightarrow> bytes" where
  "first_user_key key = take (length key - InternalKeyTrailerSize) key"

definition last_trailer :: "bytes \<Rightarrow> bytes" where
  "last_trailer key = drop (length key - InternalKeyTrailerSize) key"

definition DecodeInternalKeyTrailer :: "bytes \<Rightarrow> u64" where
  "DecodeInternalKeyTrailer encoded = DecodeFixedTrusted (last_trailer encoded)"

section \<open>Decoding\<close>

record InternalKeyView =
  view_user_key :: bytes
  view_sequence :: SequenceNumber
  view_kind :: ValueKind

datatype InternalKeyDecodeIssue = ShortTrailer | UnknownKind

text \<open>The issue \<^verbatim>\<open>None\<close> of the source is the right summand; the output view is written only then.\<close>

definition DecodeInternalKeyView :: "bytes \<Rightarrow> InternalKeyDecodeIssue + InternalKeyView" where
  "DecodeInternalKeyView encoded =
     (if length encoded < InternalKeyTrailerSize then Inl ShortTrailer
      else let trailer_offset = length encoded - InternalKeyTrailerSize;
               trailer = DecodeInternalKeyTrailer encoded;
               kind' = DecodeInternalKeyValueKind trailer
           in if \<not> IsValidValueKind kind' then Inl UnknownKind
              else Inr \<lparr>view_user_key = take trailer_offset encoded,
                        view_sequence = DecodeInternalKeySequence trailer, view_kind = kind'\<rparr>)"

definition TryDecodeInternalKey :: "bytes \<Rightarrow> InternalKeyView option" where
  "TryDecodeInternalKey encoded = (case DecodeInternalKeyView encoded of Inl _ \<Rightarrow> None | Inr v \<Rightarrow> Some v)"

definition ParseInternalKey :: "bytes \<Rightarrow> InternalKeyView result" where
  "ParseInternalKey encoded =
     (case DecodeInternalKeyView encoded of
        Inl ShortTrailer \<Rightarrow> Inl (Error Corruption ''internal key is shorter than its trailer'')
      | Inl UnknownKind \<Rightarrow> Inl (Error Corruption ''internal key has an unknown value kind'')
      | Inr decoded \<Rightarrow> Inr decoded)"

section \<open>Owned internal keys\<close>

datatype InternalKey = InternalKey (ik_encoded: bytes)

definition ValidateInternalKeyInput :: "SequenceNumber \<Rightarrow> ValueKind \<Rightarrow> status" where
  "ValidateInternalKeyInput sequence kind =
     (if sequence > MaxSequenceNumber
      then Inl (Error InvalidArgument ''internal key sequence exceeds 56 bits'')
      else if \<not> IsValidValueKind kind
      then Inl (Error InvalidArgument ''internal key value kind is unsupported'')
      else Inr ())"

definition EncodeUnchecked :: "bytes \<Rightarrow> SequenceNumber \<Rightarrow> ValueKind \<Rightarrow> bytes" where
  "EncodeUnchecked user_key sequence kind =
     AppendFixed64 user_key (PackInternalKeyTrailer sequence kind)"

definition EncodeInternalKeyTrusted :: "bytes \<Rightarrow> SequenceNumber \<Rightarrow> ValueKind \<Rightarrow> bytes" where
  "EncodeInternalKeyTrusted user_key sequence kind =
     user_key @ EncodeFixedTrusted (PackInternalKeyTrailer sequence kind)"

definition InternalKey_Create :: "bytes \<Rightarrow> SequenceNumber \<Rightarrow> ValueKind \<Rightarrow> InternalKey result" where
  "InternalKey_Create user_key sequence kind =
     bindR (ValidateInternalKeyInput sequence kind) (\<lambda>_.
       Inr (InternalKey (EncodeUnchecked user_key sequence kind)))"

definition InternalKey_Decode :: "bytes \<Rightarrow> InternalKey result" where
  "InternalKey_Decode enc = bindR (ParseInternalKey enc) (\<lambda>_. Inr (InternalKey enc))"

definition InternalKey_user_key :: "InternalKey \<Rightarrow> bytes" where
  "InternalKey_user_key k = first_user_key (ik_encoded k)"

definition InternalKey_trailer :: "InternalKey \<Rightarrow> u64" where
  "InternalKey_trailer k = DecodeInternalKeyTrailer (ik_encoded k)"

definition InternalKey_sequence :: "InternalKey \<Rightarrow> SequenceNumber" where
  "InternalKey_sequence k = DecodeInternalKeySequence (InternalKey_trailer k)"

definition InternalKey_kind :: "InternalKey \<Rightarrow> ValueKind" where
  "InternalKey_kind k = DecodeInternalKeyValueKind (InternalKey_trailer k)"

section \<open>Lookup keys\<close>

definition InlineCapacity :: nat where
  "InlineCapacity = 200"

record LookupKey =
  lk_inline_storage :: bytes
  lk_heap_storage :: "bytes option"
  lk_encoded_size :: nat
  lk_internal_key_offset :: nat

definition LookupKey_data :: "LookupKey \<Rightarrow> bytes" where
  "LookupKey_data k = (case lk_heap_storage k of Some heap \<Rightarrow> heap | None \<Rightarrow> lk_inline_storage k)"

text \<open>Writing through the pointer \<^verbatim>\<open>data()\<close> overwrites the front of the selected storage.\<close>

definition LookupKey_write :: "LookupKey \<Rightarrow> bytes \<Rightarrow> LookupKey" where
  "LookupKey_write k bs =
     (case lk_heap_storage k of
        Some heap \<Rightarrow> k\<lparr>lk_heap_storage := Some (bs @ drop (length bs) heap)\<rparr>
      | None \<Rightarrow> k\<lparr>lk_inline_storage := bs @ drop (length bs) (lk_inline_storage k)\<rparr>)"

text \<open>The heap array is allocated for overwrite; the model starts it at zero.\<close>

definition LookupKey_New :: "nat \<Rightarrow> nat \<Rightarrow> LookupKey" where
  "LookupKey_New encoded_size prefix_size =
     \<lparr>lk_inline_storage = replicate InlineCapacity 0,
      lk_heap_storage = (if encoded_size > InlineCapacity then Some (replicate encoded_size 0) else None),
      lk_encoded_size = encoded_size,
      lk_internal_key_offset = prefix_size\<rparr>"

definition LookupKey_CreateTrusted :: "bytes \<Rightarrow> SequenceNumber \<Rightarrow> LookupKey" where
  "LookupKey_CreateTrusted user_key sequence =
     (let internal_key_size = length user_key + InternalKeyTrailerSize;
          encoded_internal_key_size = of_nat internal_key_size :: u32;
          prefix_size = VarintLength (ucast encoded_internal_key_size);
          size = prefix_size + internal_key_size
      in LookupKey_write (LookupKey_New size prefix_size)
           (EncodeVarintTrusted encoded_internal_key_size @
            EncodeInternalKeyTrusted user_key sequence SeekValueKind))"

definition LookupKey_Create :: "bytes \<Rightarrow> SequenceNumber \<Rightarrow> LookupKey result" where
  "LookupKey_Create user_key sequence =
     (if sequence > MaxSequenceNumber
      then Inl (Error InvalidArgument ''lookup key sequence exceeds 56 bits'')
      else Inr (LookupKey_CreateTrusted user_key sequence))"

definition LookupKey_memtable_key :: "LookupKey \<Rightarrow> bytes" where
  "LookupKey_memtable_key k = take (lk_encoded_size k) (LookupKey_data k)"

definition LookupKey_internal_key :: "LookupKey \<Rightarrow> bytes" where
  "LookupKey_internal_key k = drop (lk_internal_key_offset k) (LookupKey_memtable_key k)"

definition LookupKey_user_key :: "LookupKey \<Rightarrow> bytes" where
  "LookupKey_user_key k = first_user_key (LookupKey_internal_key k)"

definition LookupKey_InitializeCanonicalEmpty :: "LookupKey \<Rightarrow> LookupKey" where
  "LookupKey_InitializeCanonicalEmpty k =
     k\<lparr>lk_encoded_size := 1 + InternalKeyTrailerSize,
       lk_internal_key_offset := 1,
       lk_inline_storage :=
         [of_nat InternalKeyTrailerSize] @ EncodeFixedTrusted (PackInternalKeyTrailer 0 SeekValueKind) @
         drop (1 + InternalKeyTrailerSize) (lk_inline_storage k)\<rparr>"

definition LookupKey_ResetToCanonicalEmpty :: "LookupKey \<Rightarrow> LookupKey" where
  "LookupKey_ResetToCanonicalEmpty k = LookupKey_InitializeCanonicalEmpty (k\<lparr>lk_heap_storage := None\<rparr>)"

text \<open>Move construction and move assignment return the new owner and the emptied source; the moved
  \<^verbatim>\<open>unique_ptr\<close> leaves null behind.  Assignment of an object to itself changes nothing.\<close>

definition LookupKey_move :: "LookupKey \<Rightarrow> LookupKey \<times> LookupKey" where
  "LookupKey_move source =
     (\<lparr>lk_inline_storage = lk_inline_storage source, lk_heap_storage = lk_heap_storage source,
       lk_encoded_size = lk_encoded_size source, lk_internal_key_offset = lk_internal_key_offset source\<rparr>,
      LookupKey_ResetToCanonicalEmpty source)"

definition LookupKey_TransferStorageFrom :: "LookupKey \<Rightarrow> LookupKey \<Rightarrow> LookupKey \<times> LookupKey" where
  "LookupKey_TransferStorageFrom k source =
     (k\<lparr>lk_inline_storage := lk_inline_storage source, lk_heap_storage := lk_heap_storage source,
        lk_encoded_size := lk_encoded_size source, lk_internal_key_offset := lk_internal_key_offset source\<rparr>,
      source\<lparr>lk_heap_storage := None\<rparr>)"

definition LookupKey_move_assign :: "LookupKey \<Rightarrow> LookupKey \<Rightarrow> LookupKey \<times> LookupKey" where
  "LookupKey_move_assign k source =
     (let (k', source') = LookupKey_TransferStorageFrom k source
      in (k', LookupKey_ResetToCanonicalEmpty source'))"

section \<open>The internal-key comparator\<close>

definition CompareDescendingTrailers :: "bytes \<Rightarrow> bytes \<Rightarrow> int" where
  "CompareDescendingTrailers left right =
     (let left_trailer = DecodeFixedTrusted (last_trailer left) :: u64;
          right_trailer = DecodeFixedTrusted (last_trailer right) :: u64
      in if left_trailer > right_trailer then -1
         else if left_trailer < right_trailer then 1 else 0)"

definition IsShorterAndGreaterUserKey :: "comparator \<Rightarrow> bytes \<Rightarrow> bytes \<Rightarrow> bool" where
  "IsShorterAndGreaterUserKey comparator original candidate =
     (if length candidate \<ge> length original then False
      else Compare comparator original candidate < 0)"

definition AppendMaxSeekTrailer :: "bytes \<Rightarrow> bytes" where
  "AppendMaxSeekTrailer key = AppendFixed64 key (PackInternalKeyTrailer MaxSequenceNumber SeekValueKind)"

definition InternalKeyCompare :: "comparator \<Rightarrow> bytes \<Rightarrow> bytes \<Rightarrow> int" where
  "InternalKeyCompare user_comparator left right =
     (let user_order = Compare user_comparator (first_user_key left) (first_user_key right)
      in if user_order \<noteq> 0 then user_order else CompareDescendingTrailers left right)"

definition CommitSeparatorBeforeLimit :: "comparator \<Rightarrow> bytes \<Rightarrow> bytes \<Rightarrow> bytes \<Rightarrow> bytes" where
  "CommitSeparatorBeforeLimit user_comparator start candidate limit =
     (if InternalKeyCompare user_comparator candidate limit < 0 then candidate else start)"

definition InternalKeyFindShortestSeparator :: "comparator \<Rightarrow> bytes \<Rightarrow> bytes \<Rightarrow> bytes" where
  "InternalKeyFindShortestSeparator user_comparator start limit =
     (case (TryDecodeInternalKey start, TryDecodeInternalKey limit) of
        (Some start_key, Some limit_key) \<Rightarrow>
          (let shortened = FindShortestSeparator user_comparator (view_user_key start_key) (view_user_key limit_key)
           in if \<not> IsShorterAndGreaterUserKey user_comparator (view_user_key start_key) shortened then start
              else CommitSeparatorBeforeLimit user_comparator start (AppendMaxSeekTrailer shortened) limit)
      | _ \<Rightarrow> start)"

definition InternalKeyFindShortSuccessor :: "comparator \<Rightarrow> bytes \<Rightarrow> bytes" where
  "InternalKeyFindShortSuccessor user_comparator key =
     (case TryDecodeInternalKey key of
        None \<Rightarrow> key
      | Some decoded \<Rightarrow>
          (let successor = FindShortSuccessor user_comparator (view_user_key decoded)
           in if \<not> IsShorterAndGreaterUserKey user_comparator (view_user_key decoded) successor then key
              else AppendMaxSeekTrailer successor))"

definition InternalKeyComparator :: "comparator \<Rightarrow> comparator" where
  "InternalKeyComparator user_comparator =
     \<lparr>Compare = InternalKeyCompare user_comparator,
      Name = ''leveldb.InternalKeyComparator'',
      FindShortestSeparator = InternalKeyFindShortestSeparator user_comparator,
      FindShortSuccessor = InternalKeyFindShortSuccessor user_comparator\<rparr>"

section \<open>Trailers\<close>

lemma IsValidValueKind_simps [simp]:
  "IsValidValueKind Deletion" "IsValidValueKind Value" "\<not> IsValidValueKind (OtherKind b)"
  by (simp_all add: IsValidValueKind_def)

lemma ValueKind_byte_simps [simp]:
  "ValueKind_byte Deletion = 0" "ValueKind_byte Value = 1" "ValueKind_byte (OtherKind b) = b"
  by (simp_all add: ValueKind_byte_def)

lemma ValueKind_byte_DecodeValueKind [simp]: "ValueKind_byte (DecodeValueKind b) = b"
  by (simp add: DecodeValueKind_def)

lemma DecodeValueKind_ValueKind_byte: "IsValidValueKind kind \<Longrightarrow> DecodeValueKind (ValueKind_byte kind) = kind"
  by (auto simp: IsValidValueKind_def DecodeValueKind_def)

lemma MaxSequenceNumber_unat: "s \<le> MaxSequenceNumber \<longleftrightarrow> unat s < 2 ^ 56"
  by (auto simp: MaxSequenceNumber_def word_le_nat_alt)

lemma sequence_bits:
  assumes "s \<le> MaxSequenceNumber" "bit s n"
  shows "n < 56"
proof -
  have "take_bit 56 s = s"
    using assms(1) by (intro word_unat_eq_iff [THEN iffD2])
      (simp add: MaxSequenceNumber_unat unsigned_take_bit_eq take_bit_nat_eq_self)
  with assms(2) show ?thesis by (metis bit_take_bit_iff)
qed

lemma bit_PackInternalKeyTrailer:
  "bit (PackInternalKeyTrailer s k) n \<longleftrightarrow> n < 64 \<and> (if n < 8 then bit (ValueKind_byte k) n else bit s (n - 8))"
  by (auto simp: PackInternalKeyTrailer_def bit_or_iff bit_push_bit_iff bit_ucast_iff dest: bit_imp_le_length)

lemma DecodeInternalKeySequence_Pack [simp]:
  "s \<le> MaxSequenceNumber \<Longrightarrow> DecodeInternalKeySequence (PackInternalKeyTrailer s k) = s"
  by (rule bit_eqI)
    (auto simp: DecodeInternalKeySequence_def bit_drop_bit_eq bit_PackInternalKeyTrailer dest: sequence_bits)

lemma kind_byte_Pack: "ucast (PackInternalKeyTrailer s k AND 0xff) = ValueKind_byte k"
  by (rule bit_eqI) (auto simp: bit_low_byte bit_PackInternalKeyTrailer)

lemma DecodeInternalKeyValueKind_Pack [simp]:
  "IsValidValueKind k \<Longrightarrow> DecodeInternalKeyValueKind (PackInternalKeyTrailer s k) = k"
  by (simp add: DecodeInternalKeyValueKind_def kind_byte_Pack DecodeValueKind_ValueKind_byte)

lemma Pack_Decode [simp]:
  "PackInternalKeyTrailer (DecodeInternalKeySequence t) (DecodeInternalKeyValueKind t) = t"
  by (rule bit_eqI)
    (auto simp: bit_PackInternalKeyTrailer DecodeInternalKeySequence_def DecodeInternalKeyValueKind_def
      bit_low_byte bit_drop_bit_eq)

lemma DecodeInternalKeySequence_bound: "DecodeInternalKeySequence t \<le> MaxSequenceNumber"
  using unsigned_less [of t, where ?'a = nat]
  by (simp add: MaxSequenceNumber_unat DecodeInternalKeySequence_def unat_drop_bit_div
      div_less_iff_less_mult)

text \<open>The packed trailers of valid sequences order by sequence, then by kind.\<close>

lemma unat_PackInternalKeyTrailer:
  assumes "s \<le> MaxSequenceNumber"
  shows "unat (PackInternalKeyTrailer s k) = unat s * 256 + unat (ValueKind_byte k)"
proof -
  let ?k = "ucast (ValueKind_byte k) :: u64"
  have k: "unat ?k = unat (ValueKind_byte k)" "unat (ValueKind_byte k) < 256"
    using unsigned_less [of "ValueKind_byte k", where ?'a = nat]
    by (simp_all add: unsigned_ucast_eq take_bit_nat_eq_self)
  have "PackInternalKeyTrailer s k = push_bit 8 s + ?k"
    unfolding PackInternalKeyTrailer_def
    by (rule disjunctive_add [symmetric]) (auto simp: bit_push_bit_iff bit_ucast_iff dest: bit_imp_le_length)
  also have "push_bit 8 s = s * 256" by (simp add: push_bit_eq_mult)
  finally have "PackInternalKeyTrailer s k = s * 256 + ?k" .
  moreover have "unat s < 2 ^ 56" using assms by (simp add: MaxSequenceNumber_unat)
  ultimately show ?thesis using k by (simp add: unat_word_ariths)
qed

lemma PackInternalKeyTrailer_less:
  assumes "s \<le> MaxSequenceNumber" "s' \<le> MaxSequenceNumber"
  shows "PackInternalKeyTrailer s k < PackInternalKeyTrailer s' k' \<longleftrightarrow>
     s < s' \<or> s = s' \<and> ValueKind_byte k < ValueKind_byte k'"
proof -
  have "unat (ValueKind_byte k) < 256" "unat (ValueKind_byte k') < 256"
    using unsigned_less [of "ValueKind_byte k", where ?'a = nat]
      unsigned_less [of "ValueKind_byte k'", where ?'a = nat] by simp_all
  then show ?thesis
    using assms by (auto simp: word_less_nat_alt unat_PackInternalKeyTrailer word_unat_eq_iff)
qed

section \<open>Encoded keys\<close>

lemma EncodeUnchecked_eq: "EncodeUnchecked uk s k = EncodeInternalKeyTrusted uk s k"
  by (simp add: EncodeUnchecked_def EncodeInternalKeyTrusted_def AppendFixed64_def AppendFixed_def)

lemma EncodeInternalKeyTrusted_parts [simp]:
  "length (EncodeInternalKeyTrusted uk s k) = length uk + 8"
  "first_user_key (EncodeInternalKeyTrusted uk s k) = uk"
  "last_trailer (EncodeInternalKeyTrusted uk s k) = EncodeFixedTrusted (PackInternalKeyTrailer s k)"
  "DecodeInternalKeyTrailer (EncodeInternalKeyTrusted uk s k) = PackInternalKeyTrailer s k"
  by (simp_all add: EncodeInternalKeyTrusted_def first_user_key_def last_trailer_def
      InternalKeyTrailerSize_def DecodeInternalKeyTrailer_def)

lemma ParseInternalKey_Encode:
  "s \<le> MaxSequenceNumber \<Longrightarrow> IsValidValueKind k \<Longrightarrow>
     ParseInternalKey (EncodeInternalKeyTrusted uk s k) =
       Inr \<lparr>view_user_key = uk, view_sequence = s, view_kind = k\<rparr>"
  using EncodeInternalKeyTrusted_parts(2) [of uk s k]
  by (simp add: ParseInternalKey_def DecodeInternalKeyView_def InternalKeyTrailerSize_def Let_def
      first_user_key_def)

lemma encoded_key_split:
  assumes "8 \<le> length e"
  shows "e = EncodeInternalKeyTrusted (first_user_key e)
     (DecodeInternalKeySequence (DecodeInternalKeyTrailer e))
     (DecodeInternalKeyValueKind (DecodeInternalKeyTrailer e))"
proof -
  have "length (last_trailer e) = LENGTH(64) div 8"
    using assms by (simp add: last_trailer_def InternalKeyTrailerSize_def)
  then have "EncodeFixedTrusted (DecodeInternalKeyTrailer e) = last_trailer e"
    unfolding DecodeInternalKeyTrailer_def by (rule EncodeFixedTrusted_DecodeFixedTrusted) simp
  then show ?thesis
    by (simp add: EncodeInternalKeyTrusted_def first_user_key_def last_trailer_def)
qed

lemma ParseInternalKey_Inr:
  "ParseInternalKey e = Inr v \<longleftrightarrow>
     e = EncodeInternalKeyTrusted (view_user_key v) (view_sequence v) (view_kind v) \<and>
     view_sequence v \<le> MaxSequenceNumber \<and> IsValidValueKind (view_kind v)"
proof
  assume "ParseInternalKey e = Inr v"
  then have "8 \<le> length e" and v: "view_user_key v = first_user_key e"
    "view_sequence v = DecodeInternalKeySequence (DecodeInternalKeyTrailer e)"
    "view_kind v = DecodeInternalKeyValueKind (DecodeInternalKeyTrailer e)" "IsValidValueKind (view_kind v)"
    by (auto simp: ParseInternalKey_def DecodeInternalKeyView_def InternalKeyTrailerSize_def Let_def
        first_user_key_def split: if_splits)
  then show "e = EncodeInternalKeyTrusted (view_user_key v) (view_sequence v) (view_kind v) \<and>
     view_sequence v \<le> MaxSequenceNumber \<and> IsValidValueKind (view_kind v)"
    using encoded_key_split [of e] DecodeInternalKeySequence_bound [of "DecodeInternalKeyTrailer e"] by simp
next
  assume e: "e = EncodeInternalKeyTrusted (view_user_key v) (view_sequence v) (view_kind v) \<and>
     view_sequence v \<le> MaxSequenceNumber \<and> IsValidValueKind (view_kind v)"
  then have "ParseInternalKey e =
      Inr \<lparr>view_user_key = view_user_key v, view_sequence = view_sequence v, view_kind = view_kind v\<rparr>"
    using ParseInternalKey_Encode by simp
  then show "ParseInternalKey e = Inr v" by simp
qed

lemma ParseInternalKey_length: "ParseInternalKey e = Inr v \<Longrightarrow> 8 \<le> length e"
  using EncodeInternalKeyTrusted_parts(1) by (auto simp: ParseInternalKey_Inr)

lemma TryDecodeInternalKey_Some: "TryDecodeInternalKey e = Some v \<longleftrightarrow> ParseInternalKey e = Inr v"
  by (auto simp: TryDecodeInternalKey_def ParseInternalKey_def split: sum.splits InternalKeyDecodeIssue.splits)

section \<open>The order of internal keys\<close>

definition has_trailer :: "bytes set" where
  "has_trailer = {key. InternalKeyTrailerSize \<le> length key}"

lemma InternalKeyComparator_sel [simp]:
  "Compare (InternalKeyComparator c) = InternalKeyCompare c"
  "Name (InternalKeyComparator c) = ''leveldb.InternalKeyComparator''"
  "FindShortestSeparator (InternalKeyComparator c) = InternalKeyFindShortestSeparator c"
  "FindShortSuccessor (InternalKeyComparator c) = InternalKeyFindShortSuccessor c"
  by (simp_all add: InternalKeyComparator_def)

lemma CompareDescendingTrailers_sign:
  "CompareDescendingTrailers l r < 0 \<longleftrightarrow> DecodeInternalKeyTrailer r < DecodeInternalKeyTrailer l"
  "CompareDescendingTrailers l r = 0 \<longleftrightarrow> DecodeInternalKeyTrailer l = DecodeInternalKeyTrailer r"
  "CompareDescendingTrailers l r \<le> 0 \<longleftrightarrow> DecodeInternalKeyTrailer r \<le> DecodeInternalKeyTrailer l"
  by (auto simp: CompareDescendingTrailers_def DecodeInternalKeyTrailer_def Let_def)

lemma InternalKeyCompare_less:
  "InternalKeyCompare c l r < 0 \<longleftrightarrow>
     Compare c (first_user_key l) (first_user_key r) < 0 \<or>
     Compare c (first_user_key l) (first_user_key r) = 0 \<and>
       DecodeInternalKeyTrailer r < DecodeInternalKeyTrailer l"
  by (auto simp: InternalKeyCompare_def Let_def CompareDescendingTrailers_sign)

lemma InternalKeyCompare_le:
  "InternalKeyCompare c l r \<le> 0 \<longleftrightarrow>
     Compare c (first_user_key l) (first_user_key r) < 0 \<or>
     Compare c (first_user_key l) (first_user_key r) = 0 \<and>
       DecodeInternalKeyTrailer r \<le> DecodeInternalKeyTrailer l"
  by (auto simp: InternalKeyCompare_def Let_def CompareDescendingTrailers_sign)

lemma InternalKeyCompare_eq_0:
  "InternalKeyCompare c l r = 0 \<longleftrightarrow>
     Compare c (first_user_key l) (first_user_key r) = 0 \<and>
     DecodeInternalKeyTrailer l = DecodeInternalKeyTrailer r"
  by (auto simp: InternalKeyCompare_def Let_def CompareDescendingTrailers_sign)

lemma AppendMaxSeekTrailer_eq:
  "AppendMaxSeekTrailer key = EncodeInternalKeyTrusted key MaxSequenceNumber SeekValueKind"
  by (simp add: AppendMaxSeekTrailer_def EncodeInternalKeyTrusted_def AppendFixed64_def AppendFixed_def)

lemma EncodeInternalKeyTrusted_in [simp]: "EncodeInternalKeyTrusted uk s k \<in> has_trailer"
  by (simp add: has_trailer_def InternalKeyTrailerSize_def)

context user_comparator_laws
begin

lemma internal_antisym: "sgn (InternalKeyCompare c y x) = - sgn (InternalKeyCompare c x y)"
  using compare_antisym [of "first_user_key x" "first_user_key y"]
  by (auto simp: InternalKeyCompare_def CompareDescendingTrailers_def Let_def sgn_if split: if_splits)

lemma internal_trans:
  assumes "InternalKeyCompare c x y \<le> 0" "InternalKeyCompare c y z \<le> 0"
  shows "InternalKeyCompare c x z \<le> 0"
proof -
  let ?u = "Compare c (first_user_key x) (first_user_key y)"
  let ?v = "Compare c (first_user_key y) (first_user_key z)"
  have "?u \<le> 0" "?v \<le> 0" using assms by (auto simp: InternalKeyCompare_le)
  show ?thesis
  proof (cases "?u = 0 \<and> ?v = 0")
    case True
    then have "Compare c (first_user_key x) (first_user_key z) = 0"
      using compare_eq_trans by blast
    with True assms show ?thesis by (auto simp: InternalKeyCompare_le)
  next
    case False
    then have "Compare c (first_user_key x) (first_user_key z) < 0"
      using \<open>?u \<le> 0\<close> \<open>?v \<le> 0\<close> compare_le_less_trans compare_less_le_trans
      by (metis UNIV_I order_le_less)
    then show ?thesis by (simp add: InternalKeyCompare_le)
  qed
qed

lemma internal_flip: "InternalKeyCompare c y x < 0 \<longleftrightarrow> 0 < InternalKeyCompare c x y"
  "InternalKeyCompare c y x = 0 \<longleftrightarrow> InternalKeyCompare c x y = 0"
  using internal_antisym [of y x] by (auto simp: sgn_if split: if_splits)

lemma internal_le_less_trans:
  assumes "InternalKeyCompare c x y \<le> 0" "InternalKeyCompare c y z < 0"
  shows "InternalKeyCompare c x z < 0"
proof (rule ccontr)
  assume "\<not> InternalKeyCompare c x z < 0"
  then have "InternalKeyCompare c z x \<le> 0" using internal_antisym [of z x] by (auto simp: sgn_if split: if_splits)
  then have "InternalKeyCompare c z y \<le> 0" using internal_trans assms(1) by blast
  then show False using internal_flip(1) [of y z] assms(2) by auto
qed

lemma internal_less_le_trans:
  assumes "InternalKeyCompare c x y < 0" "InternalKeyCompare c y z \<le> 0"
  shows "InternalKeyCompare c x z < 0"
proof (rule ccontr)
  assume "\<not> InternalKeyCompare c x z < 0"
  then have "InternalKeyCompare c z x \<le> 0" using internal_antisym [of z x] by (auto simp: sgn_if split: if_splits)
  then have "InternalKeyCompare c y x \<le> 0" using internal_trans assms(2) by blast
  then show False using internal_flip(1) [of x y] assms(1) by auto
qed

lemma internal_less_trans:
  assumes "InternalKeyCompare c x y < 0" "InternalKeyCompare c y z < 0"
  shows "InternalKeyCompare c x z < 0"
proof (rule ccontr)
  assume "\<not> InternalKeyCompare c x z < 0"
  then have "InternalKeyCompare c z x \<le> 0" using internal_antisym [of z x] by (auto simp: sgn_if split: if_splits)
  then have "InternalKeyCompare c y x \<le> 0" using internal_trans [of y z x] assms(2) by simp
  then show False using internal_antisym [of x y] assms(1) by (auto simp: sgn_if split: if_splits)
qed

lemma internal_separator:
  assumes "x \<in> has_trailer" "InternalKeyCompare c x y < 0"
  shows "InternalKeyCompare c x (InternalKeyFindShortestSeparator c x y) \<le> 0 \<and>
     InternalKeyCompare c (InternalKeyFindShortestSeparator c x y) y < 0"
proof -
  have self: "InternalKeyCompare c x x \<le> 0"
    using compare_refl by (simp add: InternalKeyCompare_le)
  show ?thesis
  proof (cases "InternalKeyFindShortestSeparator c x y = x")
    case True
    with self assms(2) show ?thesis by simp
  next
    case False
    then obtain sk short where sk: "TryDecodeInternalKey x = Some sk" "Compare c (view_user_key sk) short < 0"
      "InternalKeyFindShortestSeparator c x y = AppendMaxSeekTrailer short"
      "InternalKeyCompare c (AppendMaxSeekTrailer short) y < 0"
      by (auto simp: InternalKeyFindShortestSeparator_def CommitSeparatorBeforeLimit_def Let_def
          IsShorterAndGreaterUserKey_def split: option.splits if_splits)
    then have "first_user_key x = view_user_key sk"
      using EncodeInternalKeyTrusted_parts(2) by (auto simp: TryDecodeInternalKey_Some ParseInternalKey_Inr)
    with sk have "InternalKeyCompare c x (AppendMaxSeekTrailer short) < 0"
      by (simp add: InternalKeyCompare_less AppendMaxSeekTrailer_eq)
    with sk show ?thesis by simp
  qed
qed

lemma internal_successor: "InternalKeyCompare c x (InternalKeyFindShortSuccessor c x) \<le> 0"
proof (cases "InternalKeyFindShortSuccessor c x = x")
  case True
  with compare_refl show ?thesis by (simp add: InternalKeyCompare_le)
next
  case False
  then obtain v short where v: "TryDecodeInternalKey x = Some v" "Compare c (view_user_key v) short < 0"
    "InternalKeyFindShortSuccessor c x = AppendMaxSeekTrailer short"
    by (auto simp: InternalKeyFindShortSuccessor_def Let_def IsShorterAndGreaterUserKey_def
        split: option.splits if_splits)
  then have "first_user_key x = view_user_key v"
    using EncodeInternalKeyTrusted_parts(2) by (auto simp: TryDecodeInternalKey_Some ParseInternalKey_Inr)
  with v show ?thesis by (simp add: InternalKeyCompare_le AppendMaxSeekTrailer_eq)
qed

lemma internal_closed:
  assumes "x \<in> has_trailer"
  shows "InternalKeyFindShortestSeparator c x y \<in> has_trailer"
    and "InternalKeyFindShortSuccessor c x \<in> has_trailer"
  using assms
  by (auto simp: InternalKeyFindShortestSeparator_def InternalKeyFindShortSuccessor_def Let_def
      CommitSeparatorBeforeLimit_def AppendMaxSeekTrailer_eq split: option.splits)

text \<open>
  Where an entry lies relative to the seek target of a snapshot: it precedes the target exactly when
  its user key is smaller, or the user key is the same and the entry is newer than the snapshot.
\<close>

lemma entry_before_seek:
  assumes "s \<le> MaxSequenceNumber" "s' \<le> MaxSequenceNumber" "IsValidValueKind k"
  shows "InternalKeyCompare c (EncodeInternalKeyTrusted uk s k) (EncodeInternalKeyTrusted uk' s' SeekValueKind) < 0
     \<longleftrightarrow> Compare c uk uk' < 0 \<or> Compare c uk uk' = 0 \<and> s' < s"
  using assms
  by (auto simp: InternalKeyCompare_less PackInternalKeyTrailer_less SeekValueKind_def IsValidValueKind_def)

end

sublocale user_comparator_laws \<subseteq> internal: comparator_laws "InternalKeyComparator c" has_trailer
proof unfold_locales
  fix x :: bytes
  show "Compare (InternalKeyComparator c) x x = 0"
    using compare_refl by (simp add: InternalKeyCompare_eq_0)
qed (auto intro: internal_antisym internal_trans internal_successor internal_closed
    dest: internal_separator)

section \<open>Lookup keys hold one seek target in two forms\<close>

lemma LookupKey_data_write:
  "LookupKey_data (LookupKey_write k bs) = bs @ drop (length bs) (LookupKey_data k)"
  by (simp add: LookupKey_data_def LookupKey_write_def split: option.splits)

lemma LookupKey_write_sel [simp]:
  "lk_encoded_size (LookupKey_write k bs) = lk_encoded_size k"
  "lk_internal_key_offset (LookupKey_write k bs) = lk_internal_key_offset k"
  by (simp_all add: LookupKey_write_def split: option.splits)

lemma LookupKey_CreateTrusted_views:
  "LookupKey_memtable_key (LookupKey_CreateTrusted uk s) =
     EncodeVarintTrusted (of_nat (length uk + 8) :: u32) @ EncodeInternalKeyTrusted uk s SeekValueKind"
  "LookupKey_internal_key (LookupKey_CreateTrusted uk s) = EncodeInternalKeyTrusted uk s SeekValueKind"
  "LookupKey_user_key (LookupKey_CreateTrusted uk s) = uk"
proof -
  let ?n = "of_nat (length uk + 8) :: u32"
  have len: "VarintLength (ucast ?n) = length (EncodeVarintTrusted ?n)"
    unfolding VarintLength_def by (rule VarintLengthTrusted_length) simp_all
  show m: "LookupKey_memtable_key (LookupKey_CreateTrusted uk s) =
     EncodeVarintTrusted ?n @ EncodeInternalKeyTrusted uk s SeekValueKind"
    by (simp add: LookupKey_memtable_key_def LookupKey_CreateTrusted_def Let_def LookupKey_data_write
        LookupKey_New_def InternalKeyTrailerSize_def len del: of_nat_add)
  show i: "LookupKey_internal_key (LookupKey_CreateTrusted uk s) = EncodeInternalKeyTrusted uk s SeekValueKind"
    unfolding LookupKey_internal_key_def m
    by (simp add: LookupKey_CreateTrusted_def Let_def LookupKey_New_def InternalKeyTrailerSize_def len del: of_nat_add)
  show "LookupKey_user_key (LookupKey_CreateTrusted uk s) = uk"
    by (simp add: LookupKey_user_key_def i)
qed

lemma LookupKey_Reset_views:
  "LookupKey_internal_key (LookupKey_ResetToCanonicalEmpty k) = EncodeInternalKeyTrusted [] 0 SeekValueKind"
  "LookupKey_user_key (LookupKey_ResetToCanonicalEmpty k) = []"
proof -
  show i: "LookupKey_internal_key (LookupKey_ResetToCanonicalEmpty k) = EncodeInternalKeyTrusted [] 0 SeekValueKind"
    by (simp add: LookupKey_internal_key_def LookupKey_memtable_key_def LookupKey_ResetToCanonicalEmpty_def
        LookupKey_InitializeCanonicalEmpty_def LookupKey_data_def EncodeInternalKeyTrusted_def
        InternalKeyTrailerSize_def)
  show "LookupKey_user_key (LookupKey_ResetToCanonicalEmpty k) = []"
    by (simp add: LookupKey_user_key_def i)
qed

section \<open>Properties\<close>

text \<open>C11: Parsing characterises the encoding.  A byte string parses to a view exactly when it is the
  encoding of that view's user key, sequence and kind, with a sequence in range and a known kind; so
  encoding then parsing is the identity and no two views share an encoding.\<close>

theorem parse_internal_key_iff:
  "ParseInternalKey e = Inr v \<longleftrightarrow>
     e = EncodeInternalKeyTrusted (view_user_key v) (view_sequence v) (view_kind v) \<and>
     view_sequence v \<le> MaxSequenceNumber \<and> IsValidValueKind (view_kind v)"
  by (rule ParseInternalKey_Inr)

text \<open>C10: Internal keys order by user key ascending, then by sequence descending, then by kind
  descending, for every user comparator.\<close>

theorem internal_key_order:
  assumes "s \<le> MaxSequenceNumber" "s' \<le> MaxSequenceNumber"
  shows "Compare (InternalKeyComparator c) (EncodeInternalKeyTrusted uk s k) (EncodeInternalKeyTrusted uk' s' k') < 0 \<longleftrightarrow>
    Compare c uk uk' < 0 \<or>
    Compare c uk uk' = 0 \<and> (s' < s \<or> s' = s \<and> ValueKind_byte k' < ValueKind_byte k)"
  using assms by (simp add: InternalKeyCompare_less PackInternalKeyTrailer_less)

theorem internal_key_order_witness:
  "Compare (InternalKeyComparator BytewiseComparator) (EncodeInternalKeyTrusted [97] 7 Value)
     (EncodeInternalKeyTrusted [97] 5 Deletion) < 0"
  using internal_key_order [of 7 5 BytewiseComparator "[97]" Value "[97]" Deletion]
  by (simp add: MaxSequenceNumber_def bytewise.compare_refl)

text \<open>C9: The internal comparator keeps its contract over any lawful user comparator: it is a total
  preorder on keys with a trailer, and its separator and successor, built by shortening user keys and
  appending the greatest trailer, are sound.  Index blocks rely on this.\<close>

theorem internal_comparator_contract:
  assumes "user_comparator_laws c"
  shows "sgn (Compare (InternalKeyComparator c) y x) = - sgn (Compare (InternalKeyComparator c) x y) \<and>
    (Compare (InternalKeyComparator c) x y \<le> 0 \<longrightarrow> Compare (InternalKeyComparator c) y z \<le> 0 \<longrightarrow>
       Compare (InternalKeyComparator c) x z \<le> 0) \<and>
    (8 \<le> length x \<longrightarrow> Compare (InternalKeyComparator c) x y < 0 \<longrightarrow>
       Compare (InternalKeyComparator c) x (FindShortestSeparator (InternalKeyComparator c) x y) \<le> 0 \<and>
       Compare (InternalKeyComparator c) (FindShortestSeparator (InternalKeyComparator c) x y) y < 0) \<and>
    Compare (InternalKeyComparator c) x (FindShortSuccessor (InternalKeyComparator c) x) \<le> 0"
  using user_comparator_laws.internal_antisym [OF assms, of y x] user_comparator_laws.internal_trans [OF assms, of x y z]
    user_comparator_laws.internal_separator [OF assms, of x y] user_comparator_laws.internal_successor [OF assms, of x]
  by (simp add: has_trailer_def InternalKeyTrailerSize_def)

theorem internal_comparator_contract_witness:
  "Compare (InternalKeyComparator BytewiseComparator) (EncodeInternalKeyTrusted [97, 98] 3 Value)
     (FindShortSuccessor (InternalKeyComparator BytewiseComparator) (EncodeInternalKeyTrusted [97, 98] 3 Value)) \<le> 0"
  using internal_comparator_contract [OF bytewise.user_comparator_laws_axioms,
      where x = "EncodeInternalKeyTrusted [97, 98] 3 Value"] by simp

end
