(* ===== verification/Write_Batch.thy ===== *)
theory Write_Batch
  imports Internal_Key
begin

text \<open>
  Write batches: the encoded form of \<^verbatim>\<open>src/format/write_batch.{h,cc}\<close> (a fixed64 first sequence, a
  fixed32 record count and the records), its validating reader, and the public handle of
  \<^verbatim>\<open>src/api/write_batch.cc\<close>.
\<close>

section \<open>Encoded batches\<close>

type_synonym EncodedWriteBatch = bytes

definition WriteBatchHeaderSize :: nat where
  "WriteBatchHeaderSize = 12"

definition SequenceOffset :: nat where
  "SequenceOffset = 0"

definition CountOffset :: nat where
  "CountOffset = 8"

definition EncodedWriteBatch_New :: EncodedWriteBatch where
  "EncodedWriteBatch_New = replicate WriteBatchHeaderSize 0"

definition batch_sequence :: "EncodedWriteBatch \<Rightarrow> SequenceNumber" where
  "batch_sequence batch = DecodeFixedTrusted (take 8 batch)"

definition batch_count :: "EncodedWriteBatch \<Rightarrow> u32" where
  "batch_count batch = DecodeFixedTrusted (take 4 (drop 8 batch))"

definition SetSequence :: "EncodedWriteBatch \<Rightarrow> SequenceNumber \<Rightarrow> EncodedWriteBatch" where
  "SetSequence batch sequence = EncodeFixedTrusted sequence @ drop 8 batch"

definition SetCount :: "EncodedWriteBatch \<Rightarrow> u32 \<Rightarrow> EncodedWriteBatch" where
  "SetCount batch count = take 8 batch @ EncodeFixedTrusted count @ drop 12 batch"

definition EncodedRecordSize :: "ValueKind \<Rightarrow> bytes \<Rightarrow> bytes \<Rightarrow> nat" where
  "EncodedRecordSize kind key value =
     (let key_length = of_nat (length key) :: u32;
          value_length = of_nat (length value) :: u32
      in 1 + VarintLengthTrusted (ucast key_length) + length key +
         (if kind = Value then VarintLengthTrusted (ucast value_length) + length value else 0))"

definition EncodeTrustedBatchRecord :: "ValueKind \<Rightarrow> bytes \<Rightarrow> bytes \<Rightarrow> bytes" where
  "EncodeTrustedBatchRecord kind key value =
     ValueKind_byte kind # EncodeLengthPrefixedTrusted key @
     (if kind = Value then EncodeLengthPrefixedTrusted value else [])"

text \<open>The string grows by the computed record size and the record is written into the new space,
  so the first \<open>record_size\<close> bytes of the record are what the batch holds.\<close>

definition AppendRecord :: "EncodedWriteBatch \<Rightarrow> ValueKind \<Rightarrow> bytes \<Rightarrow> bytes \<Rightarrow> EncodedWriteBatch" where
  "AppendRecord batch kind key value =
     (let record_size = EncodedRecordSize kind key value;
          grown = batch @ take record_size (EncodeTrustedBatchRecord kind key value)
      in SetCount grown (batch_count grown + 1))"

definition Put :: "EncodedWriteBatch \<Rightarrow> bytes \<Rightarrow> bytes \<Rightarrow> EncodedWriteBatch" where
  "Put batch key value = AppendRecord batch Value key value"

definition Delete :: "EncodedWriteBatch \<Rightarrow> bytes \<Rightarrow> EncodedWriteBatch" where
  "Delete batch key = AppendRecord batch Deletion key []"

definition Append :: "EncodedWriteBatch \<Rightarrow> EncodedWriteBatch \<Rightarrow> EncodedWriteBatch" where
  "Append batch source =
     (let source_count = batch_count source
      in if source_count = 0 then batch
         else let grown = batch @ drop WriteBatchHeaderSize source
              in SetCount grown (batch_count grown + source_count))"

definition Clear :: "EncodedWriteBatch \<Rightarrow> EncodedWriteBatch" where
  "Clear batch = replicate WriteBatchHeaderSize 0"

text \<open>Move construction swaps with a fresh empty batch; move assignment does so through a
  temporary.  Both give the new value and the source that is left.\<close>

definition EncodedWriteBatch_move :: "EncodedWriteBatch \<Rightarrow> EncodedWriteBatch \<times> EncodedWriteBatch" where
  "EncodedWriteBatch_move source = (source, replicate WriteBatchHeaderSize 0)"

definition EncodedWriteBatch_move_assign ::
    "EncodedWriteBatch \<Rightarrow> EncodedWriteBatch \<Rightarrow> EncodedWriteBatch \<times> EncodedWriteBatch" where
  "EncodedWriteBatch_move_assign batch source =
     (let (replacement, emptied) = EncodedWriteBatch_move source in (replacement, emptied))"

section \<open>Validation and reading\<close>

definition ValidateBatchRecord :: "bytes \<Rightarrow> bytes result" where
  "ValidateBatchRecord remaining =
     (case ConsumeValueKindTrusted remaining of
        None \<Rightarrow> Inl (Error Corruption ''write batch count exceeds encoded records'')
      | Some (kind, rest) \<Rightarrow>
          if \<not> IsValidValueKind kind then Inl (Error Corruption ''write batch has an unknown value kind'')
          else bindR (ConsumeLengthPrefixed rest) (\<lambda>(key, rest').
               if kind = Value
               then bindR (ConsumeLengthPrefixed rest') (\<lambda>(value, rest''). Inr rest'')
               else Inr rest'))"

fun ValidateBatchRecordsLoop :: "nat \<Rightarrow> bytes \<Rightarrow> bytes result" where
  "ValidateBatchRecordsLoop 0 remaining = Inr remaining"
| "ValidateBatchRecordsLoop (Suc n) remaining =
     bindR (ValidateBatchRecord remaining) (ValidateBatchRecordsLoop n)"

definition ValidateBatchRecords :: "bytes \<Rightarrow> u32 \<Rightarrow> status" where
  "ValidateBatchRecords remaining count =
     bindR (ValidateBatchRecordsLoop (unat count) remaining) (\<lambda>rest.
       if rest \<noteq> [] then Inl (Error Corruption ''write batch has trailing bytes'') else Inr ())"

record WriteBatchEntry =
  entry_sequence :: SequenceNumber
  entry_kind :: ValueKind
  entry_key :: bytes
  entry_value :: bytes

record WriteBatchReader =
  wbr_remaining :: bytes
  wbr_sequence :: SequenceNumber
  wbr_count :: u32
  wbr_index :: u32

definition WriteBatchReader_Open :: "bytes \<Rightarrow> WriteBatchReader result" where
  "WriteBatchReader_Open encoded =
     (if length encoded < WriteBatchHeaderSize
      then Inl (Error Corruption ''write batch is shorter than its header'')
      else let sequence = DecodeFixed64 (take 8 (drop SequenceOffset encoded));
               count = DecodeFixed32 (take 4 (drop CountOffset encoded))
           in bindR (ValidateBatchRecords (drop WriteBatchHeaderSize encoded) count) (\<lambda>_.
              Inr \<lparr>wbr_remaining = drop WriteBatchHeaderSize encoded, wbr_sequence = sequence,
                   wbr_count = count, wbr_index = 0\<rparr>))"

definition WriteBatchReader_OpenTrusted :: "EncodedWriteBatch \<Rightarrow> WriteBatchReader" where
  "WriteBatchReader_OpenTrusted batch =
     \<lparr>wbr_remaining = drop WriteBatchHeaderSize batch, wbr_sequence = batch_sequence batch,
      wbr_count = batch_count batch, wbr_index = 0\<rparr>"

text \<open>\<^verbatim>\<open>ConsumeEntry\<close> reads with the trusted decoders; \<open>None\<close> is a read outside the batch.\<close>

definition ConsumeEntry :: "WriteBatchReader \<Rightarrow> (WriteBatchEntry \<times> WriteBatchReader) option" where
  "ConsumeEntry reader =
     (case ConsumeValueKindTrusted (wbr_remaining reader) of
        None \<Rightarrow> None
      | Some (kind, rest) \<Rightarrow>
          (case ConsumeLengthPrefixedTrusted rest of
             None \<Rightarrow> None
           | Some (key, rest') \<Rightarrow>
               (case (if kind = Value then ConsumeLengthPrefixedTrusted rest' else Some ([], rest')) of
                  None \<Rightarrow> None
                | Some (value, rest'') \<Rightarrow>
                    Some (\<lparr>entry_sequence = wbr_sequence reader + ucast (wbr_index reader),
                           entry_kind = kind, entry_key = key, entry_value = value\<rparr>,
                          reader\<lparr>wbr_remaining := rest'', wbr_index := wbr_index reader + 1\<rparr>))))"

definition WriteBatchReader_Next ::
    "WriteBatchReader \<Rightarrow> (WriteBatchEntry option \<times> WriteBatchReader) option" where
  "WriteBatchReader_Next reader =
     (if wbr_index reader = wbr_count reader then Some (None, reader)
      else map_option (\<lambda>(entry, reader'). (Some entry, reader')) (ConsumeEntry reader))"

lemma ConsumeEntry_index:
  "ConsumeEntry reader = Some (entry, reader') \<Longrightarrow>
     wbr_index reader' = wbr_index reader + 1 \<and> wbr_count reader' = wbr_count reader"
  by (auto simp: ConsumeEntry_def split: option.splits prod.splits)

text \<open>\<^verbatim>\<open>ForEachRemaining\<close> hands every remaining entry to its consumer; the model returns them in
  the order of the calls.\<close>

function ForEachRemaining :: "WriteBatchReader \<Rightarrow> WriteBatchEntry list option" where
  "ForEachRemaining reader =
     (if wbr_index reader = wbr_count reader then Some []
      else case ConsumeEntry reader of
        None \<Rightarrow> None
      | Some (entry, reader') \<Rightarrow> map_option ((#) entry) (ForEachRemaining reader'))"
  by pat_completeness auto
termination
proof (relation "measure (\<lambda>reader. unat (wbr_count reader - wbr_index reader))", goal_cases)
  case (2 reader x entry reader')
  then have "wbr_index reader' = wbr_index reader + 1" "wbr_count reader' = wbr_count reader"
    using ConsumeEntry_index by auto
  moreover from 2 have "unat (wbr_count reader - wbr_index reader - 1) < unat (wbr_count reader - wbr_index reader)"
    by (intro measure_unat) simp
  ultimately show ?case by (simp add: diff_diff_eq)
qed simp

declare ForEachRemaining.simps [simp del]

section \<open>The public handle\<close>

text \<open>\<open>None\<close> is a batch that was moved from.\<close>

type_synonym WriteBatch = "EncodedWriteBatch option"

definition MovedFromBatch :: status where
  "MovedFromBatch = Inl (Error InvalidArgument ''the write batch was moved from'')"

definition WriteBatch_New :: WriteBatch where
  "WriteBatch_New = Some EncodedWriteBatch_New"

definition WriteBatch_Put :: "WriteBatch \<Rightarrow> bytes \<Rightarrow> bytes \<Rightarrow> status \<times> WriteBatch" where
  "WriteBatch_Put wb key value =
     (case wb of None \<Rightarrow> (MovedFromBatch, None) | Some batch \<Rightarrow> (Inr (), Some (Put batch key value)))"

definition WriteBatch_Delete :: "WriteBatch \<Rightarrow> bytes \<Rightarrow> status \<times> WriteBatch" where
  "WriteBatch_Delete wb key =
     (case wb of None \<Rightarrow> (MovedFromBatch, None) | Some batch \<Rightarrow> (Inr (), Some (Delete batch key)))"

definition WriteBatch_Append :: "WriteBatch \<Rightarrow> WriteBatch \<Rightarrow> status \<times> WriteBatch" where
  "WriteBatch_Append wb source =
     (case (wb, source) of
        (Some batch, Some other) \<Rightarrow> (Inr (), Some (Append batch other))
      | _ \<Rightarrow> (MovedFromBatch, wb))"

definition WriteBatch_Clear :: "WriteBatch \<Rightarrow> WriteBatch" where
  "WriteBatch_Clear wb = map_option Clear wb"

definition WriteBatch_ApproximateSize :: "WriteBatch \<Rightarrow> nat" where
  "WriteBatch_ApproximateSize wb = (case wb of None \<Rightarrow> 0 | Some batch \<Rightarrow> length batch)"

section \<open>What a batch denotes\<close>

text \<open>A batch denotes the first sequence number and the ordered list of its operations.\<close>

datatype batch_op = PutOp bytes bytes | DeleteOp bytes

fun op_kind :: "batch_op \<Rightarrow> ValueKind" where
  "op_kind (PutOp k v) = Value"
| "op_kind (DeleteOp k) = Deletion"

fun op_key :: "batch_op \<Rightarrow> bytes" where
  "op_key (PutOp k v) = k"
| "op_key (DeleteOp k) = k"

fun op_value :: "batch_op \<Rightarrow> bytes" where
  "op_value (PutOp k v) = v"
| "op_value (DeleteOp k) = []"

definition op_record :: "batch_op \<Rightarrow> bytes" where
  "op_record op = EncodeTrustedBatchRecord (op_kind op) (op_key op) (op_value op)"

definition op_fits :: "batch_op \<Rightarrow> bool" where
  "op_fits op \<longleftrightarrow> length (op_key op) < 2 ^ 32 \<and> length (op_value op) < 2 ^ 32"

definition batch_of :: "SequenceNumber \<Rightarrow> batch_op list \<Rightarrow> EncodedWriteBatch" where
  "batch_of sequence ops =
     EncodeFixedTrusted sequence @ EncodeFixedTrusted (of_nat (length ops) :: u32) @ concat (map op_record ops)"

text \<open>The entries a reader is to deliver: each operation takes the next sequence number.\<close>

fun op_entries :: "SequenceNumber \<Rightarrow> batch_op list \<Rightarrow> WriteBatchEntry list" where
  "op_entries sequence [] = []"
| "op_entries sequence (op # ops) =
     \<lparr>entry_sequence = sequence, entry_kind = op_kind op, entry_key = op_key op, entry_value = op_value op\<rparr>
     # op_entries (sequence + 1) ops"

lemma EncodedRecordSize_length [codec_simps]:
  "EncodedRecordSize kind key val = length (EncodeTrustedBatchRecord kind key val)"
  by (simp add: EncodedRecordSize_def EncodeTrustedBatchRecord_def EncodeLengthPrefixedTrusted_def
      VarintLengthTrusted_length Let_def)

lemma batch_of_header [simp]:
  "batch_sequence (batch_of s ops) = s"
  "batch_count (batch_of s ops) = of_nat (length ops)"
  "batch_count (batch_of s ops @ extra) = of_nat (length ops)"
  "drop 12 (batch_of s ops) = concat (map op_record ops)"
  by (simp_all add: batch_of_def batch_sequence_def batch_count_def)

lemma SetCount_batch_of:
  "SetCount (batch_of s ops @ extra) n = EncodeFixedTrusted s @ EncodeFixedTrusted n @ concat (map op_record ops) @ extra"
  by (simp add: batch_of_def SetCount_def)

lemma EncodeFixedTrusted_0: "EncodeFixedTrusted (0 :: 'a::len word) = replicate (LENGTH('a) div 8) 0"
  by (simp add: EncodeFixedTrusted_def map_replicate_const)

lemma zero_header: "replicate 12 0 = batch_of 0 []"
  by (simp add: batch_of_def EncodeFixedTrusted_0 flip: replicate_add)

lemma New_batch_of: "EncodedWriteBatch_New = batch_of 0 []"
  by (simp add: EncodedWriteBatch_New_def WriteBatchHeaderSize_def zero_header)

lemma AppendRecord_batch_of:
  "AppendRecord (batch_of s ops) (op_kind op) (op_key op) (op_value op) = batch_of s (ops @ [op])"
  by (simp add: AppendRecord_def EncodedRecordSize_length SetCount_batch_of)
    (simp add: batch_of_def op_record_def add.commute)

lemma Put_batch_of: "Put (batch_of s ops) k v = batch_of s (ops @ [PutOp k v])"
  using AppendRecord_batch_of [of s ops "PutOp k v"] by (simp add: Put_def)

lemma Delete_batch_of: "Delete (batch_of s ops) k = batch_of s (ops @ [DeleteOp k])"
  using AppendRecord_batch_of [of s ops "DeleteOp k"] by (simp add: Delete_def)

lemma SetSequence_batch_of: "SetSequence (batch_of s ops) s' = batch_of s' ops"
  by (simp add: SetSequence_def batch_of_def)

text \<open>The guard of \<^verbatim>\<open>Append\<close> looks at the count field, which wraps at \<open>2 ^ 32\<close> records.\<close>

lemma Append_batch_of:
  assumes "length ops' < 2 ^ 32"
  shows "Append (batch_of s ops) (batch_of s' ops') = batch_of s (ops @ ops')"
proof (cases "ops' = []")
  case True
  then show ?thesis by (simp add: Append_def)
next
  case False
  then have "unat (of_nat (length ops') :: u32) \<noteq> 0"
    using assms by (simp add: unat_of_nat)
  then have "(of_nat (length ops') :: u32) \<noteq> 0" by auto
  then show ?thesis
    by (simp add: Append_def WriteBatchHeaderSize_def SetCount_batch_of) (simp add: batch_of_def)
qed

section \<open>Reading back what was written\<close>

lemma EncodeTrustedBatchRecord_op:
  "op_record op @ rest = ValueKind_byte (op_kind op) # EncodeLengthPrefixedTrusted (op_key op) @
     (if op_kind op = Value then EncodeLengthPrefixedTrusted (op_value op) else []) @ rest"
  by (simp add: op_record_def EncodeTrustedBatchRecord_def)

lemma op_kind_valid [simp]: "IsValidValueKind (op_kind op)"
  by (cases op) simp_all

lemma ConsumeValueKindTrusted_op [simp]:
  "ConsumeValueKindTrusted (ValueKind_byte (op_kind op) # rest) = Some (op_kind op, rest)"
  by (simp add: ConsumeValueKindTrusted_def DecodeValueKind_ValueKind_byte)

lemma ValidateBatchRecord_op [codec_simps]:
  "op_fits op \<Longrightarrow> ValidateBatchRecord (op_record op @ rest) = Inr rest"
  by (auto simp: EncodeTrustedBatchRecord_op ValidateBatchRecord_def op_fits_def codec_simps)

lemma ValidateBatchRecordsLoop_ops:
  "\<forall>op \<in> set ops. op_fits op \<Longrightarrow>
     ValidateBatchRecordsLoop (length ops) (concat (map op_record ops) @ rest) = Inr rest"
  by (induction ops) (simp_all add: codec_simps)

lemma ConsumeEntry_op:
  assumes "op_fits op" "wbr_remaining reader = op_record op @ rest"
  shows "ConsumeEntry reader =
     Some (\<lparr>entry_sequence = wbr_sequence reader + ucast (wbr_index reader), entry_kind = op_kind op,
            entry_key = op_key op, entry_value = op_value op\<rparr>,
           reader\<lparr>wbr_remaining := rest, wbr_index := wbr_index reader + 1\<rparr>)"
  using assms
  by (cases op) (simp_all add: ConsumeEntry_def EncodeTrustedBatchRecord_op op_fits_def codec_simps
      ConsumeValueKindTrusted_def DecodeValueKind_def)

lemma ForEachRemaining_ops:
  assumes "\<forall>op \<in> set ops. op_fits op" "wbr_remaining reader = concat (map op_record ops)"
    "wbr_count reader = wbr_index reader + of_nat (length ops)"
    "unat (wbr_index reader) + length ops < 2 ^ 32"
  shows "ForEachRemaining reader =
     Some (op_entries (wbr_sequence reader + ucast (wbr_index reader)) ops)"
  using assms
proof (induction ops arbitrary: reader)
  case Nil
  then show ?case by (simp add: ForEachRemaining.simps [of reader])
next
  case (Cons op ops)
  have "unat (of_nat (Suc (length ops)) :: u32) = Suc (length ops)"
    using Cons.prems(4) by (subst unat_of_nat) simp
  then have "(of_nat (Suc (length ops)) :: u32) \<noteq> 0" by (metis nat.distinct(1) unat_0)
  then have ne: "wbr_index reader \<noteq> wbr_count reader" using Cons.prems(3) by simp
  let ?reader = "reader\<lparr>wbr_remaining := concat (map op_record ops), wbr_index := wbr_index reader + 1\<rparr>"
  have suc: "unat (wbr_index reader + 1) = unat (wbr_index reader) + 1"
    using Cons.prems(4) by (simp add: unat_word_ariths)
  have "ucast (wbr_index reader + 1) = (ucast (wbr_index reader) + 1 :: u64)"
    using suc unsigned_less [of "wbr_index reader + 1", where ?'a = nat]
      unsigned_less [of "wbr_index reader", where ?'a = nat]
    by (simp add: word_unat_eq_iff unsigned_ucast_eq unat_word_ariths take_bit_nat_eq_self)
  then have "ForEachRemaining ?reader =
      Some (op_entries (wbr_sequence reader + ucast (wbr_index reader) + 1) ops)"
    using Cons.IH [of ?reader] Cons.prems suc by (simp add: add.assoc)
  with ne Cons.prems show ?case
    by (simp add: ForEachRemaining.simps [of reader] ConsumeEntry_op [of op reader "concat (map op_record ops)"])
qed

lemma WriteBatchReader_Open_batch_of:
  assumes "\<forall>op \<in> set ops. op_fits op" "length ops < 2 ^ 32"
  shows "WriteBatchReader_Open (batch_of s ops) = Inr (WriteBatchReader_OpenTrusted (batch_of s ops))"
proof -
  have "unat (of_nat (length ops) :: u32) = length ops"
    using assms(2) by (subst unat_of_nat) simp
  then have "ValidateBatchRecords (concat (map op_record ops)) (of_nat (length ops)) = Inr ()"
    using ValidateBatchRecordsLoop_ops [OF assms(1), of "[]"] by (simp add: ValidateBatchRecords_def)
  moreover have "12 \<le> length (batch_of s ops)" by (simp add: batch_of_def)
  moreover have "DecodeFixed64 (take 8 (batch_of s ops)) = s"
    "DecodeFixed32 (take 4 (drop 8 (batch_of s ops))) = of_nat (length ops)"
    by (simp_all add: batch_of_def DecodeFixed64_def DecodeFixed32_def)
  ultimately show ?thesis
    by (simp add: WriteBatchReader_Open_def WriteBatchReader_OpenTrusted_def WriteBatchHeaderSize_def
        SequenceOffset_def CountOffset_def Let_def)
qed

lemma ForEachRemaining_batch_of:
  assumes "\<forall>op \<in> set ops. op_fits op" "length ops < 2 ^ 32"
  shows "ForEachRemaining (WriteBatchReader_OpenTrusted (batch_of s ops)) = Some (op_entries s ops)"
  using assms ForEachRemaining_ops [of ops "WriteBatchReader_OpenTrusted (batch_of s ops)"]
  by (simp add: WriteBatchReader_OpenTrusted_def WriteBatchHeaderSize_def)

section \<open>A validated batch is read in bounds\<close>

lemma ValidateBatchRecord_ConsumeEntry:
  assumes "ValidateBatchRecord (wbr_remaining reader) = Inr rest"
  shows "\<exists>entry. ConsumeEntry reader =
       Some (entry, reader\<lparr>wbr_remaining := rest, wbr_index := wbr_index reader + 1\<rparr>) \<and>
     IsValidValueKind (entry_kind entry) \<and>
     entry_sequence entry = wbr_sequence reader + ucast (wbr_index reader)"
  using assms
  by (auto simp: ValidateBatchRecord_def ConsumeEntry_def bindR_eq_Inr
      split: option.splits prod.splits if_splits dest!: ConsumeLengthPrefixedTrusted_checked)

lemma ValidateBatchRecordsLoop_ForEachRemaining:
  assumes "ValidateBatchRecordsLoop n (wbr_remaining reader) = Inr []"
    "wbr_count reader = wbr_index reader + of_nat n" "n < 2 ^ 32"
  shows "\<exists>entries. ForEachRemaining reader = Some entries \<and> length entries = n \<and>
     (\<forall>entry \<in> set entries. IsValidValueKind (entry_kind entry))"
  using assms
proof (induction n arbitrary: reader)
  case 0
  then show ?case by (simp add: ForEachRemaining.simps [of reader])
next
  case (Suc n)
  from Suc.prems(1) obtain rest where rest: "ValidateBatchRecord (wbr_remaining reader) = Inr rest"
    "ValidateBatchRecordsLoop n rest = Inr []"
    by (auto simp: bindR_eq_Inr)
  let ?reader = "reader\<lparr>wbr_remaining := rest, wbr_index := wbr_index reader + 1\<rparr>"
  from ValidateBatchRecord_ConsumeEntry [OF rest(1)] obtain entry where
    entry: "ConsumeEntry reader = Some (entry, ?reader)" "IsValidValueKind (entry_kind entry)"
    by blast
  have "unat (of_nat (Suc n) :: u32) = Suc n"
    using Suc.prems(3) by (subst unat_of_nat) simp
  then have "(of_nat (Suc n) :: u32) \<noteq> 0" by (metis nat.distinct(1) unat_0)
  then have ne: "wbr_index reader \<noteq> wbr_count reader" using Suc.prems(2) by simp
  obtain entries where "ForEachRemaining ?reader = Some entries" "length entries = n"
    "\<forall>entry \<in> set entries. IsValidValueKind (entry_kind entry)"
    using Suc.IH [of ?reader] Suc.prems rest(2) by (auto simp: add.assoc)
  with entry ne show ?case by (simp add: ForEachRemaining.simps [of reader])
qed

lemma WriteBatchReader_Open_safe:
  assumes "WriteBatchReader_Open e = Inr reader"
  shows "\<exists>entries. ForEachRemaining reader = Some entries \<and> length entries = unat (wbr_count reader) \<and>
     (\<forall>entry \<in> set entries. IsValidValueKind (entry_kind entry))"
proof -
  from assms have "ValidateBatchRecords (wbr_remaining reader) (wbr_count reader) = Inr ()"
    and index: "wbr_index reader = 0"
    by (auto simp: WriteBatchReader_Open_def bindR_eq_Inr Let_def split: if_splits)
  then have "ValidateBatchRecordsLoop (unat (wbr_count reader)) (wbr_remaining reader) = Inr []"
    by (auto simp: ValidateBatchRecords_def bindR_eq_Inr split: if_splits)
  from ValidateBatchRecordsLoop_ForEachRemaining [OF this] index
    unsigned_less [of "wbr_count reader", where ?'a = nat]
  show ?thesis by simp
qed

section \<open>Properties\<close>

text \<open>C8: A write batch refines a list of operations.  The encoded batch of an operation list is the
  abstraction: a new batch is the empty list, \<open>Put\<close> and \<open>Delete\<close> append one operation, \<open>Append\<close>
  concatenates, \<open>SetSequence\<close> changes the base sequence only, and the count field always is the
  number of operations.\<close>

theorem write_batch_refinement:
  assumes "length ops' < 2 ^ 32"
  shows "EncodedWriteBatch_New = batch_of 0 [] \<and>
    Put (batch_of s ops) k v = batch_of s (ops @ [PutOp k v]) \<and>
    Delete (batch_of s ops) k = batch_of s (ops @ [DeleteOp k]) \<and>
    Append (batch_of s ops) (batch_of s' ops') = batch_of s (ops @ ops') \<and>
    SetSequence (batch_of s ops) s' = batch_of s' ops \<and>
    batch_sequence (batch_of s ops) = s \<and> batch_count (batch_of s ops) = of_nat (length ops)"
  using Append_batch_of [OF assms]
  by (simp add: New_batch_of Put_batch_of Delete_batch_of SetSequence_batch_of)

theorem write_batch_refinement_witness:
  "Append (Put EncodedWriteBatch_New [1] [2]) (batch_of 9 [DeleteOp [3]]) = batch_of 0 [PutOp [1] [2], DeleteOp [3]]"
  using write_batch_refinement [of "[DeleteOp [3]]" 0 "[PutOp [1] [2]]" "[1]" "[2]" 9]
    write_batch_refinement [of "[]" 0 "[]" "[1]" "[2]" 9] by auto

text \<open>C6: Batch round trip.  A batch built from operations whose keys and values fit their length fields
  passes validation, and reading it delivers the operations in order with consecutive sequence
  numbers from the base.\<close>

theorem write_batch_roundtrip:
  assumes "\<forall>op \<in> set ops. op_fits op" "length ops < 2 ^ 32"
  shows "WriteBatchReader_Open (batch_of s ops) = Inr (WriteBatchReader_OpenTrusted (batch_of s ops)) \<and>
    ForEachRemaining (WriteBatchReader_OpenTrusted (batch_of s ops)) = Some (op_entries s ops)"
  using WriteBatchReader_Open_batch_of [OF assms] ForEachRemaining_batch_of [OF assms] by simp

theorem write_batch_roundtrip_witness:
  "ForEachRemaining (WriteBatchReader_OpenTrusted (batch_of 7 [PutOp [1] [2, 3], DeleteOp [4]])) =
     Some (op_entries 7 [PutOp [1] [2, 3], DeleteOp [4]])"
  using write_batch_roundtrip [of "[PutOp [1] [2, 3], DeleteOp [4]]" 7] by (simp add: op_fits_def)

text \<open>C7: A validated batch is read in bounds.  Whatever bytes \<open>Open\<close> accepts, the reader without bounds
  checks then delivers exactly as many entries as the header counts, each of a known kind, and never
  leaves the buffer.\<close>

theorem write_batch_open_safe:
  assumes "WriteBatchReader_Open e = Inr reader"
  shows "\<exists>entries. ForEachRemaining reader = Some entries \<and> length entries = unat (wbr_count reader) \<and>
     (\<forall>entry \<in> set entries. IsValidValueKind (entry_kind entry))"
  using assms by (rule WriteBatchReader_Open_safe)

theorem write_batch_open_safe_witness:
  "\<exists>entries. ForEachRemaining (WriteBatchReader_OpenTrusted (batch_of 3 [PutOp [9] [8]])) = Some entries \<and>
     length entries = unat (wbr_count (WriteBatchReader_OpenTrusted (batch_of 3 [PutOp [9] [8]])))"
proof -
  have "WriteBatchReader_Open (batch_of 3 [PutOp [9] [8]]) = Inr (WriteBatchReader_OpenTrusted (batch_of 3 [PutOp [9] [8]]))"
    by (rule WriteBatchReader_Open_batch_of) (simp_all add: op_fits_def)
  from write_batch_open_safe [OF this] show ?thesis by blast
qed

end
