(* ===== verification/Version_Edit.thy ===== *)
theory Version_Edit
  imports Internal_Key
begin

text \<open>
  MANIFEST records (\<^verbatim>\<open>src/metadata/version_edit.{h,cc}\<close>): an edit is a set of counter assignments, compaction
  pointers, and added and removed table files, stored as tagged fields.
\<close>

section \<open>Edits\<close>

definition NumLevels :: u32 where
  "NumLevels = 7"

text \<open>\<open>fm_allowed_seeks\<close> is a runtime budget that is not stored.\<close>

record FileMetadata =
  fm_number :: u64
  fm_file_size :: u64
  fm_smallest :: InternalKey
  fm_largest :: InternalKey
  fm_allowed_seeks :: int

record CompactPointer =
  cp_level :: u32
  cp_key :: InternalKey

datatype DeletedFile = DeletedFile (df_level: u32) (df_number: u64)

text \<open>Removed files order by level, then by number, as the defaulted comparison of the source.\<close>

instantiation DeletedFile :: linorder
begin

definition less_eq_DeletedFile :: "DeletedFile \<Rightarrow> DeletedFile \<Rightarrow> bool" where
  "x \<le> y \<longleftrightarrow> df_level x < df_level y \<or> df_level x = df_level y \<and> df_number x \<le> df_number y"

definition less_DeletedFile :: "DeletedFile \<Rightarrow> DeletedFile \<Rightarrow> bool" where
  "x < y \<longleftrightarrow> df_level x < df_level y \<or> df_level x = df_level y \<and> df_number x < df_number y"

instance
  by standard
    (auto simp: less_eq_DeletedFile_def less_DeletedFile_def intro: DeletedFile.expand)

end

record NewFile =
  nf_level :: u32
  nf_file :: FileMetadata

text \<open>The ordered set of removed files is its sorted list.\<close>

record VersionEdit =
  ve_comparator_name :: "bytes option"
  ve_log_number :: "u64 option"
  ve_prev_log_number :: "u64 option"
  ve_next_file_number :: "u64 option"
  ve_last_sequence :: "SequenceNumber option"
  ve_compact_pointers :: "CompactPointer list"
  ve_deleted_files :: "DeletedFile list"
  ve_new_files :: "NewFile list"

definition VersionEdit_New :: VersionEdit where
  "VersionEdit_New =
     \<lparr>ve_comparator_name = None, ve_log_number = None, ve_prev_log_number = None, ve_next_file_number = None,
      ve_last_sequence = None, ve_compact_pointers = [], ve_deleted_files = [], ve_new_files = []\<rparr>"

definition IsValidInternalKey :: "InternalKey \<Rightarrow> bool" where
  "IsValidInternalKey key \<longleftrightarrow> has_value (ParseInternalKey (ik_encoded key))"

definition SetComparatorName :: "VersionEdit \<Rightarrow> bytes \<Rightarrow> VersionEdit" where
  "SetComparatorName edit name = edit\<lparr>ve_comparator_name := Some name\<rparr>"

definition SetLogNumber :: "VersionEdit \<Rightarrow> u64 \<Rightarrow> VersionEdit" where
  "SetLogNumber edit number = edit\<lparr>ve_log_number := Some number\<rparr>"

definition SetPrevLogNumber :: "VersionEdit \<Rightarrow> u64 \<Rightarrow> VersionEdit" where
  "SetPrevLogNumber edit number = edit\<lparr>ve_prev_log_number := Some number\<rparr>"

definition SetNextFileNumber :: "VersionEdit \<Rightarrow> u64 \<Rightarrow> VersionEdit result" where
  "SetNextFileNumber edit number =
     (if number = 0 then Inl (Error InvalidArgument ''next file number must be nonzero'')
      else Inr (edit\<lparr>ve_next_file_number := Some number\<rparr>))"

definition SetLastSequence :: "VersionEdit \<Rightarrow> SequenceNumber \<Rightarrow> VersionEdit result" where
  "SetLastSequence edit sequence =
     (if sequence > MaxSequenceNumber then Inl (Error InvalidArgument ''last sequence exceeds 56 bits'')
      else Inr (edit\<lparr>ve_last_sequence := Some sequence\<rparr>))"

definition AddCompactPointer :: "VersionEdit \<Rightarrow> u32 \<Rightarrow> InternalKey \<Rightarrow> VersionEdit result" where
  "AddCompactPointer edit level key =
     (if level \<ge> NumLevels then Inl (Error InvalidArgument ''compact pointer level is out of range'')
      else if \<not> IsValidInternalKey key then Inl (Error InvalidArgument ''compact pointer key is malformed'')
      else Inr (edit\<lparr>ve_compact_pointers := ve_compact_pointers edit @ [\<lparr>cp_level = level, cp_key = key\<rparr>]\<rparr>))"

definition AddFile :: "VersionEdit \<Rightarrow> u32 \<Rightarrow> FileMetadata \<Rightarrow> VersionEdit result" where
  "AddFile edit level file =
     (if level \<ge> NumLevels then Inl (Error InvalidArgument ''new file level is out of range'')
      else if fm_number file = 0 then Inl (Error InvalidArgument ''new file number must be nonzero'')
      else if \<not> IsValidInternalKey (fm_smallest file) \<or> \<not> IsValidInternalKey (fm_largest file)
      then Inl (Error InvalidArgument ''new file key is malformed'')
      else Inr (edit\<lparr>ve_new_files := ve_new_files edit @ [\<lparr>nf_level = level, nf_file = file\<rparr>]\<rparr>))"

definition RemoveFile :: "VersionEdit \<Rightarrow> u32 \<Rightarrow> u64 \<Rightarrow> VersionEdit result" where
  "RemoveFile edit level number =
     (if level \<ge> NumLevels then Inl (Error InvalidArgument ''deleted file level is out of range'')
      else if number = 0 then Inl (Error InvalidArgument ''deleted file number must be nonzero'')
      else Inr (edit\<lparr>ve_deleted_files := insort_insert (DeletedFile level number) (ve_deleted_files edit)\<rparr>))"

section \<open>Encoding\<close>

datatype Tag = TagComparator | TagLogNumber | TagNextFileNumber | TagLastSequence | TagCompactPointer
  | TagDeletedFile | TagNewFile | TagPrevLogNumber

definition Tag_number :: "Tag \<Rightarrow> u32" where
  "Tag_number tag =
     (case tag of TagComparator \<Rightarrow> 1 | TagLogNumber \<Rightarrow> 2 | TagNextFileNumber \<Rightarrow> 3 | TagLastSequence \<Rightarrow> 4
      | TagCompactPointer \<Rightarrow> 5 | TagDeletedFile \<Rightarrow> 6 | TagNewFile \<Rightarrow> 7 | TagPrevLogNumber \<Rightarrow> 9)"

definition AppendTag :: "bytes \<Rightarrow> Tag \<Rightarrow> bytes" where
  "AppendTag out tag = AppendVarint32 out (Tag_number tag)"

definition AppendNumberField :: "bytes \<Rightarrow> Tag \<Rightarrow> u64 option \<Rightarrow> bytes" where
  "AppendNumberField out tag number =
     (case number of None \<Rightarrow> out | Some n \<Rightarrow> AppendVarint64 (AppendTag out tag) n)"

definition AppendField :: "bytes \<Rightarrow> bytes \<Rightarrow> bytes" where
  "AppendField out val = AppendLengthPrefixed out val"

definition AppendCompactPointer :: "bytes \<Rightarrow> CompactPointer \<Rightarrow> bytes" where
  "AppendCompactPointer out pointer =
     AppendField (AppendVarint32 (AppendTag out TagCompactPointer) (cp_level pointer)) (ik_encoded (cp_key pointer))"

definition AppendDeletedFile :: "bytes \<Rightarrow> DeletedFile \<Rightarrow> bytes" where
  "AppendDeletedFile out file =
     AppendVarint64 (AppendVarint32 (AppendTag out TagDeletedFile) (df_level file)) (df_number file)"

definition AppendNewFile :: "bytes \<Rightarrow> NewFile \<Rightarrow> bytes" where
  "AppendNewFile out entry =
     (let out1 = AppendVarint32 (AppendTag out TagNewFile) (nf_level entry);
          out2 = AppendVarint64 out1 (fm_number (nf_file entry));
          out3 = AppendVarint64 out2 (fm_file_size (nf_file entry));
          out4 = AppendField out3 (ik_encoded (fm_smallest (nf_file entry)))
      in AppendField out4 (ik_encoded (fm_largest (nf_file entry))))"

definition VersionEdit_Encode :: "VersionEdit \<Rightarrow> bytes" where
  "VersionEdit_Encode edit =
     (let out1 = (case ve_comparator_name edit of
                    None \<Rightarrow> [] | Some name \<Rightarrow> AppendField (AppendTag [] TagComparator) name);
          out2 = AppendNumberField out1 TagLogNumber (ve_log_number edit);
          out3 = AppendNumberField out2 TagPrevLogNumber (ve_prev_log_number edit);
          out4 = AppendNumberField out3 TagNextFileNumber (ve_next_file_number edit);
          out5 = AppendNumberField out4 TagLastSequence (ve_last_sequence edit);
          out6 = foldl AppendCompactPointer out5 (ve_compact_pointers edit);
          out7 = foldl AppendDeletedFile out6 (ve_deleted_files edit)
      in foldl AppendNewFile out7 (ve_new_files edit))"

section \<open>Decoding\<close>

definition Malformed :: "string \<Rightarrow> Error" where
  "Malformed field = Error Corruption (''malformed version edit '' @ field)"

definition ReadNumber :: "bytes \<Rightarrow> (u64 \<times> bytes) option" where
  "ReadNumber input = (case ConsumeVarint64 input of Inl _ \<Rightarrow> None | Inr r \<Rightarrow> Some r)"

definition ReadFileNumber :: "bytes \<Rightarrow> (u64 \<times> bytes) option" where
  "ReadFileNumber input =
     (case ReadNumber input of None \<Rightarrow> None | Some (number, rest) \<Rightarrow> if number \<noteq> 0 then Some (number, rest) else None)"

definition ReadLevel :: "bytes \<Rightarrow> (u32 \<times> bytes) option" where
  "ReadLevel input =
     (case ConsumeVarint32 input of
        Inl _ \<Rightarrow> None | Inr (level, rest) \<Rightarrow> if level \<ge> NumLevels then None else Some (level, rest))"

definition ReadInternalKey :: "bytes \<Rightarrow> (InternalKey \<times> bytes) option" where
  "ReadInternalKey input =
     (case ConsumeLengthPrefixed input of
        Inl _ \<Rightarrow> None
      | Inr (encoded, rest) \<Rightarrow> (case InternalKey_Decode encoded of Inl _ \<Rightarrow> None | Inr key \<Rightarrow> Some (key, rest)))"

definition DecodeCompactPointer :: "VersionEdit \<Rightarrow> bytes \<Rightarrow> (VersionEdit \<times> bytes) result" where
  "DecodeCompactPointer edit input =
     (case ReadLevel input of
        None \<Rightarrow> Inl (Malformed ''compact pointer'')
      | Some (level, input1) \<Rightarrow>
        (case ReadInternalKey input1 of
           None \<Rightarrow> Inl (Malformed ''compact pointer'')
         | Some (key, input2) \<Rightarrow>
             Inr (edit\<lparr>ve_compact_pointers := ve_compact_pointers edit @ [\<lparr>cp_level = level, cp_key = key\<rparr>]\<rparr>, input2)))"

definition DecodeDeletedFile :: "VersionEdit \<Rightarrow> bytes \<Rightarrow> (VersionEdit \<times> bytes) result" where
  "DecodeDeletedFile edit input =
     (case ReadLevel input of
        None \<Rightarrow> Inl (Malformed ''deleted file'')
      | Some (level, input1) \<Rightarrow>
        (case ReadFileNumber input1 of
           None \<Rightarrow> Inl (Malformed ''deleted file'')
         | Some (number, input2) \<Rightarrow>
             Inr (edit\<lparr>ve_deleted_files := insort_insert (DeletedFile level number) (ve_deleted_files edit)\<rparr>, input2)))"

definition DecodeNewFile :: "VersionEdit \<Rightarrow> bytes \<Rightarrow> (VersionEdit \<times> bytes) result" where
  "DecodeNewFile edit input =
     (case ReadLevel input of
        None \<Rightarrow> Inl (Malformed ''new file'')
      | Some (level, input1) \<Rightarrow>
        (case ReadFileNumber input1 of
           None \<Rightarrow> Inl (Malformed ''new file'')
         | Some (number, input2) \<Rightarrow>
           (case ReadNumber input2 of
              None \<Rightarrow> Inl (Malformed ''new file'')
            | Some (file_size, input3) \<Rightarrow>
              (case ReadInternalKey input3 of
                 None \<Rightarrow> Inl (Malformed ''new file'')
               | Some (smallest, input4) \<Rightarrow>
                 (case ReadInternalKey input4 of
                    None \<Rightarrow> Inl (Malformed ''new file'')
                  | Some (largest, input5) \<Rightarrow>
                      Inr (edit\<lparr>ve_new_files := ve_new_files edit @
                        [\<lparr>nf_level = level, nf_file = \<lparr>fm_number = number, fm_file_size = file_size,
                            fm_smallest = smallest, fm_largest = largest, fm_allowed_seeks = 0\<rparr>\<rparr>]\<rparr>, input5))))))"

definition DecodeNumberField ::
  "VersionEdit \<Rightarrow> (u64 \<times> bytes) option \<Rightarrow> string \<Rightarrow> (u64 \<Rightarrow> VersionEdit) \<Rightarrow> (VersionEdit \<times> bytes) result" where
  "DecodeNumberField edit num field assign =
     (case num of None \<Rightarrow> Inl (Malformed field) | Some (number, rest) \<Rightarrow> Inr (assign number, rest))"

definition DecodeField :: "VersionEdit \<Rightarrow> u32 \<Rightarrow> bytes \<Rightarrow> (VersionEdit \<times> bytes) result" where
  "DecodeField edit tag input =
     (if tag = Tag_number TagComparator then
        (case ConsumeLengthPrefixed input of
           Inl _ \<Rightarrow> Inl (Malformed ''comparator name'')
         | Inr (name, rest) \<Rightarrow> Inr (edit\<lparr>ve_comparator_name := Some name\<rparr>, rest))
      else if tag = Tag_number TagLogNumber then
        DecodeNumberField edit (ReadNumber input) ''log number'' (\<lambda>n. edit\<lparr>ve_log_number := Some n\<rparr>)
      else if tag = Tag_number TagPrevLogNumber then
        DecodeNumberField edit (ReadNumber input) ''previous log number'' (\<lambda>n. edit\<lparr>ve_prev_log_number := Some n\<rparr>)
      else if tag = Tag_number TagNextFileNumber then
        DecodeNumberField edit (ReadFileNumber input) ''next file number'' (\<lambda>n. edit\<lparr>ve_next_file_number := Some n\<rparr>)
      else if tag = Tag_number TagLastSequence then
        (case ReadNumber input of
           None \<Rightarrow> Inl (Malformed ''last sequence'')
         | Some (number, rest) \<Rightarrow>
             if number > MaxSequenceNumber then Inl (Malformed ''last sequence'')
             else Inr (edit\<lparr>ve_last_sequence := Some number\<rparr>, rest))
      else if tag = Tag_number TagCompactPointer then DecodeCompactPointer edit input
      else if tag = Tag_number TagDeletedFile then DecodeDeletedFile edit input
      else if tag = Tag_number TagNewFile then DecodeNewFile edit input
      else Inl (Error Corruption ''version edit has an unknown tag''))"

text \<open>Every read consumes input, so the loop of \<open>Decode\<close> ends.\<close>

lemma ReadNumber_shorter: "ReadNumber input = Some (n, rest) \<Longrightarrow> length rest < length input"
  by (auto simp: ReadNumber_def ConsumeVarint64_def split: sum.splits dest: ConsumeVarint_shorter)

lemma ReadFileNumber_shorter: "ReadFileNumber input = Some (n, rest) \<Longrightarrow> length rest < length input"
  by (auto simp: ReadFileNumber_def split: option.splits if_splits dest: ReadNumber_shorter)

lemma ReadLevel_shorter: "ReadLevel input = Some (n, rest) \<Longrightarrow> length rest < length input"
  by (auto simp: ReadLevel_def ConsumeVarint32_def split: sum.splits if_splits dest: ConsumeVarint_shorter)

lemma ReadInternalKey_shorter: "ReadInternalKey input = Some (k, rest) \<Longrightarrow> length rest < length input"
  by (auto simp: ReadInternalKey_def split: sum.splits dest: ConsumeLengthPrefixed_shorter)

lemma DecodeField_shorter:
  assumes "DecodeField edit tag input = Inr (edit', rest)"
  shows "length rest < length input"
proof -
  have "DecodeCompactPointer edit input = Inr (edit', rest) \<Longrightarrow> ?thesis"
    by (auto simp: DecodeCompactPointer_def split: option.splits dest!: ReadLevel_shorter ReadInternalKey_shorter)
  moreover have "DecodeDeletedFile edit input = Inr (edit', rest) \<Longrightarrow> ?thesis"
    by (auto simp: DecodeDeletedFile_def split: option.splits dest!: ReadLevel_shorter ReadFileNumber_shorter)
  moreover have "DecodeNewFile edit input = Inr (edit', rest) \<Longrightarrow> ?thesis"
    by (auto simp: DecodeNewFile_def split: option.splits
        dest!: ReadLevel_shorter ReadFileNumber_shorter ReadNumber_shorter ReadInternalKey_shorter)
  ultimately show ?thesis
    using assms
    by (auto simp: DecodeField_def DecodeNumberField_def split: if_splits option.splits sum.splits
        dest: ReadNumber_shorter ReadFileNumber_shorter ConsumeLengthPrefixed_shorter)
qed

function DecodeLoop :: "VersionEdit \<Rightarrow> bytes \<Rightarrow> VersionEdit result" where
  "DecodeLoop edit encoded =
     (if encoded = [] then Inr edit
      else case ConsumeVarint32 encoded of
          Inl _ \<Rightarrow> Inl (Malformed ''tag'')
        | Inr (tag, input) \<Rightarrow>
          (case DecodeField edit tag input of
             Inl e \<Rightarrow> Inl e
           | Inr (edit', rest) \<Rightarrow> DecodeLoop edit' rest))"
  by pat_completeness auto
termination
  by (relation "measure (\<lambda>(edit, encoded). length encoded)")
    (auto simp: ConsumeVarint32_def dest!: ConsumeVarint_shorter DecodeField_shorter)

declare DecodeLoop.simps [simp del]

definition VersionEdit_Decode :: "bytes \<Rightarrow> VersionEdit result" where
  "VersionEdit_Decode encoded = DecodeLoop VersionEdit_New encoded"

section \<open>The invariant of edits\<close>

definition wf_file :: "FileMetadata \<Rightarrow> bool" where
  "wf_file f \<longleftrightarrow> fm_number f \<noteq> 0 \<and> IsValidInternalKey (fm_smallest f) \<and> IsValidInternalKey (fm_largest f)"

definition wf_edit :: "VersionEdit \<Rightarrow> bool" where
  "wf_edit edit \<longleftrightarrow>
     ve_next_file_number edit \<noteq> Some 0 \<and>
     (\<forall>s. ve_last_sequence edit = Some s \<longrightarrow> s \<le> MaxSequenceNumber) \<and>
     (\<forall>p\<in>set (ve_compact_pointers edit). cp_level p < NumLevels \<and> IsValidInternalKey (cp_key p)) \<and>
     (\<forall>d\<in>set (ve_deleted_files edit). df_level d < NumLevels \<and> df_number d \<noteq> 0) \<and>
     sorted (ve_deleted_files edit) \<and> distinct (ve_deleted_files edit) \<and>
     (\<forall>n\<in>set (ve_new_files edit). nf_level n < NumLevels \<and> wf_file (nf_file n))"

lemma wf_edit_New: "wf_edit VersionEdit_New"
  by (simp add: wf_edit_def VersionEdit_New_def)

lemma wf_edit_update [intro]:
  assumes "wf_edit edit"
  shows "wf_edit (edit\<lparr>ve_comparator_name := name\<rparr>)" "wf_edit (edit\<lparr>ve_log_number := number\<rparr>)"
    "wf_edit (edit\<lparr>ve_prev_log_number := number\<rparr>)"
    "n \<noteq> 0 \<Longrightarrow> wf_edit (edit\<lparr>ve_next_file_number := Some n\<rparr>)"
    "n \<le> MaxSequenceNumber \<Longrightarrow> wf_edit (edit\<lparr>ve_last_sequence := Some n\<rparr>)"
    "level < NumLevels \<Longrightarrow> IsValidInternalKey key \<Longrightarrow>
      wf_edit (edit\<lparr>ve_compact_pointers := ve_compact_pointers edit @ [\<lparr>cp_level = level, cp_key = key\<rparr>]\<rparr>)"
    "level < NumLevels \<Longrightarrow> n \<noteq> 0 \<Longrightarrow>
      wf_edit (edit\<lparr>ve_deleted_files := insort_insert (DeletedFile level n) (ve_deleted_files edit)\<rparr>)"
    "level < NumLevels \<Longrightarrow> wf_file file \<Longrightarrow>
      wf_edit (edit\<lparr>ve_new_files := ve_new_files edit @ [\<lparr>nf_level = level, nf_file = file\<rparr>]\<rparr>)"
  using assms by (simp_all add: wf_edit_def set_insort_insert sorted_insort_insert distinct_insort_insert)

lemma wf_edit_mutators:
  assumes "wf_edit edit"
  shows "wf_edit (SetComparatorName edit name)" "wf_edit (SetLogNumber edit n)" "wf_edit (SetPrevLogNumber edit n)"
    "SetNextFileNumber edit n = Inr e1 \<Longrightarrow> wf_edit e1"
    "SetLastSequence edit n = Inr e2 \<Longrightarrow> wf_edit e2"
    "AddCompactPointer edit level key = Inr e3 \<Longrightarrow> wf_edit e3"
    "AddFile edit level file = Inr e4 \<Longrightarrow> wf_edit e4"
    "RemoveFile edit level n = Inr e5 \<Longrightarrow> wf_edit e5"
  using wf_edit_update [OF assms]
  by (auto simp: SetComparatorName_def SetLogNumber_def SetPrevLogNumber_def wf_file_def
      SetNextFileNumber_def SetLastSequence_def AddCompactPointer_def AddFile_def RemoveFile_def
      not_le not_less split: if_splits)

lemma ReadInternalKey_valid: "ReadInternalKey input = Some (k, rest) \<Longrightarrow> IsValidInternalKey k"
  by (auto simp: ReadInternalKey_def InternalKey_Decode_def IsValidInternalKey_def has_value_def bindR_eq_Inr
      split: sum.splits)

lemma ReadLevel_valid: "ReadLevel input = Some (level, rest) \<Longrightarrow> level < NumLevels"
  by (auto simp: ReadLevel_def split: sum.splits if_splits)

lemma ReadFileNumber_valid: "ReadFileNumber input = Some (n, rest) \<Longrightarrow> n \<noteq> 0"
  by (auto simp: ReadFileNumber_def split: option.splits if_splits)

lemma DecodeField_wf:
  assumes "DecodeField edit tag input = Inr (edit', rest)" "wf_edit edit"
  shows "wf_edit edit'"
proof -
  note valid = ReadLevel_valid ReadFileNumber_valid ReadInternalKey_valid
  have "DecodeCompactPointer edit input = Inr (edit', rest) \<Longrightarrow> ?thesis"
    using wf_edit_update(6) [OF assms(2)] valid(1,3)
    by (auto simp: DecodeCompactPointer_def split: option.splits)
  moreover have "DecodeDeletedFile edit input = Inr (edit', rest) \<Longrightarrow> ?thesis"
    using wf_edit_update(7) [OF assms(2)] valid(1,2)
    by (auto simp: DecodeDeletedFile_def split: option.splits)
  moreover have "DecodeNewFile edit input = Inr (edit', rest) \<Longrightarrow> ?thesis"
    using wf_edit_update(8) [OF assms(2)] valid
    by (auto simp: DecodeNewFile_def wf_file_def split: option.splits)
  ultimately show ?thesis
    using assms(1) wf_edit_update(1-5) [OF assms(2)] valid(2)
    by (auto simp: DecodeField_def DecodeNumberField_def not_less split: if_splits option.splits sum.splits)
qed

lemma DecodeLoop_wf: "DecodeLoop edit encoded = Inr edit' \<Longrightarrow> wf_edit edit \<Longrightarrow> wf_edit edit'"
proof (induction edit encoded rule: DecodeLoop.induct)
  case (1 edit encoded)
  from "1.prems" show ?case
    by (subst (asm) DecodeLoop.simps)
      (auto split: if_splits sum.splits prod.splits dest: DecodeField_wf intro: "1.IH")
qed

section \<open>Decoding inverts encoding\<close>

text \<open>Lengths that fit their 32-bit prefixes.\<close>

definition key_fits :: "InternalKey \<Rightarrow> bool" where
  "key_fits k \<longleftrightarrow> length (ik_encoded k) < 2 ^ 32"

definition edit_fits :: "VersionEdit \<Rightarrow> bool" where
  "edit_fits edit \<longleftrightarrow>
     (\<forall>name. ve_comparator_name edit = Some name \<longrightarrow> length name < 2 ^ 32) \<and>
     (\<forall>p\<in>set (ve_compact_pointers edit). key_fits (cp_key p)) \<and>
     (\<forall>n\<in>set (ve_new_files edit). key_fits (fm_smallest (nf_file n)) \<and> key_fits (fm_largest (nf_file n)))"

text \<open>What \<open>Decode\<close> reads back fits, since its lengths come from 32-bit prefixes.\<close>

lemma ConsumeLengthPrefixed_fits:
  assumes "ConsumeLengthPrefixed input = Inr (bs, rest)"
  shows "length bs < 2 ^ 32"
proof -
  obtain len remaining where "bs = take (unat (len :: u32)) remaining"
    using assms by (auto simp: ConsumeLengthPrefixed_def bindR_eq_Inr)
  then have "length bs \<le> unat len" by simp
  also have "unat len < 2 ^ 32" using unsigned_less [of len] by simp
  finally show ?thesis .
qed

lemma ReadInternalKey_fits: "ReadInternalKey input = Some (k, rest) \<Longrightarrow> key_fits k"
  using ConsumeLengthPrefixed_fits [of input]
  by (auto simp: ReadInternalKey_def InternalKey_Decode_def key_fits_def bindR_eq_Inr split: sum.splits)

lemma DecodeField_fits:
  assumes "DecodeField edit tag input = Inr (edit', rest)" "edit_fits edit"
  shows "edit_fits edit'"
proof -
  have "DecodeCompactPointer edit input = Inr (edit', rest) \<Longrightarrow> ?thesis"
    using assms(2) ReadInternalKey_fits by (auto simp: DecodeCompactPointer_def edit_fits_def split: option.splits)
  moreover have "DecodeDeletedFile edit input = Inr (edit', rest) \<Longrightarrow> ?thesis"
    using assms(2) by (auto simp: DecodeDeletedFile_def edit_fits_def split: option.splits)
  moreover have "DecodeNewFile edit input = Inr (edit', rest) \<Longrightarrow> ?thesis"
    using assms(2) ReadInternalKey_fits by (auto simp: DecodeNewFile_def edit_fits_def split: option.splits)
  ultimately show ?thesis
    using assms ConsumeLengthPrefixed_fits [of input]
    by (auto simp: DecodeField_def DecodeNumberField_def edit_fits_def split: if_splits option.splits sum.splits)
qed

lemma DecodeLoop_fits: "DecodeLoop edit encoded = Inr edit' \<Longrightarrow> edit_fits edit \<Longrightarrow> edit_fits edit'"
proof (induction edit encoded rule: DecodeLoop.induct)
  case (1 edit encoded)
  from "1.prems" show ?case
    by (subst (asm) DecodeLoop.simps)
      (auto split: if_splits sum.splits prod.splits dest: DecodeField_fits intro: "1.IH")
qed

lemma VersionEdit_Decode_wf:
  assumes "VersionEdit_Decode encoded = Inr edit"
  shows "wf_edit edit" "edit_fits edit"
proof -
  have "edit_fits VersionEdit_New" by (simp add: edit_fits_def VersionEdit_New_def)
  then show "wf_edit edit" "edit_fits edit"
    using assms DecodeLoop_wf [OF _ wf_edit_New] DecodeLoop_fits unfolding VersionEdit_Decode_def by blast+
qed

lemmas append_simps = AppendTag_def AppendVarint32_def AppendVarint64_def AppendVarint_def AppendField_def
  AppendLengthPrefixed_def AppendNumberField_def

lemma ReadNumber_Encode [codec_simps]: "ReadNumber (EncodeVarintTrusted n @ rest) = Some (n, rest)"
  by (simp add: ReadNumber_def codec_simps)

lemma ReadFileNumber_Encode [codec_simps]: "n \<noteq> 0 \<Longrightarrow> ReadFileNumber (EncodeVarintTrusted n @ rest) = Some (n, rest)"
  by (simp add: ReadFileNumber_def codec_simps)

lemma ReadLevel_Encode [codec_simps]: "level < NumLevels \<Longrightarrow> ReadLevel (EncodeVarintTrusted level @ rest) = Some (level, rest)"
  by (simp add: ReadLevel_def codec_simps)

lemma ReadInternalKey_Encode [codec_simps]:
  "IsValidInternalKey k \<Longrightarrow> key_fits k \<Longrightarrow>
   ReadInternalKey (EncodeLengthPrefixedTrusted (ik_encoded k) @ rest) = Some (k, rest)"
  by (cases k) (auto simp: ReadInternalKey_def key_fits_def codec_simps InternalKey_Decode_def IsValidInternalKey_def
      has_value_def split: sum.splits)

lemma EncodeVarintTrusted_not_Nil [simp]: "EncodeVarintTrusted v \<noteq> []"
  by (subst EncodeVarintTrusted.simps) simp

lemma DecodeLoop_tag:
  "DecodeLoop edit (EncodeVarintTrusted (tag :: u32) @ input) =
     (case DecodeField edit tag input of Inl e \<Rightarrow> Inl e | Inr (edit', rest) \<Rightarrow> DecodeLoop edit' rest)"
  by (subst DecodeLoop.simps) (simp add: codec_simps)

lemma Tag_number_simps [simp]:
  "Tag_number TagComparator = 1" "Tag_number TagLogNumber = 2" "Tag_number TagNextFileNumber = 3"
  "Tag_number TagLastSequence = 4" "Tag_number TagCompactPointer = 5" "Tag_number TagDeletedFile = 6"
  "Tag_number TagNewFile = 7" "Tag_number TagPrevLogNumber = 9"
  by (simp_all add: Tag_number_def)

lemma DecodeLoop_pointers:
  assumes "\<forall>p\<in>set ps. cp_level p < NumLevels \<and> IsValidInternalKey (cp_key p) \<and> key_fits (cp_key p)"
  shows "\<exists>enc. (\<forall>out. foldl AppendCompactPointer out ps = out @ enc) \<and> (\<forall>edit rest.
    DecodeLoop edit (enc @ rest) = DecodeLoop (edit\<lparr>ve_compact_pointers := ve_compact_pointers edit @ ps\<rparr>) rest)"
  using assms
proof (induction ps)
  case (Cons p ps)
  then obtain enc where enc: "\<forall>out. foldl AppendCompactPointer out ps = out @ enc"
      "\<forall>edit rest. DecodeLoop edit (enc @ rest) = DecodeLoop (edit\<lparr>ve_compact_pointers := ve_compact_pointers edit @ ps\<rparr>) rest"
    by auto
  let ?f = "EncodeVarintTrusted (5 :: u32) @ EncodeVarintTrusted (cp_level p) @ EncodeLengthPrefixedTrusted (ik_encoded (cp_key p))"
  have "foldl AppendCompactPointer out (p # ps) = out @ ?f @ enc" for out
    using enc(1) by (simp add: AppendCompactPointer_def append_simps)
  moreover have "DecodeLoop edit ((?f @ enc) @ rest) =
      DecodeLoop (edit\<lparr>ve_compact_pointers := ve_compact_pointers edit @ p # ps\<rparr>) rest" for edit rest
    using Cons.prems enc(2)
    by (cases p) (simp add: DecodeLoop_tag DecodeField_def DecodeCompactPointer_def codec_simps)
  ultimately show ?case by blast
qed (auto intro: exI [of _ "[]"])

lemma DecodeLoop_new_files:
  assumes "\<forall>n\<in>set ns. nf_level n < NumLevels \<and> wf_file (nf_file n) \<and>
    key_fits (fm_smallest (nf_file n)) \<and> key_fits (fm_largest (nf_file n))"
  shows "\<exists>enc. (\<forall>out. foldl AppendNewFile out ns = out @ enc) \<and> (\<forall>edit rest.
    DecodeLoop edit (enc @ rest) = DecodeLoop (edit\<lparr>ve_new_files := ve_new_files edit @
      map (\<lambda>n. n\<lparr>nf_file := (nf_file n)\<lparr>fm_allowed_seeks := 0\<rparr>\<rparr>) ns\<rparr>) rest)"
  using assms
proof (induction ns)
  case (Cons n ns)
  let ?clear = "\<lambda>n. n\<lparr>nf_file := (nf_file n)\<lparr>fm_allowed_seeks := 0\<rparr>\<rparr>"
  from Cons obtain enc where enc: "\<forall>out. foldl AppendNewFile out ns = out @ enc"
      "\<forall>edit rest. DecodeLoop edit (enc @ rest) = DecodeLoop (edit\<lparr>ve_new_files := ve_new_files edit @ map ?clear ns\<rparr>) rest"
    by auto
  let ?f = "EncodeVarintTrusted (7 :: u32) @ EncodeVarintTrusted (nf_level n) @ EncodeVarintTrusted (fm_number (nf_file n)) @
    EncodeVarintTrusted (fm_file_size (nf_file n)) @ EncodeLengthPrefixedTrusted (ik_encoded (fm_smallest (nf_file n))) @
    EncodeLengthPrefixedTrusted (ik_encoded (fm_largest (nf_file n)))"
  have "foldl AppendNewFile out (n # ns) = out @ ?f @ enc" for out
    using enc(1) by (simp add: AppendNewFile_def append_simps Let_def)
  moreover have "DecodeLoop edit ((?f @ enc) @ rest) =
      DecodeLoop (edit\<lparr>ve_new_files := ve_new_files edit @ map ?clear (n # ns)\<rparr>) rest" for edit rest
    using Cons.prems enc(2)
    by (cases n, cases "nf_file n") (simp add: DecodeLoop_tag DecodeField_def DecodeNewFile_def codec_simps wf_file_def)
  ultimately show ?case by blast
qed (auto intro: exI [of _ "[]"])

lemma insort_insert_snoc:
  assumes "sorted (xs @ [x])" "distinct (xs @ [x])"
  shows "insort_insert x xs = xs @ [x]"
proof -
  have "insort x xs = xs @ [x]"
    using assms by (induction xs) (auto dest: antisym)
  with assms(2) show ?thesis by (simp add: insort_insert_key_def)
qed

lemma DecodeLoop_deleted_files:
  assumes "\<forall>d\<in>set ds. df_level d < NumLevels \<and> df_number d \<noteq> 0"
  shows "\<exists>enc. (\<forall>out. foldl AppendDeletedFile out ds = out @ enc) \<and> (\<forall>edit rest.
    sorted (ve_deleted_files edit @ ds) \<longrightarrow> distinct (ve_deleted_files edit @ ds) \<longrightarrow>
    DecodeLoop edit (enc @ rest) = DecodeLoop (edit\<lparr>ve_deleted_files := ve_deleted_files edit @ ds\<rparr>) rest)"
  using assms
proof (induction ds)
  case (Cons d ds)
  then obtain enc where enc: "\<forall>out. foldl AppendDeletedFile out ds = out @ enc"
      "\<forall>edit rest. sorted (ve_deleted_files edit @ ds) \<longrightarrow> distinct (ve_deleted_files edit @ ds) \<longrightarrow>
        DecodeLoop edit (enc @ rest) = DecodeLoop (edit\<lparr>ve_deleted_files := ve_deleted_files edit @ ds\<rparr>) rest"
    by auto
  let ?f = "EncodeVarintTrusted (6 :: u32) @ EncodeVarintTrusted (df_level d) @ EncodeVarintTrusted (df_number d)"
  have "foldl AppendDeletedFile out (d # ds) = out @ ?f @ enc" for out
    using enc(1) by (simp add: AppendDeletedFile_def append_simps)
  moreover have "DecodeLoop edit ((?f @ enc) @ rest) =
      DecodeLoop (edit\<lparr>ve_deleted_files := ve_deleted_files edit @ d # ds\<rparr>) rest"
    if "sorted (ve_deleted_files edit @ d # ds)" "distinct (ve_deleted_files edit @ d # ds)" for edit rest
  proof -
    have "insort_insert d (ve_deleted_files edit) = ve_deleted_files edit @ [d]"
      using that by (intro insort_insert_snoc) (auto simp: sorted_append)
    then show ?thesis
      using Cons.prems enc(2) that
      by (simp add: DecodeLoop_tag DecodeField_def DecodeDeletedFile_def codec_simps)
  qed
  ultimately show ?case by blast
qed (auto intro: exI [of _ "[]"])

text \<open>The optional scalar fields: the bytes they add, and that decoding assigns them.\<close>

definition number_field :: "Tag \<Rightarrow> u64 option \<Rightarrow> bytes" where
  "number_field tag number =
     (case number of None \<Rightarrow> [] | Some n \<Rightarrow> EncodeVarintTrusted (Tag_number tag) @ EncodeVarintTrusted n)"

lemma AppendNumberField_eq: "AppendNumberField out tag number = out @ number_field tag number"
  by (simp add: append_simps number_field_def split: option.splits)

lemma DecodeLoop_numbers:
  "ve_log_number e = None \<Longrightarrow>
     DecodeLoop e (number_field TagLogNumber n @ rest) = DecodeLoop (e\<lparr>ve_log_number := n\<rparr>) rest"
  "ve_prev_log_number e = None \<Longrightarrow>
     DecodeLoop e (number_field TagPrevLogNumber n @ rest) = DecodeLoop (e\<lparr>ve_prev_log_number := n\<rparr>) rest"
  "ve_next_file_number e = None \<Longrightarrow> n \<noteq> Some 0 \<Longrightarrow>
     DecodeLoop e (number_field TagNextFileNumber n @ rest) = DecodeLoop (e\<lparr>ve_next_file_number := n\<rparr>) rest"
  "ve_last_sequence e = None \<Longrightarrow> pred_option (\<lambda>s. s \<le> MaxSequenceNumber) n \<Longrightarrow>
     DecodeLoop e (number_field TagLastSequence n @ rest) = DecodeLoop (e\<lparr>ve_last_sequence := n\<rparr>) rest"
  subgoal by (cases n; cases e) (simp_all add: number_field_def DecodeLoop_tag DecodeField_def DecodeNumberField_def ReadNumber_Encode)
  subgoal by (cases n; cases e) (simp_all add: number_field_def DecodeLoop_tag DecodeField_def DecodeNumberField_def ReadNumber_Encode)
  subgoal by (cases n; cases e) (simp_all add: number_field_def DecodeLoop_tag DecodeField_def DecodeNumberField_def ReadFileNumber_Encode)
  subgoal by (cases n; cases e) (simp_all add: number_field_def DecodeLoop_tag DecodeField_def ReadNumber_Encode leD)
  done

definition name_field :: "bytes option \<Rightarrow> bytes" where
  "name_field name =
     (case name of None \<Rightarrow> [] | Some n \<Rightarrow> EncodeVarintTrusted (Tag_number TagComparator) @ EncodeLengthPrefixedTrusted n)"

lemma DecodeLoop_name:
  "ve_comparator_name e = None \<Longrightarrow> pred_option (\<lambda>n. length n < 2 ^ 32) name \<Longrightarrow>
     DecodeLoop e (name_field name @ rest) = DecodeLoop (e\<lparr>ve_comparator_name := name\<rparr>) rest"
  by (cases name; cases e) (simp_all add: name_field_def DecodeLoop_tag DecodeField_def codec_simps)

definition stored_edit :: "VersionEdit \<Rightarrow> VersionEdit" where
  "stored_edit edit =
     edit\<lparr>ve_new_files := map (\<lambda>n. n\<lparr>nf_file := (nf_file n)\<lparr>fm_allowed_seeks := 0\<rparr>\<rparr>) (ve_new_files edit)\<rparr>"

lemma VersionEdit_Decode_Encode:
  assumes wf: "wf_edit edit" and fits: "edit_fits edit"
  shows "VersionEdit_Decode (VersionEdit_Encode edit) = Inr (stored_edit edit)"
proof -
  obtain ps where ps: "\<And>out. foldl AppendCompactPointer out (ve_compact_pointers edit) = out @ ps"
      "\<And>e rest. DecodeLoop e (ps @ rest) =
        DecodeLoop (e\<lparr>ve_compact_pointers := ve_compact_pointers e @ ve_compact_pointers edit\<rparr>) rest"
    using DecodeLoop_pointers [of "ve_compact_pointers edit"] wf fits by (auto simp: wf_edit_def edit_fits_def)
  obtain ds where ds: "\<And>out. foldl AppendDeletedFile out (ve_deleted_files edit) = out @ ds"
      "\<And>e rest. ve_deleted_files e = [] \<Longrightarrow> DecodeLoop e (ds @ rest) =
        DecodeLoop (e\<lparr>ve_deleted_files := ve_deleted_files edit\<rparr>) rest"
    using DecodeLoop_deleted_files [of "ve_deleted_files edit"] wf by (auto simp: wf_edit_def)
  obtain ns where ns: "\<And>out. foldl AppendNewFile out (ve_new_files edit) = out @ ns"
      "\<And>e rest. DecodeLoop e (ns @ rest) = DecodeLoop (e\<lparr>ve_new_files := ve_new_files e @
        map (\<lambda>n. n\<lparr>nf_file := (nf_file n)\<lparr>fm_allowed_seeks := 0\<rparr>\<rparr>) (ve_new_files edit)\<rparr>) rest"
    using DecodeLoop_new_files [of "ve_new_files edit"] wf fits by (auto simp: wf_edit_def edit_fits_def)
  have name: "(case ve_comparator_name edit of None \<Rightarrow> [] | Some name \<Rightarrow> AppendField (AppendTag [] TagComparator) name) =
      name_field (ve_comparator_name edit)"
    by (simp add: name_field_def append_simps split: option.splits)
  have "VersionEdit_Encode edit = name_field (ve_comparator_name edit) @
      number_field TagLogNumber (ve_log_number edit) @ number_field TagPrevLogNumber (ve_prev_log_number edit) @
      number_field TagNextFileNumber (ve_next_file_number edit) @ number_field TagLastSequence (ve_last_sequence edit) @
      ps @ ds @ ns @ []"
    by (simp add: VersionEdit_Encode_def Let_def AppendNumberField_eq name ps(1) ds(1) ns(1))
  moreover have "ve_next_file_number edit \<noteq> Some 0" "pred_option (\<lambda>s. s \<le> MaxSequenceNumber) (ve_last_sequence edit)"
    "pred_option (\<lambda>n. length n < 2 ^ 32) (ve_comparator_name edit)"
    using wf fits by (auto simp: wf_edit_def edit_fits_def pred_option_def elem_set)
  ultimately have "VersionEdit_Decode (VersionEdit_Encode edit) = DecodeLoop
      (VersionEdit_New\<lparr>ve_comparator_name := ve_comparator_name edit, ve_log_number := ve_log_number edit,
        ve_prev_log_number := ve_prev_log_number edit, ve_next_file_number := ve_next_file_number edit,
        ve_last_sequence := ve_last_sequence edit\<rparr>) (ps @ ds @ ns @ [])"
    by (simp add: VersionEdit_Decode_def DecodeLoop_name DecodeLoop_numbers VersionEdit_New_def)
  also have "\<dots> = Inr (stored_edit edit)"
    by (cases edit, simp only: ps(2), simp add: ds(2) ns(2) [of _ "[]", simplified] stored_edit_def VersionEdit_New_def)
      (simp add: DecodeLoop.simps [of _ "[]"])
  finally show ?thesis .
qed

section \<open>Properties\<close>

text \<open>C18: MANIFEST records round trip.  Every edit the mutators can build, with field lengths that fit
  their prefixes, decodes from its encoding to itself, up to the runtime seek budgets that are not
  stored.\<close>

theorem version_edit_roundtrip:
  assumes "wf_edit edit" "edit_fits edit"
  shows "VersionEdit_Decode (VersionEdit_Encode edit) = Inr (stored_edit edit)"
  using assms by (rule VersionEdit_Decode_Encode)

text \<open>C19: Edits stay well-formed.  The empty edit satisfies the invariant of edits, every accepted
  mutation keeps it, and so does everything \<open>Decode\<close> accepts from disk: levels below seven, nonzero file
  numbers, 56-bit sequences, parseable keys, and an ordered duplicate-free set of removed files.\<close>

theorem version_edit_invariant:
  "wf_edit VersionEdit_New \<and>
   (wf_edit edit \<longrightarrow>
      wf_edit (SetComparatorName edit name) \<and> wf_edit (SetLogNumber edit n) \<and> wf_edit (SetPrevLogNumber edit n) \<and>
      (\<forall>e. SetNextFileNumber edit n = Inr e \<longrightarrow> wf_edit e) \<and> (\<forall>e. SetLastSequence edit n = Inr e \<longrightarrow> wf_edit e) \<and>
      (\<forall>e. AddCompactPointer edit level key = Inr e \<longrightarrow> wf_edit e) \<and> (\<forall>e. AddFile edit level file = Inr e \<longrightarrow> wf_edit e) \<and>
      (\<forall>e. RemoveFile edit level n = Inr e \<longrightarrow> wf_edit e)) \<and>
   (\<forall>e. VersionEdit_Decode enc = Inr e \<longrightarrow> wf_edit e)"
proof (intro conjI impI allI)
  fix e
  assume "VersionEdit_Decode enc = Inr e"
  then show "wf_edit e"
    unfolding VersionEdit_Decode_def using wf_edit_New by (rule DecodeLoop_wf)
qed (rule wf_edit_New, (erule wf_edit_mutators; assumption)+)

text \<open>An edit with every kind of field, for the witnesses.\<close>

definition demo_key :: "byte \<Rightarrow> InternalKey" where
  "demo_key b = InternalKey (EncodeInternalKeyTrusted [b] 5 Value)"

lemma demo_key_valid [simp]: "IsValidInternalKey (demo_key b)"
  by (simp add: demo_key_def IsValidInternalKey_def ParseInternalKey_Encode MaxSequenceNumber_def has_value_def)

lemma demo_key_fits [simp]: "key_fits (demo_key b)"
  by (simp add: demo_key_def key_fits_def)

definition demo_edit :: VersionEdit where
  "demo_edit =
     \<lparr>ve_comparator_name = Some [99], ve_log_number = Some 300, ve_prev_log_number = None, ve_next_file_number = Some 12,
      ve_last_sequence = Some 7, ve_compact_pointers = [\<lparr>cp_level = 1, cp_key = demo_key 97\<rparr>],
      ve_deleted_files = [DeletedFile 0 4, DeletedFile 1 3],
      ve_new_files = [\<lparr>nf_level = 2, nf_file = \<lparr>fm_number = 9, fm_file_size = 1000, fm_smallest = demo_key 97,
        fm_largest = demo_key 98, fm_allowed_seeks = 100\<rparr>\<rparr>]\<rparr>"

lemma demo_edit_wf: "wf_edit demo_edit" "edit_fits demo_edit"
  by (simp_all add: demo_edit_def wf_edit_def wf_file_def edit_fits_def NumLevels_def MaxSequenceNumber_def
      less_eq_DeletedFile_def)

theorem version_edit_roundtrip_witness:
  "VersionEdit_Decode (VersionEdit_Encode demo_edit) = Inr (stored_edit demo_edit)"
  by (rule version_edit_roundtrip [OF demo_edit_wf])

theorem version_edit_invariant_witness:
  "wf_edit (SetLogNumber demo_edit 8) \<and>
   (\<exists>e. RemoveFile demo_edit 2 6 = Inr e \<and> wf_edit e) \<and> wf_edit (stored_edit demo_edit)"
proof -
  have "RemoveFile demo_edit 2 6 =
      Inr (demo_edit\<lparr>ve_deleted_files := insort_insert (DeletedFile 2 6) (ve_deleted_files demo_edit)\<rparr>)"
    by (simp add: RemoveFile_def NumLevels_def)
  moreover have "VersionEdit_Decode (VersionEdit_Encode demo_edit) = Inr (stored_edit demo_edit)"
    by (rule VersionEdit_Decode_Encode [OF demo_edit_wf])
  ultimately show ?thesis
    using version_edit_invariant [of demo_edit _ 8 0 "demo_key 0" undefined "VersionEdit_Encode demo_edit"]
      version_edit_invariant [of demo_edit _ 6 2 "demo_key 0" undefined "VersionEdit_Encode demo_edit"] demo_edit_wf(1)
    by blast
qed

end
