(* ===== verification/File_Names.thy ===== *)
theory File_Names
  imports Prelude
begin

text \<open>
  Database file names (\<^verbatim>\<open>src/metadata/filenames.{h,cc}\<close>): the canonical spelling of numbered names, the
  classifier of directory entries, and the contents of \<^verbatim>\<open>CURRENT\<close>.  Of the standard library it models
  \<^verbatim>\<open>std::to_chars\<close> and \<^verbatim>\<open>std::from_chars\<close> on 64-bit numbers, and \<^verbatim>\<open>/\<close> and \<^verbatim>\<open>filename()\<close> on POSIX paths.
\<close>

section \<open>Decimal numbers\<close>

definition digit_char :: "nat \<Rightarrow> char" where
  "digit_char d = char_of (48 + d)"

definition is_digit :: "char \<Rightarrow> bool" where
  "is_digit c \<longleftrightarrow> 48 \<le> (of_char c :: nat) \<and> (of_char c :: nat) \<le> 57"

definition char_digit :: "char \<Rightarrow> nat" where
  "char_digit c = of_char c - 48"

fun to_chars :: "nat \<Rightarrow> string" where
  "to_chars n = (if n < 10 then [digit_char n] else to_chars (n div 10) @ [digit_char (n mod 10)])"

declare to_chars.simps [simp del]

definition digits_value :: "string \<Rightarrow> nat" where
  "digits_value ds = fold (\<lambda>c acc. acc * 10 + char_digit c) ds 0"

text \<open>\<^verbatim>\<open>std::from_chars\<close> reads the longest run of digits; it fails when there is none or the value does
  not fit.\<close>

definition from_chars :: "string \<Rightarrow> u64 option" where
  "from_chars s =
     (let ds = takeWhile is_digit s
      in if ds = [] \<or> 2 ^ 64 \<le> digits_value ds then None else Some (of_nat (digits_value ds)))"

section \<open>Names\<close>

datatype FileType = Log | Lock | Table | Descriptor | Current | Temp

record ParsedFileName =
  parsed_type :: FileType
  parsed_number :: u64

definition MinimumDigits :: nat where
  "MinimumDigits = 6"

definition MaximumDigits :: nat where
  "MaximumDigits = 20"

definition DescriptorPrefix :: string where
  "DescriptorPrefix = ''MANIFEST-''"

definition LogSuffix :: string where
  "LogSuffix = ''.log''"

definition TableSuffix :: string where
  "TableSuffix = ''.ldb''"

definition TempSuffix :: string where
  "TempSuffix = ''.dbtmp''"

definition NumberedSuffixes :: "(string \<times> FileType) list" where
  "NumberedSuffixes = [(LogSuffix, Log), (TableSuffix, Table), (TempSuffix, Temp)]"

definition NumberText :: "u64 \<Rightarrow> string" where
  "NumberText number =
     (let digits = to_chars (unat number);
          padding = (if length digits < MinimumDigits then MinimumDigits - length digits else 0)
      in replicate padding (digit_char 0) @ digits)"

definition ParseCanonicalNumber :: "string \<Rightarrow> u64 option" where
  "ParseCanonicalNumber digits =
     (case from_chars digits of
        None \<Rightarrow> None
      | Some number \<Rightarrow> if number = 0 \<or> NumberText number \<noteq> digits then None else Some number)"

definition ParseNumbered :: "FileType \<Rightarrow> string \<Rightarrow> ParsedFileName option" where
  "ParseNumbered t digits =
     map_option (\<lambda>number. \<lparr>parsed_type = t, parsed_number = number\<rparr>) (ParseCanonicalNumber digits)"

definition NumberedName :: "u64 \<Rightarrow> string \<Rightarrow> string" where
  "NumberedName number sfx = NumberText number @ sfx"

definition DescriptorName :: "u64 \<Rightarrow> string" where
  "DescriptorName number = DescriptorPrefix @ NumberText number"

definition path_join :: "string \<Rightarrow> string \<Rightarrow> string" where
  "path_join directory leaf =
     (if directory = [] \<or> last directory = CHR ''/'' then directory @ leaf else directory @ ''/'' @ leaf)"

definition path_filename :: "string \<Rightarrow> string" where
  "path_filename path = rev (takeWhile (\<lambda>c. c \<noteq> CHR ''/'') (rev path))"

definition LogFileName :: "string \<Rightarrow> u64 \<Rightarrow> string" where
  "LogFileName directory number = path_join directory (NumberedName number LogSuffix)"

definition TableFileName :: "string \<Rightarrow> u64 \<Rightarrow> string" where
  "TableFileName directory number = path_join directory (NumberedName number TableSuffix)"

definition DescriptorFileName :: "string \<Rightarrow> u64 \<Rightarrow> string" where
  "DescriptorFileName directory number = path_join directory (DescriptorName number)"

definition TempFileName :: "string \<Rightarrow> u64 \<Rightarrow> string" where
  "TempFileName directory number = path_join directory (NumberedName number TempSuffix)"

definition CurrentFileName :: "string \<Rightarrow> string" where
  "CurrentFileName directory = path_join directory ''CURRENT''"

definition LockFileName :: "string \<Rightarrow> string" where
  "LockFileName directory = path_join directory ''LOCK''"

fun ParseSuffixes :: "(string \<times> FileType) list \<Rightarrow> string \<Rightarrow> ParsedFileName option" where
  "ParseSuffixes [] file_name = None"
| "ParseSuffixes ((sfx, t) # entries) file_name =
     (if suffix sfx file_name then ParseNumbered t (take (length file_name - length sfx) file_name)
      else ParseSuffixes entries file_name)"

definition ParseFileName :: "string \<Rightarrow> ParsedFileName option" where
  "ParseFileName file_name =
     (if file_name = ''CURRENT'' then Some \<lparr>parsed_type = Current, parsed_number = 0\<rparr>
      else if file_name = ''LOCK'' then Some \<lparr>parsed_type = Lock, parsed_number = 0\<rparr>
      else if prefix DescriptorPrefix file_name
        then ParseNumbered Descriptor (drop (length DescriptorPrefix) file_name)
      else ParseSuffixes NumberedSuffixes file_name)"

definition ParseNativeFileName :: "string \<Rightarrow> ParsedFileName option" where
  "ParseNativeFileName path =
     (let native = path_filename path
      in if length native > length DescriptorPrefix + MaximumDigits then None
         else if \<exists>c\<in>set native. (of_char c :: nat) > 127 then None
         else ParseFileName native)"

definition CurrentFileContents :: "u64 \<Rightarrow> string" where
  "CurrentFileContents descriptor_number = DescriptorName descriptor_number @ [CHR 0x0A]"

definition ParseCurrentFileContents :: "string \<Rightarrow> u64 result" where
  "ParseCurrentFileContents contents =
     (if contents = [] \<or> last contents \<noteq> CHR 0x0A
      then Inl (Error Corruption ''CURRENT file does not end with a newline'')
      else case ParseFileName (butlast contents) of
          Some parsed \<Rightarrow>
            if parsed_type parsed \<noteq> Descriptor
            then Inl (Error Corruption ''CURRENT file does not name a MANIFEST file'')
            else Inr (parsed_number parsed)
        | None \<Rightarrow> Inl (Error Corruption ''CURRENT file does not name a MANIFEST file''))"

section \<open>Numbers are spelled canonically\<close>

lemma of_char_digit_char: "d < 10 \<Longrightarrow> (of_char (digit_char d) :: nat) = 48 + d"
  by (simp add: digit_char_def)

lemma digit_char_digit [simp]: "d < 10 \<Longrightarrow> is_digit (digit_char d)" "d < 10 \<Longrightarrow> char_digit (digit_char d) = d"
  by (simp_all add: is_digit_def char_digit_def of_char_digit_char)

lemma digits_value_append: "digits_value (xs @ [c]) = digits_value xs * 10 + char_digit c"
  by (simp add: digits_value_def)

lemma digits_value_to_chars [simp]: "digits_value (to_chars n) = n"
  by (induction n rule: to_chars.induct) (subst to_chars.simps, simp add: digits_value_append, simp add: digits_value_def)

lemma to_chars_digits: "\<forall>c\<in>set (to_chars n). is_digit c"
  by (induction n rule: to_chars.induct) (subst to_chars.simps, auto)

lemma digits_value_zeros: "digits_value (replicate k (digit_char 0) @ ds) = digits_value ds"
  by (induction k) (simp_all add: digits_value_def)

lemma NumberText_digits: "\<forall>c\<in>set (NumberText n). is_digit c"
  using to_chars_digits [of "unat n"] by (auto simp: NumberText_def Let_def)

lemma digits_value_NumberText [simp]: "digits_value (NumberText n) = unat n"
  by (simp add: NumberText_def Let_def digits_value_zeros)

lemma to_chars_not_Nil [simp]: "to_chars n \<noteq> []"
  by (subst to_chars.simps) simp

lemma NumberText_not_Nil [simp]: "NumberText n \<noteq> []"
  by (simp add: NumberText_def Let_def)

lemma length_to_chars: "n < 10 ^ k \<Longrightarrow> 0 < k \<Longrightarrow> length (to_chars n) \<le> k"
proof (induction n arbitrary: k rule: to_chars.induct)
  case (1 n)
  show ?case
  proof (cases "n < 10")
    case True
    with 1 show ?thesis by (subst to_chars.simps) simp
  next
    case False
    then obtain j where k: "k = Suc (Suc j)"
      using "1.prems" by (metis One_nat_def not0_implies_Suc not_gr_zero power_one_right)
    then have "n div 10 < 10 ^ Suc j"
      using "1.prems" by (simp add: div_less_iff_less_mult mult.commute)
    with "1.IH" [OF False, of "Suc j"] False k show ?thesis by (subst to_chars.simps) simp
  qed
qed

lemma length_NumberText: "length (NumberText n) \<le> 20"
proof -
  have "unat n < 10 ^ 20"
    using unsigned_less [of n, where ?'a = nat] by simp
  from length_to_chars [OF this] show ?thesis
    by (simp add: NumberText_def Let_def MinimumDigits_def)
qed

lemma from_chars_NumberText [simp]: "from_chars (NumberText n) = Some n"
proof -
  have tw: "takeWhile is_digit (NumberText n) = NumberText n"
    using NumberText_digits by (simp add: takeWhile_eq_all_conv)
  have "unat n < 2 ^ 64"
    using unsigned_less [of n, where ?'a = nat] by simp
  then show ?thesis unfolding from_chars_def tw Let_def by simp
qed

lemma ParseCanonicalNumber_iff: "ParseCanonicalNumber s = Some n \<longleftrightarrow> n \<noteq> 0 \<and> s = NumberText n"
  by (auto simp: ParseCanonicalNumber_def split: option.splits if_splits)

lemma ParseNumbered_iff:
  "ParseNumbered t s = Some p \<longleftrightarrow> parsed_type p = t \<and> parsed_number p \<noteq> 0 \<and> s = NumberText (parsed_number p)"
  by (cases p) (auto simp: ParseNumbered_def ParseCanonicalNumber_iff)

section \<open>Parsing recognises exactly the generated names\<close>

text \<open>The leaf name of a classified file; numbered files have nonzero numbers, the others zero.\<close>

definition file_name_of :: "ParsedFileName \<Rightarrow> string" where
  "file_name_of p =
     (case parsed_type p of
        Log \<Rightarrow> NumberedName (parsed_number p) LogSuffix
      | Table \<Rightarrow> NumberedName (parsed_number p) TableSuffix
      | Temp \<Rightarrow> NumberedName (parsed_number p) TempSuffix
      | Descriptor \<Rightarrow> DescriptorName (parsed_number p)
      | Current \<Rightarrow> ''CURRENT''
      | Lock \<Rightarrow> ''LOCK'')"

definition valid_parsed :: "ParsedFileName \<Rightarrow> bool" where
  "valid_parsed p \<longleftrightarrow> (parsed_type p \<in> {Current, Lock} \<longleftrightarrow> parsed_number p = 0)"

lemmas name_parts = LogSuffix_def TableSuffix_def TempSuffix_def DescriptorPrefix_def

lemma NumberText_Cons: "\<exists>c cs. NumberText n = c # cs \<and> is_digit c"
  using NumberText_digits [of n] by (cases "NumberText n") auto

lemma NumberedName_not_other:
  "NumberedName n sfx \<noteq> ''CURRENT''" "NumberedName n sfx \<noteq> ''LOCK''" "\<not> prefix DescriptorPrefix (NumberedName n sfx)"
  using NumberText_Cons [of n] by (auto simp: NumberedName_def name_parts is_digit_def)

lemma suffix_NumberedName:
  "suffix LogSuffix (NumberedName n TableSuffix) = False" "suffix LogSuffix (NumberedName n TempSuffix) = False"
  "suffix TableSuffix (NumberedName n TempSuffix) = False" "suffix sfx (NumberedName n sfx)"
  by (simp_all add: NumberedName_def name_parts suffix_def)

lemma ParseFileName_file_name_of:
  assumes "valid_parsed p"
  shows "ParseFileName (file_name_of p) = Some p"
proof -
  have other: "DescriptorName n \<noteq> ''CURRENT''" "DescriptorName n \<noteq> ''LOCK''" for n
    by (simp_all add: DescriptorName_def name_parts)
  have num: "ParseNumbered t (NumberText (parsed_number p)) = Some p" if "parsed_type p = t" "t \<notin> {Current, Lock}" for t
    using that assms by (auto simp: ParseNumbered_iff valid_parsed_def)
  have cut: "take (length (NumberedName n sfx) - length sfx) (NumberedName n sfx) = NumberText n" for n sfx
    by (simp add: NumberedName_def)
  show ?thesis
  proof (cases "parsed_type p")
    case Descriptor
    then show ?thesis
      using num by (simp add: file_name_of_def ParseFileName_def other) (simp add: DescriptorName_def)
  next
    case Current
    with assms show ?thesis
      by (cases p) (simp add: file_name_of_def ParseFileName_def valid_parsed_def)
  next
    case Lock
    with assms show ?thesis
      by (cases p) (simp add: file_name_of_def ParseFileName_def valid_parsed_def)
  qed (use num in \<open>simp_all add: file_name_of_def ParseFileName_def NumberedName_not_other NumberedSuffixes_def
      suffix_NumberedName cut\<close>)
qed

lemma suffix_take: "suffix sfx s \<Longrightarrow> take (length s - length sfx) s @ sfx = s"
  by (auto simp: suffix_def)

lemma ParseFileName_Some:
  assumes "ParseFileName s = Some p"
  shows "valid_parsed p \<and> s = file_name_of p"
proof -
  have desc: "s = DescriptorName (parsed_number p)"
    if "prefix DescriptorPrefix s" "drop (length DescriptorPrefix) s = NumberText (parsed_number p)"
    using that by (auto simp: DescriptorName_def prefix_def)
  have numbered: "s = NumberedName (parsed_number p) sfx"
    if "suffix sfx s" "take (length s - length sfx) s = NumberText (parsed_number p)" for sfx
    using suffix_take [OF that(1)] that(2) by (simp add: NumberedName_def)
  show ?thesis
    using assms desc numbered
    by (auto simp: ParseFileName_def NumberedSuffixes_def ParseNumbered_iff file_name_of_def valid_parsed_def
        split: if_splits)
qed

lemma path_filename_join: "CHR ''/'' \<notin> set leaf \<Longrightarrow> path_filename (path_join directory leaf) = leaf"
proof -
  assume leaf: "CHR ''/'' \<notin> set leaf"
  then have tw: "takeWhile (\<lambda>c. c \<noteq> CHR ''/'') (rev leaf @ xs) = rev leaf @ takeWhile (\<lambda>c. c \<noteq> CHR ''/'') xs" for xs
    by (intro takeWhile_append2) auto
  have "directory = [] \<or> (\<exists>d. directory = d @ [last directory])"
    using append_butlast_last_id by metis
  then show ?thesis
    by (auto simp: path_filename_def path_join_def tw)
qed

lemma file_name_of_chars: "c \<in> set (file_name_of p) \<Longrightarrow> c \<noteq> CHR ''/'' \<and> (of_char c :: nat) \<le> 127"
  using NumberText_digits [of "parsed_number p"]
  by (auto simp: file_name_of_def NumberedName_def DescriptorName_def name_parts is_digit_def split: FileType.splits)

lemma length_file_name_of: "length (file_name_of p) \<le> 29"
  using length_NumberText [of "parsed_number p"]
  by (auto simp: file_name_of_def NumberedName_def DescriptorName_def name_parts split: FileType.splits)

text \<open>The path the generators of \<^verbatim>\<open>filenames.h\<close> print for a classified file of a directory, and its leaf.\<close>

definition generated_path :: "string \<Rightarrow> ParsedFileName \<Rightarrow> string" where
  "generated_path directory p =
     (case parsed_type p of
        Log \<Rightarrow> LogFileName directory (parsed_number p)
      | Table \<Rightarrow> TableFileName directory (parsed_number p)
      | Temp \<Rightarrow> TempFileName directory (parsed_number p)
      | Descriptor \<Rightarrow> DescriptorFileName directory (parsed_number p)
      | Current \<Rightarrow> CurrentFileName directory
      | Lock \<Rightarrow> LockFileName directory)"

lemmas generator_defs =
  LogFileName_def TableFileName_def TempFileName_def DescriptorFileName_def CurrentFileName_def LockFileName_def

lemma generated_path_leaf: "generated_path directory p = path_join directory (file_name_of p)"
  by (simp add: generated_path_def file_name_of_def generator_defs split: FileType.split)

lemma path_filename_generated: "path_filename (generated_path directory p) = file_name_of p"
  unfolding generated_path_leaf using file_name_of_chars by (intro path_filename_join) blast

section \<open>Properties\<close>

text \<open>C20: File names round trip.  Parsing a leaf name succeeds exactly when it is the last component of the path
  that the generator of the parsed type prints for the parsed number, in any directory; numbered files have a
  nonzero number and \<^verbatim>\<open>CURRENT\<close> and \<^verbatim>\<open>LOCK\<close> the number zero.  So every generated name is recognised as the
  file it was generated for, no file is taken for another, and a name with a zero, overlong, unpadded or
  overflowing number is rejected.\<close>

theorem parse_file_name_iff:
  "ParseFileName s = Some p \<longleftrightarrow>
     (case parsed_type p of
        Log \<Rightarrow> parsed_number p \<noteq> 0 \<and> s = path_filename (LogFileName directory (parsed_number p))
      | Table \<Rightarrow> parsed_number p \<noteq> 0 \<and> s = path_filename (TableFileName directory (parsed_number p))
      | Temp \<Rightarrow> parsed_number p \<noteq> 0 \<and> s = path_filename (TempFileName directory (parsed_number p))
      | Descriptor \<Rightarrow> parsed_number p \<noteq> 0 \<and> s = path_filename (DescriptorFileName directory (parsed_number p))
      | Current \<Rightarrow> parsed_number p = 0 \<and> s = path_filename (CurrentFileName directory)
      | Lock \<Rightarrow> parsed_number p = 0 \<and> s = path_filename (LockFileName directory))"
proof -
  have "ParseFileName s = Some p \<longleftrightarrow> valid_parsed p \<and> s = path_filename (generated_path directory p)"
    using ParseFileName_file_name_of ParseFileName_Some unfolding path_filename_generated by blast
  then show ?thesis by (cases "parsed_type p") (simp_all add: valid_parsed_def generated_path_def)
qed

text \<open>C21: \<^verbatim>\<open>CURRENT\<close> round trip.  Parsing the contents written for a MANIFEST number returns the number,
  and contents are accepted only if they are what is written for some nonzero number.\<close>

theorem current_file_roundtrip:
  "ParseCurrentFileContents s = Inr n \<longleftrightarrow> n \<noteq> 0 \<and> s = CurrentFileContents n"
proof
  assume a: "ParseCurrentFileContents s = Inr n"
  then obtain p where p: "s \<noteq> []" "last s = CHR 0x0A" "ParseFileName (butlast s) = Some p"
      "parsed_type p = Descriptor" "parsed_number p = n"
    by (auto simp: ParseCurrentFileContents_def split: if_splits option.splits)
  from ParseFileName_Some [OF p(3)] p show "n \<noteq> 0 \<and> s = CurrentFileContents n"
    using append_butlast_last_id [OF p(1)] by (auto simp: CurrentFileContents_def file_name_of_def valid_parsed_def)
next
  assume "n \<noteq> 0 \<and> s = CurrentFileContents n"
  moreover from this have "ParseFileName (DescriptorName n) = Some \<lparr>parsed_type = Descriptor, parsed_number = n\<rparr>"
    using ParseFileName_file_name_of [of "\<lparr>parsed_type = Descriptor, parsed_number = n\<rparr>"]
    by (simp add: valid_parsed_def file_name_of_def)
  ultimately show "ParseCurrentFileContents s = Inr n"
    by (simp add: ParseCurrentFileContents_def CurrentFileContents_def)
qed

text \<open>Directory scans.  Every path the generators produce in any directory is classified, from its
  last component, as the file it was generated for: the fixed-size ASCII buffer never cuts it off.\<close>

theorem parse_native_file_name:
  assumes "valid_parsed p"
  shows "ParseNativeFileName (generated_path directory p) = Some p"
proof -
  have "\<not> (\<exists>c\<in>set (file_name_of p). (of_char c :: nat) > 127)"
    using file_name_of_chars [of _ p] by force
  then show ?thesis
    using length_file_name_of [of p] ParseFileName_file_name_of [OF assms]
    by (simp add: ParseNativeFileName_def path_filename_generated MaximumDigits_def DescriptorPrefix_def)
qed

theorem parse_native_file_name_witness:
  "ParseNativeFileName (TableFileName ''/db'' 12) =
     Some \<lparr>parsed_type = Table, parsed_number = 12\<rparr>"
  using parse_native_file_name [of "\<lparr>parsed_type = Table, parsed_number = 12\<rparr>" "''/db''"]
  by (simp add: valid_parsed_def generated_path_def)

end
