(* ===== verification/Versions.thy ===== *)
theory Versions
  imports Version_Edit File_Names
begin

text \<open>
  Versions and their builder (\<^verbatim>\<open>src/metadata/version.{h,cc}\<close>): the live table files of every level, the checked
  construction of a version from edits, and the linear merge used for edits the engine generates itself.
  Shared pointers to file metadata are the metadata.
\<close>

section \<open>Versions\<close>

definition levels :: nat where
  "levels = unat NumLevels"

record Version =
  v_files :: "FileMetadata list list"
  v_read_pins :: nat

definition Version_New :: Version where
  "Version_New = \<lparr>v_files = replicate levels [], v_read_pins = 0\<rparr>"

definition Version_files :: "Version \<Rightarrow> u32 \<Rightarrow> FileMetadata list" where
  "Version_files version level = v_files version ! unat level"

definition BytesPerSeek :: u64 where
  "BytesPerSeek = 16384"

definition MinimumSeeks :: u64 where
  "MinimumSeeks = 100"

definition InitialAllowedSeeks :: "u64 \<Rightarrow> int" where
  "InitialAllowedSeeks file_size =
     (let seeks = max (file_size div BytesPerSeek) MinimumSeeks
      in uint (min seeks (2 ^ 63 - 1)))"

definition FileBefore :: "comparator \<Rightarrow> FileMetadata \<Rightarrow> FileMetadata \<Rightarrow> bool" where
  "FileBefore comparator left right =
     (let order = InternalKeyCompare comparator (ik_encoded (fm_smallest left)) (ik_encoded (fm_smallest right))
      in if order \<noteq> 0 then order < 0 else fm_number left < fm_number right)"

definition MakeVersionFile :: "FileMetadata \<Rightarrow> FileMetadata" where
  "MakeVersionFile metadata = metadata\<lparr>fm_allowed_seeks := InitialAllowedSeeks (fm_file_size metadata)\<rparr>"

text \<open>\<^verbatim>\<open>std::ranges::sort\<close> by the order of files, which is total on files with different numbers, so every sorting
  algorithm gives the same list.\<close>

fun insert_file :: "comparator \<Rightarrow> FileMetadata \<Rightarrow> FileMetadata list \<Rightarrow> FileMetadata list" where
  "insert_file c file [] = [file]"
| "insert_file c file (f # fs) = (if FileBefore c file f then file # f # fs else f # insert_file c file fs)"

definition sort_files :: "comparator \<Rightarrow> FileMetadata list \<Rightarrow> FileMetadata list" where
  "sort_files c fs = foldr (insert_file c) fs []"

section \<open>The builder\<close>

text \<open>The ordered map of a level is its list of pairs in key order.\<close>

type_synonym level_map = "(u64 \<times> FileMetadata) list"

fun map_emplace :: "u64 \<Rightarrow> FileMetadata \<Rightarrow> level_map \<Rightarrow> level_map" where
  "map_emplace k file [] = [(k, file)]"
| "map_emplace k file ((k', file') # m) =
     (if k < k' then (k, file) # (k', file') # m
      else if k = k' then (k', file') # m else (k', file') # map_emplace k file m)"

definition map_erase :: "u64 \<Rightarrow> level_map \<Rightarrow> level_map" where
  "map_erase k m = filter (\<lambda>entry. fst entry \<noteq> k) m"

definition map_contains :: "u64 \<Rightarrow> level_map \<Rightarrow> bool" where
  "map_contains k m \<longleftrightarrow> k \<in> fst ` set m"

type_synonym VersionBuilder = "level_map list"

definition VersionBuilder_New :: "Version \<Rightarrow> VersionBuilder" where
  "VersionBuilder_New base =
     map (\<lambda>files. fold (\<lambda>file. map_emplace (fm_number file) file) files []) (v_files base)"

definition IsLive :: "VersionBuilder \<Rightarrow> u64 \<Rightarrow> bool" where
  "IsLive builder number \<longleftrightarrow> (\<exists>level \<in> set builder. map_contains number level)"

fun ApplyDeletions :: "VersionBuilder \<Rightarrow> DeletedFile list \<Rightarrow> VersionBuilder result" where
  "ApplyDeletions builder [] = Inr builder"
| "ApplyDeletions builder (deleted # rest) =
     (let level = builder ! unat (df_level deleted)
      in if \<not> map_contains (df_number deleted) level
         then Inl (Error InvalidArgument (''edit deletes file '' @ to_chars (unat (df_number deleted)) @
                '', which is not live in level '' @ to_chars (unat (df_level deleted))))
         else ApplyDeletions (builder[unat (df_level deleted) := map_erase (df_number deleted) level]) rest)"

fun ApplyAdditions :: "comparator \<Rightarrow> VersionBuilder \<Rightarrow> NewFile list \<Rightarrow> VersionBuilder result" where
  "ApplyAdditions c builder [] = Inr builder"
| "ApplyAdditions c builder (added # rest) =
     (let file = nf_file added
      in if IsLive builder (fm_number file)
         then Inl (Error InvalidArgument (''edit adds file '' @ to_chars (unat (fm_number file)) @ '', which is already live''))
         else if InternalKeyCompare c (ik_encoded (fm_smallest file)) (ik_encoded (fm_largest file)) > 0
         then Inl (Error InvalidArgument (''file '' @ to_chars (unat (fm_number file)) @ '' has its smallest key after its largest''))
         else ApplyAdditions c (builder[unat (nf_level added) :=
                map_emplace (fm_number file) (MakeVersionFile file) (builder ! unat (nf_level added))]) rest)"

definition VersionBuilder_Apply :: "comparator \<Rightarrow> VersionBuilder \<Rightarrow> VersionEdit \<Rightarrow> VersionBuilder result" where
  "VersionBuilder_Apply c builder edit =
     bindR (ApplyDeletions builder (ve_deleted_files edit)) (\<lambda>builder1.
       ApplyAdditions c builder1 (ve_new_files edit))"

fun CheckOverlap :: "comparator \<Rightarrow> nat \<Rightarrow> FileMetadata list \<Rightarrow> status" where
  "CheckOverlap c level (f # g # fs) =
     (if level > 0 \<and> InternalKeyCompare c (ik_encoded (fm_largest f)) (ik_encoded (fm_smallest g)) \<ge> 0
      then Inl (Error InvalidArgument (''files '' @ to_chars (unat (fm_number f)) @ '' and '' @
             to_chars (unat (fm_number g)) @ '' overlap in level '' @ to_chars level))
      else CheckOverlap c level (g # fs))"
| "CheckOverlap c level _ = Inr ()"

fun BuildLevels :: "comparator \<Rightarrow> nat \<Rightarrow> VersionBuilder \<Rightarrow> FileMetadata list list result" where
  "BuildLevels c level [] = Inr []"
| "BuildLevels c level (m # builder) =
     (let files = sort_files c (map snd m)
      in bindR (CheckOverlap c level files) (\<lambda>_.
           bindR (BuildLevels c (Suc level) builder) (\<lambda>rest. Inr (files # rest))))"

definition VersionBuilder_Build :: "comparator \<Rightarrow> VersionBuilder \<Rightarrow> Version result" where
  "VersionBuilder_Build c builder =
     bindR (BuildLevels c 0 builder) (\<lambda>files. Inr \<lparr>v_files = files, v_read_pins = 0\<rparr>)"

section \<open>Trusted edits\<close>

record PreparedChanges =
  pc_deletions :: "u64 list list"
  pc_additions :: "FileMetadata list list"

definition CollectDeletions :: "PreparedChanges \<Rightarrow> VersionEdit \<Rightarrow> PreparedChanges" where
  "CollectDeletions changes edit =
     fold (\<lambda>deleted ch. ch\<lparr>pc_deletions := (pc_deletions ch)[unat (df_level deleted) :=
         pc_deletions ch ! unat (df_level deleted) @ [df_number deleted]]\<rparr>) (ve_deleted_files edit) changes"

definition InitializeAdditions :: "PreparedChanges \<Rightarrow> VersionEdit \<Rightarrow> PreparedChanges" where
  "InitializeAdditions changes edit =
     fold (\<lambda>added ch. ch\<lparr>pc_additions := (pc_additions ch)[unat (nf_level added) :=
         pc_additions ch ! unat (nf_level added) @ [MakeVersionFile (nf_file added)]]\<rparr>) (ve_new_files edit) changes"

text \<open>Reserving capacity has no effect on the contents.\<close>

definition PrepareChanges :: "VersionEdit \<Rightarrow> PreparedChanges" where
  "PrepareChanges edit =
     InitializeAdditions (CollectDeletions
       \<lparr>pc_deletions = replicate levels [], pc_additions = replicate levels []\<rparr> edit) edit"

text \<open>\<^verbatim>\<open>std::ranges::binary_search\<close>: the first element not less than the number is not greater either.\<close>

definition binary_search :: "u64 list \<Rightarrow> u64 \<Rightarrow> bool" where
  "binary_search sorted_numbers number =
     (case dropWhile (\<lambda>n. n < number) sorted_numbers of [] \<Rightarrow> False | n # _ \<Rightarrow> \<not> number < n)"

definition AppendRetainedFile :: "FileMetadata list \<Rightarrow> FileMetadata \<Rightarrow> u64 list \<Rightarrow> FileMetadata list" where
  "AppendRetainedFile output file deletions =
     (if \<not> binary_search deletions (fm_number file) then output @ [file] else output)"

fun AppendBasePrefix ::
    "comparator \<Rightarrow> FileMetadata list \<Rightarrow> FileMetadata \<Rightarrow> u64 list \<Rightarrow> FileMetadata list \<Rightarrow> FileMetadata list \<times> FileMetadata list" where
  "AppendBasePrefix c [] limit deletions output = ([], output)"
| "AppendBasePrefix c (file # current) limit deletions output =
     (if FileBefore c file limit
      then AppendBasePrefix c current limit deletions (AppendRetainedFile output file deletions)
      else (file # current, output))"

fun AppendRemainingBase :: "FileMetadata list \<Rightarrow> u64 list \<Rightarrow> FileMetadata list \<Rightarrow> FileMetadata list" where
  "AppendRemainingBase [] deletions output = output"
| "AppendRemainingBase (file # current) deletions output =
     AppendRemainingBase current deletions (AppendRetainedFile output file deletions)"

fun MergeLoop ::
    "comparator \<Rightarrow> FileMetadata list \<Rightarrow> FileMetadata list \<Rightarrow> u64 list \<Rightarrow> FileMetadata list \<Rightarrow> FileMetadata list" where
  "MergeLoop c current [] deletions output = AppendRemainingBase current deletions output"
| "MergeLoop c current (file # additions) deletions output =
     (let (current', output') = AppendBasePrefix c current file deletions output
      in MergeLoop c current' additions deletions (output' @ [file]))"

definition MergeLevelFiles :: "comparator \<Rightarrow> FileMetadata list \<Rightarrow> u64 list \<Rightarrow> FileMetadata list \<Rightarrow> FileMetadata list" where
  "MergeLevelFiles c existing deletions additions = MergeLoop c existing (sort_files c additions) deletions []"

definition VersionBuilder_BuildTrusted :: "comparator \<Rightarrow> Version \<Rightarrow> VersionEdit \<Rightarrow> Version" where
  "VersionBuilder_BuildTrusted c base edit =
     (let changes = PrepareChanges edit
      in \<lparr>v_files = map (\<lambda>level. MergeLevelFiles c (v_files base ! level) (pc_deletions changes ! level)
                       (pc_additions changes ! level)) [0..<levels],
          v_read_pins = 0\<rparr>)"


section \<open>The order of files\<close>

lemma sorted_wrt_unique:
  assumes "\<And>x y. P x y \<Longrightarrow> \<not> P y x"
  shows "sorted_wrt P xs \<Longrightarrow> sorted_wrt P ys \<Longrightarrow> set xs = set ys \<Longrightarrow> xs = ys"
proof (induction xs arbitrary: ys)
  case (Cons x xs)
  then obtain y ys' where ys: "ys = y # ys'" by (cases ys) auto
  have "x = y"
  proof (rule ccontr)
    assume "x \<noteq> y"
    moreover have "x \<in> set ys" "y \<in> set (x # xs)" using Cons.prems(3) ys by auto
    ultimately have "P y x" "P x y" using Cons.prems(1,2) ys by auto
    then show False using assms by blast
  qed
  moreover have "x \<notin> set xs" "y \<notin> set ys'" using Cons.prems(1,2) ys assms by auto
  ultimately have "set xs = set ys'" using Cons.prems(3) ys by auto
  with Cons ys \<open>x = y\<close> show ?case by simp
qed simp

lemma insert_file_set [simp]: "set (insert_file c f fs) = insert f (set fs)"
  by (induction fs) auto

lemma sort_files_set [simp]: "set (sort_files c fs) = set fs"
proof -
  have "set (foldr (insert_file c) fs []) = set fs" by (induction fs) auto
  then show ?thesis by (simp add: sort_files_def)
qed

lemma sort_files_distinct: "distinct (map fm_number (sort_files c fs)) \<longleftrightarrow> distinct (map fm_number fs)"
proof -
  have ins: "distinct (map fm_number (insert_file c f fs)) \<longleftrightarrow> fm_number f \<notin> fm_number ` set fs \<and> distinct (map fm_number fs)"
    for f fs by (induction fs) auto
  have "set (foldr (insert_file c) fs []) = set fs" for fs by (induction fs) auto
  then show ?thesis unfolding sort_files_def by (induction fs) (auto simp: ins)
qed

context user_comparator_laws
begin

lemma FileBefore_iff:
  "FileBefore c f g \<longleftrightarrow>
     InternalKeyCompare c (ik_encoded (fm_smallest f)) (ik_encoded (fm_smallest g)) < 0 \<or>
     InternalKeyCompare c (ik_encoded (fm_smallest f)) (ik_encoded (fm_smallest g)) = 0 \<and> fm_number f < fm_number g"
  by (auto simp: FileBefore_def Let_def)

lemma FileBefore_asym: "FileBefore c f g \<Longrightarrow> \<not> FileBefore c g f"
  using internal_flip [of "ik_encoded (fm_smallest f)" "ik_encoded (fm_smallest g)"] by (auto simp: FileBefore_iff)

lemma FileBefore_total: "fm_number f \<noteq> fm_number g \<Longrightarrow> FileBefore c f g \<or> FileBefore c g f"
  using internal_flip [of "ik_encoded (fm_smallest f)" "ik_encoded (fm_smallest g)"] by (auto simp: FileBefore_iff)

lemma FileBefore_trans:
  assumes "FileBefore c f g" "FileBefore c g h"
  shows "FileBefore c f h"
proof -
  let ?k = "\<lambda>f. ik_encoded (fm_smallest f)"
  have "InternalKeyCompare c (?k f) (?k h) < 0 \<or>
      InternalKeyCompare c (?k f) (?k h) \<le> 0 \<and> fm_number f < fm_number h"
    using assms internal_le_less_trans [of "?k f" "?k g" "?k h"] internal_less_le_trans [of "?k f" "?k g" "?k h"]
      internal_trans [of "?k f" "?k g" "?k h"] by (auto simp: FileBefore_iff)
  then show ?thesis by (auto simp: FileBefore_iff)
qed

lemma insert_file_sorted:
  assumes "sorted_wrt (FileBefore c) fs" "fm_number f \<notin> fm_number ` set fs"
  shows "sorted_wrt (FileBefore c) (insert_file c f fs)"
  using assms
proof (induction fs)
  case (Cons g fs)
  then show ?case
    using FileBefore_trans FileBefore_total [of f g] by (auto 0 3)
qed simp

lemma sort_files_sorted:
  "distinct (map fm_number fs) \<Longrightarrow> sorted_wrt (FileBefore c) (sort_files c fs)"
proof (induction fs)
  case (Cons f fs)
  then have "sorted_wrt (FileBefore c) (insert_file c f (sort_files c fs))"
    by (intro insert_file_sorted) (auto simp: image_iff)
  then show ?case by (simp add: sort_files_def)
qed (simp add: sort_files_def)

lemma files_unique:
  "sorted_wrt (FileBefore c) fs \<Longrightarrow> sorted_wrt (FileBefore c) gs \<Longrightarrow> set fs = set gs \<Longrightarrow> fs = gs"
  by (rule sorted_wrt_unique [of "FileBefore c"]) (auto dest: FileBefore_asym)

end

section \<open>The merge\<close>

lemma binary_search_sorted: "sorted_wrt (<) ns \<Longrightarrow> binary_search ns n \<longleftrightarrow> n \<in> set ns"
proof (induction ns)
  case (Cons m ns)
  then show ?case by (auto simp: binary_search_def)
qed (simp add: binary_search_def)

definition retained :: "u64 list \<Rightarrow> FileMetadata list \<Rightarrow> FileMetadata list" where
  "retained deletions fs = filter (\<lambda>f. \<not> binary_search deletions (fm_number f)) fs"

lemma AppendRemainingBase_eq: "AppendRemainingBase current deletions out = out @ retained deletions current"
  by (induction current arbitrary: out) (auto simp: retained_def AppendRetainedFile_def)

lemma AppendBasePrefix_eq:
  "AppendBasePrefix c current limit deletions out =
     (dropWhile (\<lambda>f. FileBefore c f limit) current,
      out @ retained deletions (takeWhile (\<lambda>f. FileBefore c f limit) current))"
  by (induction current arbitrary: out) (auto simp: retained_def AppendRetainedFile_def)

lemma MergeLoop_output: "MergeLoop c current additions deletions out = out @ MergeLoop c current additions deletions []"
proof (induction additions arbitrary: current out)
  case (Cons f additions)
  show ?case
    by (simp add: AppendBasePrefix_eq) (metis Cons.IH append.assoc)
qed (simp add: AppendRemainingBase_eq)

lemma MergeLoop_Cons:
  "MergeLoop c current (f # additions) deletions [] =
     retained deletions (takeWhile (\<lambda>g. FileBefore c g f) current) @
       f # MergeLoop c (dropWhile (\<lambda>g. FileBefore c g f) current) additions deletions []"
  using MergeLoop_output [of c "dropWhile (\<lambda>g. FileBefore c g f) current" additions deletions
      "retained deletions (takeWhile (\<lambda>g. FileBefore c g f) current) @ [f]"]
  by (simp add: AppendBasePrefix_eq)


context user_comparator_laws
begin

lemma MergeLoop_sorted:
  assumes "sorted_wrt (FileBefore c) existing" "sorted_wrt (FileBefore c) additions"
    and "fm_number ` set (retained deletions existing) \<inter> fm_number ` set additions = {}"
  shows "sorted_wrt (FileBefore c) (MergeLoop c existing additions deletions []) \<and>
     set (MergeLoop c existing additions deletions []) = set (retained deletions existing) \<union> set additions"
  using assms
proof (induction additions arbitrary: existing)
  case Nil
  then show ?case by (simp add: AppendRemainingBase_eq retained_def sorted_wrt_filter)
next
  case (Cons f additions)
  let ?P = "\<lambda>g. FileBefore c g f"
  let ?pre = "takeWhile ?P existing" and ?post = "dropWhile ?P existing"
  have split: "existing = ?pre @ ?post" by simp
  have sorted: "sorted_wrt (FileBefore c) ?pre" "sorted_wrt (FileBefore c) ?post"
    using Cons.prems(1) split by (metis sorted_wrt_append)+
  have parts: "set (retained deletions existing) = set (retained deletions ?pre) \<union> set (retained deletions ?post)"
    using split by (metis filter_append retained_def set_append)
  have IH: "sorted_wrt (FileBefore c) (MergeLoop c ?post additions deletions []) \<and>
      set (MergeLoop c ?post additions deletions []) = set (retained deletions ?post) \<union> set additions"
    using Cons.prems sorted(2) parts by (intro Cons.IH) auto
  have pre: "FileBefore c g f" if "g \<in> set (retained deletions ?pre)" for g
    using that by (auto simp: retained_def dest: set_takeWhileD)
  have post: "FileBefore c f g" if g: "g \<in> set (retained deletions ?post)" for g
  proof -
    obtain h hs where h: "?post = h # hs" using g by (cases ?post) (auto simp: retained_def)
    then have "\<not> FileBefore c h f" by (metis hd_dropWhile list.discI list.sel(1))
    moreover have "g = h \<or> FileBefore c h g" using g h sorted(2) by (auto simp: retained_def split: if_splits)
    ultimately have "\<not> FileBefore c g f" using FileBefore_trans by blast
    moreover have "fm_number g \<noteq> fm_number f"
      using Cons.prems(3) g parts by (metis IntI UnI2 empty_iff imageI list.set_intros(1))
    ultimately show ?thesis using FileBefore_total by blast
  qed
  have rest: "FileBefore c f g" if "g \<in> set (MergeLoop c ?post additions deletions [])" for g
    using that IH post Cons.prems(2) by auto
  have "sorted_wrt (FileBefore c) (retained deletions ?pre)"
    using sorted(1) by (simp add: retained_def sorted_wrt_filter)
  moreover have "\<forall>g \<in> set (retained deletions ?pre). \<forall>h \<in> set (f # MergeLoop c ?post additions deletions []). FileBefore c g h"
    using pre rest FileBefore_trans by (metis set_ConsD)
  ultimately have "sorted_wrt (FileBefore c) (retained deletions ?pre @ f # MergeLoop c ?post additions deletions [])"
    unfolding sorted_wrt_append sorted_wrt.simps using IH rest by blast
  moreover have "set (retained deletions ?pre @ f # MergeLoop c ?post additions deletions []) =
      set (retained deletions existing) \<union> set (f # additions)"
    using IH parts by auto
  ultimately show ?case unfolding MergeLoop_Cons by blast
qed

end

section \<open>Level maps and builders\<close>

definition wf_map :: "level_map \<Rightarrow> bool" where
  "wf_map m \<longleftrightarrow> sorted_wrt (<) (map fst m) \<and> (\<forall>(k, f) \<in> set m. k = fm_number f)"

lemma map_emplace_set: "k \<notin> fst ` set m \<Longrightarrow> set (map_emplace k f m) = insert (k, f) (set m)"
  by (induction k f m rule: map_emplace.induct) auto

lemma map_emplace_sorted:
  assumes "sorted_wrt (<) (map fst m)"
  shows "sorted_wrt (<) (map fst (map_emplace k f m)) \<and> fst ` set (map_emplace k f m) = insert k (fst ` set m)"
  using assms by (induction k f m rule: map_emplace.induct) auto

lemma wf_map_emplace: "wf_map m \<Longrightarrow> fm_number f \<notin> fst ` set m \<Longrightarrow> wf_map (map_emplace (fm_number f) f m)"
  using map_emplace_sorted [of m "fm_number f" f] by (auto simp: wf_map_def map_emplace_set)

lemma wf_map_erase: "wf_map m \<Longrightarrow> wf_map (map_erase k m)"
  by (auto simp: wf_map_def map_erase_def sorted_wrt_map sorted_wrt_filter)

lemma wf_map_distinct: "wf_map m \<Longrightarrow> distinct (map fm_number (map snd m))"
proof -
  assume m: "wf_map m"
  then have "map fm_number (map snd m) = map fst m" by (auto simp: wf_map_def)
  then show ?thesis using m unfolding wf_map_def strict_sorted_iff by metis
qed

lemma wf_map_numbers: "wf_map m \<Longrightarrow> fst ` set m = fm_number ` snd ` set m"
  by (force simp: wf_map_def)

definition files_at :: "VersionBuilder \<Rightarrow> nat \<Rightarrow> FileMetadata set" where
  "files_at builder l = snd ` set (builder ! l)"

abbreviation file_ordered :: "comparator \<Rightarrow> FileMetadata \<Rightarrow> bool" where
  "file_ordered c f \<equiv> InternalKeyCompare c (ik_encoded (fm_smallest f)) (ik_encoded (fm_largest f)) \<le> 0"

definition wf_builder :: "comparator \<Rightarrow> VersionBuilder \<Rightarrow> bool" where
  "wf_builder c builder \<longleftrightarrow>
     length builder = levels \<and> (\<forall>m \<in> set builder. wf_map m) \<and>
     (\<forall>i < levels. \<forall>j < levels. i \<noteq> j \<longrightarrow> fm_number ` files_at builder i \<inter> fm_number ` files_at builder j = {}) \<and>
     (\<forall>l < levels. \<forall>f \<in> files_at builder l. file_ordered c f)"

definition wf_version :: "comparator \<Rightarrow> Version \<Rightarrow> bool" where
  "wf_version c version \<longleftrightarrow>
     length (v_files version) = levels \<and>
     (\<forall>l < levels. sorted_wrt (FileBefore c) (v_files version ! l) \<and> distinct (map fm_number (v_files version ! l)) \<and>
        (\<forall>f \<in> set (v_files version ! l). file_ordered c f)) \<and>
     (\<forall>i < levels. \<forall>j < levels. i \<noteq> j \<longrightarrow>
        fm_number ` set (v_files version ! i) \<inter> fm_number ` set (v_files version ! j) = {}) \<and>
     (\<forall>l < levels. 0 < l \<longrightarrow>
        sorted_wrt (\<lambda>f g. InternalKeyCompare c (ik_encoded (fm_largest f)) (ik_encoded (fm_smallest g)) < 0)
          (v_files version ! l))"

lemma levels_eq: "levels = 7"
  by (simp add: levels_def NumLevels_def)

lemma wf_version_New: "wf_version c Version_New"
  by (auto simp: wf_version_def Version_New_def)

lemma fold_emplace:
  assumes "wf_map m" "distinct (map fm_number fs)" "fst ` set m \<inter> fm_number ` set fs = {}"
  shows "wf_map (fold (\<lambda>f. map_emplace (fm_number f) f) fs m) \<and>
     snd ` set (fold (\<lambda>f. map_emplace (fm_number f) f) fs m) = snd ` set m \<union> set fs"
  using assms
proof (induction fs arbitrary: m)
  case (Cons f fs)
  have f: "fm_number f \<notin> fst ` set m" using Cons.prems(3) by auto
  note set = map_emplace_set [OF f, of f]
  have "wf_map (fold (\<lambda>f. map_emplace (fm_number f) f) fs (map_emplace (fm_number f) f m)) \<and>
     snd ` set (fold (\<lambda>f. map_emplace (fm_number f) f) fs (map_emplace (fm_number f) f m)) =
       snd ` set (map_emplace (fm_number f) f m) \<union> set fs"
    using Cons.prems wf_map_emplace [OF Cons.prems(1) f] set by (intro Cons.IH) auto
  then show ?case using set by auto
qed simp

lemma wf_builder_New:
  assumes "wf_version c base"
  shows "wf_builder c (VersionBuilder_New base)" "l < levels \<Longrightarrow> files_at (VersionBuilder_New base) l = set (v_files base ! l)"
proof -
  have level: "wf_map (VersionBuilder_New base ! l) \<and> files_at (VersionBuilder_New base) l = set (v_files base ! l)"
    if "l < levels" for l
    using fold_emplace [of "[]" "v_files base ! l"] assms that
    by (simp add: VersionBuilder_New_def wf_version_def wf_map_def files_at_def)
  have len: "length (VersionBuilder_New base) = levels" using assms by (simp add: VersionBuilder_New_def wf_version_def)
  have "\<forall>m \<in> set (VersionBuilder_New base). wf_map m" using level len by (auto simp: in_set_conv_nth)
  then show "wf_builder c (VersionBuilder_New base)"
    using assms level len unfolding wf_builder_def wf_version_def by simp
  show "l < levels \<Longrightarrow> files_at (VersionBuilder_New base) l = set (v_files base ! l)" using level by blast
qed


lemma files_at_update: "l < length b \<Longrightarrow> files_at (b[l := m]) j = (if j = l then snd ` set m else files_at b j)"
  by (simp add: files_at_def)

lemma wf_builder_update:
  assumes "wf_builder c b" "l < levels" "wf_map m" "\<forall>f \<in> snd ` set m. file_ordered c f"
    and "\<And>j. j < levels \<Longrightarrow> j \<noteq> l \<Longrightarrow> fm_number ` snd ` set m \<inter> fm_number ` files_at b j = {}"
  shows "wf_builder c (b[l := m])"
proof -
  have len: "length b = levels" using assms(1) by (simp add: wf_builder_def)
  have "\<forall>n \<in> set (b[l := m]). wf_map n"
    using assms(1,3) set_update_subset_insert [of b l m] by (auto simp: wf_builder_def)
  moreover have "fm_number ` files_at (b[l := m]) i \<inter> fm_number ` files_at (b[l := m]) j = {}"
    if "i < levels" "j < levels" "i \<noteq> j" for i j
  proof -
    have "fm_number ` files_at b i \<inter> fm_number ` files_at b j = {}"
      using assms(1) that unfolding wf_builder_def by blast
    then show ?thesis
      using that assms(2) assms(5) [of i] assms(5) [of j] len
      by (cases "i = l"; cases "j = l") (simp_all add: files_at_update Int_commute)
  qed
  moreover have "\<forall>f \<in> files_at (b[l := m]) j. file_ordered c f" if "j < levels" for j
    using that assms(1,2,4) len by (simp add: files_at_update wf_builder_def)
  ultimately show ?thesis using len by (simp add: wf_builder_def)
qed

lemma wf_builder_level: "wf_builder c b \<Longrightarrow> l < levels \<Longrightarrow> wf_map (b ! l)"
  by (simp add: wf_builder_def)

lemma map_contains_number: "wf_map m \<Longrightarrow> map_contains n m \<longleftrightarrow> n \<in> fm_number ` snd ` set m"
  by (simp add: map_contains_def wf_map_numbers)

definition removes :: "DeletedFile list \<Rightarrow> nat \<Rightarrow> FileMetadata \<Rightarrow> bool" where
  "removes dels l f \<longleftrightarrow> (\<exists>d \<in> set dels. unat (df_level d) = l \<and> df_number d = fm_number f)"

definition adds :: "NewFile list \<Rightarrow> nat \<Rightarrow> FileMetadata set" where
  "adds news l = {MakeVersionFile (nf_file n) |n. n \<in> set news \<and> unat (nf_level n) = l}"

lemma erase_files: "wf_map m \<Longrightarrow> snd ` set (map_erase n m) = {f \<in> snd ` set m. fm_number f \<noteq> n}"
  by (force simp: map_erase_def wf_map_def)

lemma erase_level:
  fixes n :: u64
  assumes wf: "wf_builder c b" and l: "l < levels"
  defines "b' \<equiv> b[l := map_erase n (b ! l)]"
  shows "wf_builder c b'" "files_at b' j = {f \<in> files_at b j. \<not> (j = l \<and> fm_number f = n)}"
proof -
  let ?m = "map_erase n (b ! l)"
  note m = wf_builder_level [OF wf l]
  have files: "snd ` set ?m = {f \<in> files_at b l. fm_number f \<noteq> n}"
    using erase_files [OF m] by (simp add: files_at_def)
  show "wf_builder c b'"
    unfolding b'_def
  proof (rule wf_builder_update [OF wf l wf_map_erase [OF m]])
    show "\<forall>f \<in> snd ` set ?m. file_ordered c f" using wf l unfolding files by (auto simp: wf_builder_def)
    show "fm_number ` snd ` set ?m \<inter> fm_number ` files_at b j = {}" if "j < levels" "j \<noteq> l" for j
      using wf that l unfolding files wf_builder_def by blast
  qed
  show "files_at b' j = {f \<in> files_at b j. \<not> (j = l \<and> fm_number f = n)}"
    using wf l files by (auto simp: b'_def files_at_update wf_builder_def)
qed

lemma ApplyDeletions_ok:
  assumes "ApplyDeletions b dels = Inr b'" "wf_builder c b" "\<forall>d \<in> set dels. unat (df_level d) < levels"
  shows "wf_builder c b' \<and> (\<forall>l < levels. files_at b' l = {f \<in> files_at b l. \<not> removes dels l f})"
  using assms
proof (induction b dels rule: ApplyDeletions.induct)
  case (2 b d dels)
  let ?l = "unat (df_level d)"
  let ?b = "b[?l := map_erase (df_number d) (b ! ?l)]"
  have l: "?l < levels" using 2(4) by auto
  have live: "map_contains (df_number d) (b ! ?l)" and rest: "ApplyDeletions ?b dels = Inr b'"
    using 2(2) by (auto simp: Let_def split: if_splits)
  with 2(1) [OF refl _ rest] erase_level(1) [OF 2(3) l] 2(4) have IH: "wf_builder c b'"
    "\<And>l. l < levels \<Longrightarrow> files_at b' l = {f \<in> files_at ?b l. \<not> removes dels l f}" by auto
  have "files_at b' l = {f \<in> files_at b l. \<not> removes (d # dels) l f}" if "l < levels" for l
    unfolding IH(2) [OF that] erase_level(2) [OF 2(3) l] by (auto simp: removes_def)
  with IH(1) show ?case by blast
qed (simp add: removes_def)

lemma ApplyDeletions_iff:
  assumes "wf_builder c b" "\<forall>d \<in> set dels. unat (df_level d) < levels" "distinct dels"
  shows "(\<exists>b'. ApplyDeletions b dels = Inr b') \<longleftrightarrow>
    (\<forall>d \<in> set dels. df_number d \<in> fm_number ` files_at b (unat (df_level d)))"
  using assms
proof (induction b dels rule: ApplyDeletions.induct)
  case (2 b d dels)
  let ?l = "unat (df_level d)"
  let ?b = "b[?l := map_erase (df_number d) (b ! ?l)]"
  have l: "?l < levels" using 2(3) by auto
  have live: "map_contains (df_number d) (b ! ?l) \<longleftrightarrow> df_number d \<in> fm_number ` files_at b ?l"
    using map_contains_number [OF wf_builder_level [OF 2(2) l]] by (simp add: files_at_def)
  have same: "df_number e \<in> fm_number ` files_at ?b (unat (df_level e)) \<longleftrightarrow>
      df_number e \<in> fm_number ` files_at b (unat (df_level e))" if "e \<in> set dels" for e
  proof -
    have "\<not> (df_level e = df_level d \<and> df_number e = df_number d)"
      using that 2(4) by (metis DeletedFile.expand distinct.simps(2))
    then show ?thesis unfolding erase_level(2) [OF 2(2) l] by (auto simp: word_unat_eq_iff image_iff)
  qed
  show ?case
  proof (cases "map_contains (df_number d) (b ! ?l)")
    case True
    then have "(\<exists>b'. ApplyDeletions ?b dels = Inr b') \<longleftrightarrow>
        (\<forall>e \<in> set dels. df_number e \<in> fm_number ` files_at ?b (unat (df_level e)))"
      using 2(3,4) erase_level(1) [OF 2(2) l] by (intro 2(1)) auto
    with True live same show ?thesis by (simp add: Let_def)
  next
    case False
    with live show ?thesis by (simp add: Let_def)
  qed
qed simp

lemma IsLive_iff:
  assumes "wf_builder c b"
  shows "IsLive b n \<longleftrightarrow> (\<exists>l < levels. n \<in> fm_number ` files_at b l)"
proof -
  have "IsLive b n \<longleftrightarrow> (\<exists>l < levels. map_contains n (b ! l))"
    using assms by (metis IsLive_def in_set_conv_nth wf_builder_def)
  then show ?thesis
    unfolding files_at_def using wf_builder_level [OF assms] map_contains_number by blast
qed

lemma MakeVersionFile_sel [simp]:
  "fm_number (MakeVersionFile f) = fm_number f" "fm_smallest (MakeVersionFile f) = fm_smallest f"
  "fm_largest (MakeVersionFile f) = fm_largest f" "fm_file_size (MakeVersionFile f) = fm_file_size f"
  by (simp_all add: MakeVersionFile_def)

lemma emplace_level:
  assumes wf: "wf_builder c b" and l: "l < levels" and fresh: "\<not> IsLive b (fm_number f)" and ordered: "file_ordered c f"
  defines "b' \<equiv> b[l := map_emplace (fm_number f) (MakeVersionFile f) (b ! l)]"
  shows "wf_builder c b'" "files_at b' j = files_at b j \<union> (if j = l then {MakeVersionFile f} else {})"
proof -
  let ?f = "MakeVersionFile f"
  let ?m = "map_emplace (fm_number f) ?f (b ! l)"
  note m = wf_builder_level [OF wf l]
  have number: "fm_number f \<notin> fm_number ` files_at b j" if "j < levels" for j
    using fresh that IsLive_iff [OF wf] by blast
  then have key: "fm_number ?f \<notin> fst ` set (b ! l)" using l wf_map_numbers [OF m] by (simp add: files_at_def)
  have files: "snd ` set ?m = insert ?f (files_at b l)" using map_emplace_set [OF key] by (simp add: files_at_def)
  show "wf_builder c b'"
    unfolding b'_def
  proof (rule wf_builder_update [OF wf l])
    show "wf_map ?m" using wf_map_emplace [OF m key] by simp
    show "\<forall>f \<in> snd ` set ?m. file_ordered c f" using wf l ordered unfolding files by (auto simp: wf_builder_def)
    show "fm_number ` snd ` set ?m \<inter> fm_number ` files_at b j = {}" if "j < levels" "j \<noteq> l" for j
      using wf that l number [OF that(1)] unfolding files wf_builder_def by auto
  qed
  show "files_at b' j = files_at b j \<union> (if j = l then {MakeVersionFile f} else {})"
    using wf l files by (auto simp: b'_def files_at_update wf_builder_def)
qed

lemma ApplyAdditions_ok:
  assumes "ApplyAdditions c b news = Inr b'" "wf_builder c b" "\<forall>n \<in> set news. unat (nf_level n) < levels"
  shows "wf_builder c b' \<and> (\<forall>l < levels. files_at b' l = files_at b l \<union> adds news l)"
  using assms
proof (induction c b news rule: ApplyAdditions.induct)
  case (2 c b n news)
  let ?l = "unat (nf_level n)" and ?f = "nf_file n"
  let ?b = "b[?l := map_emplace (fm_number ?f) (MakeVersionFile ?f) (b ! ?l)]"
  have l: "?l < levels" using 2(4) by auto
  have fresh: "\<not> IsLive b (fm_number ?f)" and ordered: "file_ordered c ?f"
    and rest: "ApplyAdditions c ?b news = Inr b'"
    using 2(2) by (auto simp: Let_def split: if_splits)
  note step = emplace_level [OF 2(3) l fresh ordered]
  from 2(1) [OF refl _ _ rest] fresh ordered step(1) 2(4) have IH: "wf_builder c b'"
    "\<And>l. l < levels \<Longrightarrow> files_at b' l = files_at ?b l \<union> adds news l" by auto
  have "files_at b' l = files_at b l \<union> adds (n # news) l" if "l < levels" for l
    unfolding IH(2) [OF that] step(2) by (auto simp: adds_def)
  with IH(1) show ?case by blast
qed (simp add: adds_def)

lemma ApplyAdditions_iff:
  assumes "wf_builder c b" "\<forall>n \<in> set news. unat (nf_level n) < levels"
  shows "(\<exists>b'. ApplyAdditions c b news = Inr b') \<longleftrightarrow>
     distinct (map (\<lambda>n. fm_number (nf_file n)) news) \<and>
     (\<forall>n \<in> set news. file_ordered c (nf_file n) \<and> \<not> IsLive b (fm_number (nf_file n)))"
  using assms
proof (induction c b news rule: ApplyAdditions.induct)
  case (2 c b n news)
  let ?l = "unat (nf_level n)" and ?f = "nf_file n"
  let ?b = "b[?l := map_emplace (fm_number ?f) (MakeVersionFile ?f) (b ! ?l)]"
  have l: "?l < levels" using 2(3) by auto
  show ?case
  proof (cases "IsLive b (fm_number ?f) \<or> \<not> file_ordered c ?f")
    case False
    then have fresh: "\<not> IsLive b (fm_number ?f)" and ordered: "file_ordered c ?f" by auto
    note step = emplace_level [OF 2(2) l fresh ordered]
    have "IsLive ?b k \<longleftrightarrow> IsLive b k \<or> k = fm_number ?f" for k
    proof -
      have "k \<in> fm_number ` (files_at b j \<union> (if j = ?l then {MakeVersionFile ?f} else {})) \<longleftrightarrow>
          k \<in> fm_number ` files_at b j \<or> j = ?l \<and> k = fm_number ?f" for j
        by auto
      then show ?thesis unfolding IsLive_iff [OF step(1)] IsLive_iff [OF 2(2)] step(2) using l by blast
    qed
    moreover have "(\<exists>b'. ApplyAdditions c ?b news = Inr b') \<longleftrightarrow>
       distinct (map (\<lambda>n. fm_number (nf_file n)) news) \<and>
       (\<forall>n \<in> set news. file_ordered c (nf_file n) \<and> \<not> IsLive ?b (fm_number (nf_file n)))"
      using False step(1) 2(3) by (intro 2(1)) auto
    ultimately show ?thesis using fresh ordered by (auto simp: Let_def image_iff)
  qed (auto simp: Let_def)
qed simp

section \<open>Building\<close>

abbreviation files_apart :: "comparator \<Rightarrow> FileMetadata \<Rightarrow> FileMetadata \<Rightarrow> bool" where
  "files_apart c f g \<equiv> InternalKeyCompare c (ik_encoded (fm_largest f)) (ik_encoded (fm_smallest g)) < 0"

lemma CheckOverlap_iff: "CheckOverlap c l fs = Inr () \<longleftrightarrow> (0 < l \<longrightarrow> successively (files_apart c) fs)"
  by (induction c l fs rule: CheckOverlap.induct) auto

lemma BuildLevels_iff:
  "BuildLevels c k b = Inr files \<longleftrightarrow>
     files = map (\<lambda>m. sort_files c (map snd m)) b \<and>
     (\<forall>i < length b. 0 < k + i \<longrightarrow> successively (files_apart c) (sort_files c (map snd (b ! i))))"
proof (induction b arbitrary: k files)
  case (Cons m b)
  have "(\<forall>i < length (m # b). 0 < k + i \<longrightarrow> successively (files_apart c) (sort_files c (map snd ((m # b) ! i)))) \<longleftrightarrow>
      (0 < k \<longrightarrow> successively (files_apart c) (sort_files c (map snd m))) \<and>
      (\<forall>i < length b. 0 < Suc k + i \<longrightarrow> successively (files_apart c) (sort_files c (map snd (b ! i))))"
    by (auto simp: All_less_Suc2)
  moreover have "CheckOverlap c k fs = Inr u \<longleftrightarrow> (0 < k \<longrightarrow> successively (files_apart c) fs)" for fs u
    using CheckOverlap_iff [of c k fs] by simp
  ultimately show ?case
    by (auto simp: Let_def bindR_eq_Inr Cons.IH)
qed auto

context user_comparator_laws
begin

lemma files_apart_sorted:
  assumes "successively (files_apart c) fs" "\<forall>f \<in> set fs. file_ordered c f"
  shows "sorted_wrt (files_apart c) fs"
  using assms
proof (induction fs rule: induct_list012)
  case (3 f g fs)
  then have sorted: "sorted_wrt (files_apart c) (g # fs)" and fg: "files_apart c f g" "file_ordered c g" by auto
  have "files_apart c f h" if "h \<in> set (g # fs)" for h
  proof (cases "h = g")
    case False
    then have "files_apart c g h" using that sorted by auto
    with fg show ?thesis using internal_less_trans internal_less_le_trans by blast
  qed (use fg in simp)
  with sorted show ?case by simp
qed auto

lemma Build_ok:
  assumes wf: "wf_builder c b" and build: "VersionBuilder_Build c b = Inr v"
  shows "wf_version c v" "l < levels \<Longrightarrow> set (v_files v ! l) = files_at b l" "v_read_pins v = 0"
    "l < levels \<Longrightarrow> v_files v ! l = sort_files c (map snd (b ! l))"
proof -
  have len: "length b = levels" using wf by (simp add: wf_builder_def)
  from build have files: "v_files v = map (\<lambda>m. sort_files c (map snd m)) b"
    and apart: "\<forall>i < length b. 0 < i \<longrightarrow> successively (files_apart c) (sort_files c (map snd (b ! i)))"
    and "v_read_pins v = 0"
    by (auto simp: VersionBuilder_Build_def bindR_eq_Inr BuildLevels_iff)
  then show "v_read_pins v = 0" by blast
  show level: "v_files v ! l = sort_files c (map snd (b ! l))" if "l < levels" for l using that files len by simp
  show set: "set (v_files v ! l) = files_at b l" if "l < levels" for l using level [OF that] by (simp add: files_at_def)
  have sorted: "sorted_wrt (FileBefore c) (v_files v ! l) \<and> distinct (map fm_number (v_files v ! l)) \<and>
      (\<forall>f \<in> set (v_files v ! l). file_ordered c f)" if l: "l < levels" for l
  proof -
    note d = wf_map_distinct [OF wf_builder_level [OF wf l]]
    have "sorted_wrt (FileBefore c) (v_files v ! l)" using sort_files_sorted [OF d] level [OF l] by simp
    moreover have "distinct (map fm_number (v_files v ! l))" using sort_files_distinct d level [OF l] by simp
    moreover have "\<forall>f \<in> set (v_files v ! l). file_ordered c f" using set [OF l] wf l by (simp add: wf_builder_def)
    ultimately show ?thesis by blast
  qed
  moreover have "sorted_wrt (files_apart c) (v_files v ! l)" if "l < levels" "0 < l" for l
    using files_apart_sorted apart that level [OF that(1)] sorted [OF that(1)] len by simp
  moreover have "fm_number ` set (v_files v ! i) \<inter> fm_number ` set (v_files v ! j) = {}"
    if "i < levels" "j < levels" "i \<noteq> j" for i j
    using wf that set unfolding wf_builder_def by simp
  moreover have "length (v_files v) = levels" using files len by simp
  ultimately show "wf_version c v" unfolding wf_version_def by blast
qed

end


section \<open>The trusted merge builds the same version\<close>

lemma CollectDeletions_eq:
  assumes "length (pc_deletions ch) = levels" "l < levels"
  shows "pc_deletions (CollectDeletions ch edit) ! l =
      pc_deletions ch ! l @ map df_number (filter (\<lambda>d. unat (df_level d) = l) (ve_deleted_files edit))"
    and "pc_additions (CollectDeletions ch edit) = pc_additions ch"
    and "length (pc_deletions (CollectDeletions ch edit)) = levels"
proof -
  let ?step = "\<lambda>d ch. ch\<lparr>pc_deletions := (pc_deletions ch)[unat (df_level d) :=
         pc_deletions ch ! unat (df_level d) @ [df_number d]]\<rparr>"
  have "pc_deletions (fold ?step ds ch) ! l = pc_deletions ch ! l @ map df_number (filter (\<lambda>d. unat (df_level d) = l) ds) \<and>
      pc_additions (fold ?step ds ch) = pc_additions ch \<and> length (pc_deletions (fold ?step ds ch)) = levels" for ds
    using assms by (induction ds arbitrary: ch) auto
  then show "pc_deletions (CollectDeletions ch edit) ! l =
      pc_deletions ch ! l @ map df_number (filter (\<lambda>d. unat (df_level d) = l) (ve_deleted_files edit))"
    "pc_additions (CollectDeletions ch edit) = pc_additions ch"
    "length (pc_deletions (CollectDeletions ch edit)) = levels"
    unfolding CollectDeletions_def by blast+
qed

lemma InitializeAdditions_eq:
  assumes "length (pc_additions ch) = levels" "l < levels"
  shows "pc_additions (InitializeAdditions ch edit) ! l =
      pc_additions ch ! l @ map (\<lambda>n. MakeVersionFile (nf_file n)) (filter (\<lambda>n. unat (nf_level n) = l) (ve_new_files edit))"
    and "pc_deletions (InitializeAdditions ch edit) = pc_deletions ch"
proof -
  let ?step = "\<lambda>n ch. ch\<lparr>pc_additions := (pc_additions ch)[unat (nf_level n) :=
         pc_additions ch ! unat (nf_level n) @ [MakeVersionFile (nf_file n)]]\<rparr>"
  have "pc_additions (fold ?step ns ch) ! l =
      pc_additions ch ! l @ map (\<lambda>n. MakeVersionFile (nf_file n)) (filter (\<lambda>n. unat (nf_level n) = l) ns) \<and>
      pc_deletions (fold ?step ns ch) = pc_deletions ch" for ns
    using assms by (induction ns arbitrary: ch) auto
  then show "pc_additions (InitializeAdditions ch edit) ! l =
      pc_additions ch ! l @ map (\<lambda>n. MakeVersionFile (nf_file n)) (filter (\<lambda>n. unat (nf_level n) = l) (ve_new_files edit))"
    "pc_deletions (InitializeAdditions ch edit) = pc_deletions ch"
    unfolding InitializeAdditions_def by blast+
qed

lemma PrepareChanges_eq:
  assumes "l < levels"
  shows "pc_deletions (PrepareChanges edit) ! l = map df_number (filter (\<lambda>d. unat (df_level d) = l) (ve_deleted_files edit))"
    and "pc_additions (PrepareChanges edit) ! l =
      map (\<lambda>n. MakeVersionFile (nf_file n)) (filter (\<lambda>n. unat (nf_level n) = l) (ve_new_files edit))"
  using assms by (simp_all add: PrepareChanges_def InitializeAdditions_eq CollectDeletions_eq)

lemma level_deletions_sorted:
  assumes "wf_edit edit"
  shows "sorted_wrt (<) (map df_number (filter (\<lambda>d. unat (df_level d) = l) (ve_deleted_files edit)))"
proof -
  have "sorted_wrt (<) (ve_deleted_files edit)" using assms by (simp add: wf_edit_def strict_sorted_iff)
  then have "sorted_wrt (<) (filter (\<lambda>d. unat (df_level d) = l) (ve_deleted_files edit))" by (rule sorted_wrt_filter)
  then show ?thesis
    unfolding sorted_wrt_map
    by (rule sorted_wrt_mono_rel [rotated]) (auto simp: less_DeletedFile_def word_unat_eq_iff word_less_nat_alt)
qed

lemma wf_edit_levels:
  assumes "wf_edit edit"
  shows "\<forall>d \<in> set (ve_deleted_files edit). unat (df_level d) < levels" "\<forall>n \<in> set (ve_new_files edit). unat (nf_level n) < levels"
  using assms by (auto simp: wf_edit_def levels_def word_less_nat_alt)


section \<open>Properties\<close>

definition result_files :: "Version \<Rightarrow> VersionEdit \<Rightarrow> nat \<Rightarrow> FileMetadata set" where
  "result_files base edit l =
     {f \<in> set (v_files base ! l). \<not> removes (ve_deleted_files edit) l f} \<union> adds (ve_new_files edit) l"

lemma Apply_builder_ok:
  assumes "wf_builder c b" "wf_edit edit" "VersionBuilder_Apply c b edit = Inr b'"
  shows "wf_builder c b'"
    "l < levels \<Longrightarrow> files_at b' l = {f \<in> files_at b l. \<not> removes (ve_deleted_files edit) l f} \<union> adds (ve_new_files edit) l"
proof -
  obtain b1 where b1: "ApplyDeletions b (ve_deleted_files edit) = Inr b1" "ApplyAdditions c b1 (ve_new_files edit) = Inr b'"
    using assms(3) by (auto simp: VersionBuilder_Apply_def bindR_eq_Inr)
  note dels = ApplyDeletions_ok [OF b1(1) assms(1) wf_edit_levels(1) [OF assms(2)]]
  note news = ApplyAdditions_ok [OF b1(2) dels [THEN conjunct1] wf_edit_levels(2) [OF assms(2)]]
  show "wf_builder c b'" using news by blast
  show "files_at b' l = {f \<in> files_at b l. \<not> removes (ve_deleted_files edit) l f} \<union> adds (ve_new_files edit) l"
    if "l < levels" using dels news that by simp
qed

lemma Apply_ok:
  assumes "wf_version c base" "wf_edit edit" "VersionBuilder_Apply c (VersionBuilder_New base) edit = Inr b"
  shows "wf_builder c b" "l < levels \<Longrightarrow> files_at b l = result_files base edit l"
  using Apply_builder_ok [OF wf_builder_New(1) [OF assms(1)] assms(2,3)] wf_builder_New(2) [OF assms(1)]
  by (simp_all add: result_files_def)

definition valid_edit :: "comparator \<Rightarrow> Version \<Rightarrow> VersionEdit \<Rightarrow> bool" where
  "valid_edit c base edit \<longleftrightarrow>
     (\<forall>d \<in> set (ve_deleted_files edit). df_number d \<in> fm_number ` set (v_files base ! unat (df_level d))) \<and>
     distinct (map (\<lambda>n. fm_number (nf_file n)) (ve_new_files edit)) \<and>
     (\<forall>n \<in> set (ve_new_files edit). file_ordered c (nf_file n) \<and>
        (\<forall>l < levels. \<forall>f \<in> set (v_files base ! l). fm_number f = fm_number (nf_file n) \<longrightarrow> removes (ve_deleted_files edit) l f)) \<and>
     (\<forall>l < levels. 0 < l \<longrightarrow> (\<forall>f \<in> result_files base edit l. \<forall>g \<in> result_files base edit l.
        f \<noteq> g \<longrightarrow> files_apart c f g \<or> files_apart c g f))"

lemma Apply_iff:
  assumes "wf_version c base" "wf_edit edit"
  shows "(\<exists>b. VersionBuilder_Apply c (VersionBuilder_New base) edit = Inr b) \<longleftrightarrow>
     (\<forall>d \<in> set (ve_deleted_files edit). df_number d \<in> fm_number ` set (v_files base ! unat (df_level d))) \<and>
     distinct (map (\<lambda>n. fm_number (nf_file n)) (ve_new_files edit)) \<and>
     (\<forall>n \<in> set (ve_new_files edit). file_ordered c (nf_file n) \<and>
        (\<forall>l < levels. \<forall>f \<in> set (v_files base ! l). fm_number f = fm_number (nf_file n) \<longrightarrow> removes (ve_deleted_files edit) l f))"
proof -
  let ?b = "VersionBuilder_New base"
  note new = wf_builder_New [OF assms(1)] note lv = wf_edit_levels [OF assms(2)]
  have dels: "(\<exists>b1. ApplyDeletions ?b (ve_deleted_files edit) = Inr b1) \<longleftrightarrow>
      (\<forall>d \<in> set (ve_deleted_files edit). df_number d \<in> fm_number ` set (v_files base ! unat (df_level d)))"
    using ApplyDeletions_iff [OF new(1) lv(1)] assms(2) new(2) lv(1) by (simp add: wf_edit_def)
  have "(\<exists>b. ApplyAdditions c b1 (ve_new_files edit) = Inr b) \<longleftrightarrow>
     distinct (map (\<lambda>n. fm_number (nf_file n)) (ve_new_files edit)) \<and>
     (\<forall>n \<in> set (ve_new_files edit). file_ordered c (nf_file n) \<and>
        (\<forall>l < levels. \<forall>f \<in> set (v_files base ! l). fm_number f = fm_number (nf_file n) \<longrightarrow> removes (ve_deleted_files edit) l f))"
    if b1: "ApplyDeletions ?b (ve_deleted_files edit) = Inr b1" for b1
  proof -
    from ApplyDeletions_ok [OF b1 new(1) lv(1)] have wf: "wf_builder c b1"
      and files: "\<And>l. l < levels \<Longrightarrow> files_at b1 l = {f \<in> set (v_files base ! l). \<not> removes (ve_deleted_files edit) l f}"
      using new(2) by auto
    have "\<not> IsLive b1 k \<longleftrightarrow> (\<forall>l < levels. \<forall>f \<in> set (v_files base ! l). fm_number f = k \<longrightarrow> removes (ve_deleted_files edit) l f)" for k
      unfolding IsLive_iff [OF wf] using files by (auto simp: image_iff)
    then show ?thesis using ApplyAdditions_iff [OF wf lv(2)] by simp
  qed
  with dels show ?thesis by (auto simp: VersionBuilder_Apply_def bindR_eq_Inr)
qed

context user_comparator_laws
begin

lemma apart_pairwise:
  assumes "sorted_wrt (FileBefore c) fs" "\<forall>f \<in> set fs. file_ordered c f"
  shows "successively (files_apart c) fs \<longleftrightarrow>
     (\<forall>f \<in> set fs. \<forall>g \<in> set fs. f \<noteq> g \<longrightarrow> files_apart c f g \<or> files_apart c g f)" (is "?L \<longleftrightarrow> ?R")
proof
  assume ?L
  from files_apart_sorted [OF this assms(2)] show ?R
    by (induction fs) auto
next
  assume R: ?R
  have "sorted_wrt (files_apart c) fs"
  proof (rule sorted_wrt_mono_rel [OF _ assms(1)])
    fix f g
    assume fg: "f \<in> set fs" "g \<in> set fs" "FileBefore c f g"
    have "InternalKeyCompare c (ik_encoded (fm_smallest f)) (ik_encoded (fm_largest g)) \<le> 0"
      using fg assms(2) internal_trans [of "ik_encoded (fm_smallest f)" "ik_encoded (fm_smallest g)" "ik_encoded (fm_largest g)"]
      by (auto simp: FileBefore_iff)
    then have "\<not> files_apart c g f"
      using internal_flip(1) [of "ik_encoded (fm_largest g)" "ik_encoded (fm_smallest f)"] by simp
    moreover have "f \<noteq> g" using fg(3) FileBefore_asym by blast
    ultimately show "files_apart c f g" using R fg by blast
  qed
  then show ?L by (rule successively_if_sorted_wrt)
qed

lemma MergeLevelFiles_result:
  assumes base: "wf_version c base" and edit: "wf_edit edit" and l: "l < levels"
    and applied: "VersionBuilder_Apply c (VersionBuilder_New base) edit = Inr b"
  defines "merged \<equiv> MergeLevelFiles c (v_files base ! l) (pc_deletions (PrepareChanges edit) ! l)
      (pc_additions (PrepareChanges edit) ! l)"
  shows "sorted_wrt (FileBefore c) merged" "set merged = result_files base edit l"
proof -
  let ?dels = "pc_deletions (PrepareChanges edit) ! l" and ?adds = "pc_additions (PrepareChanges edit) ! l"
  have accepted: "distinct (map (\<lambda>n. fm_number (nf_file n)) (ve_new_files edit))"
    "\<And>n f. n \<in> set (ve_new_files edit) \<Longrightarrow> f \<in> set (v_files base ! l) \<Longrightarrow> fm_number f = fm_number (nf_file n) \<Longrightarrow>
       removes (ve_deleted_files edit) l f"
    using Apply_iff [OF base edit] applied l by blast+
  have removed: "binary_search ?dels (fm_number f) \<longleftrightarrow> removes (ve_deleted_files edit) l f" for f
    using binary_search_sorted [OF level_deletions_sorted [OF edit]] l by (auto simp: PrepareChanges_eq removes_def image_iff)
  have keep: "set (retained ?dels (v_files base ! l)) = {f \<in> set (v_files base ! l). \<not> removes (ve_deleted_files edit) l f}"
    by (auto simp: retained_def removed)
  have adds: "set ?adds = adds (ve_new_files edit) l" using l by (auto simp: PrepareChanges_eq adds_def)
  have "distinct (map fm_number ?adds)"
    using accepted(1) l by (auto simp: PrepareChanges_eq comp_def distinct_map inj_on_def)
  then have "sorted_wrt (FileBefore c) (sort_files c ?adds)" by (rule sort_files_sorted)
  moreover have "fm_number ` set (retained ?dels (v_files base ! l)) \<inter> fm_number ` set (sort_files c ?adds) = {}"
    unfolding keep sort_files_set adds using accepted(2) by (auto simp: adds_def)
  moreover have "sorted_wrt (FileBefore c) (v_files base ! l)" using base l by (simp add: wf_version_def)
  ultimately show "sorted_wrt (FileBefore c) merged" "set merged = result_files base edit l"
    using MergeLoop_sorted [of "v_files base ! l" "sort_files c ?adds" ?dels] keep adds
    by (simp_all add: merged_def MergeLevelFiles_def result_files_def)
qed

lemma Build_iff:
  assumes wf: "wf_builder c b"
  shows "(\<exists>v. VersionBuilder_Build c b = Inr v) \<longleftrightarrow>
     (\<forall>l < levels. 0 < l \<longrightarrow> (\<forall>f \<in> files_at b l. \<forall>g \<in> files_at b l. f \<noteq> g \<longrightarrow> files_apart c f g \<or> files_apart c g f))"
proof -
  have "successively (files_apart c) (sort_files c (map snd (b ! l))) \<longleftrightarrow>
      (\<forall>f \<in> files_at b l. \<forall>g \<in> files_at b l. f \<noteq> g \<longrightarrow> files_apart c f g \<or> files_apart c g f)" if "l < levels" for l
    using apart_pairwise [OF sort_files_sorted [OF wf_map_distinct [OF wf_builder_level [OF wf that]]]] wf that
    by (simp add: files_at_def wf_builder_def)
  moreover have "length b = levels" using wf by (simp add: wf_builder_def)
  ultimately show ?thesis by (auto simp: VersionBuilder_Build_def bindR_eq_Inr BuildLevels_iff)
qed

end


lemma Build_accepts:
  assumes "user_comparator_laws c" "wf_version c base" "wf_edit edit"
  shows "(\<exists>b v. VersionBuilder_Apply c (VersionBuilder_New base) edit = Inr b \<and> VersionBuilder_Build c b = Inr v) \<longleftrightarrow>
     valid_edit c base edit"
proof -
  define apart where "apart \<longleftrightarrow> (\<forall>l < levels. 0 < l \<longrightarrow> (\<forall>f \<in> result_files base edit l. \<forall>g \<in> result_files base edit l.
        f \<noteq> g \<longrightarrow> files_apart c f g \<or> files_apart c g f))"
  have "(\<exists>v. VersionBuilder_Build c b = Inr v) \<longleftrightarrow> apart"
    if "VersionBuilder_Apply c (VersionBuilder_New base) edit = Inr b" for b
    using user_comparator_laws.Build_iff [OF assms(1) Apply_ok(1) [OF assms(2,3) that]] Apply_ok(2) [OF assms(2,3) that]
    by (simp add: apart_def)
  then have "(\<exists>b v. VersionBuilder_Apply c (VersionBuilder_New base) edit = Inr b \<and> VersionBuilder_Build c b = Inr v) \<longleftrightarrow>
      (\<exists>b. VersionBuilder_Apply c (VersionBuilder_New base) edit = Inr b) \<and> apart"
    by blast
  then show ?thesis by (simp only: Apply_iff [OF assms(2,3)] valid_edit_def apart_def conj_assoc)
qed

lemma BuildTrusted_eq:
  assumes "user_comparator_laws c" "wf_version c base" "wf_edit edit"
    and "VersionBuilder_Apply c (VersionBuilder_New base) edit = Inr b" "VersionBuilder_Build c b = Inr v"
  shows "VersionBuilder_BuildTrusted c base edit = v"
proof -
  note wfb = Apply_ok(1) [OF assms(2-4)]
  note built = user_comparator_laws.Build_ok [OF assms(1) wfb assms(5)]
  have level: "MergeLevelFiles c (v_files base ! l) (pc_deletions (PrepareChanges edit) ! l)
      (pc_additions (PrepareChanges edit) ! l) = v_files v ! l" if l: "l < levels" for l
    using user_comparator_laws.MergeLevelFiles_result [OF assms(1-3) l] assms(4) built(1,2) l Apply_ok(2) [OF assms(2-4)]
    by (intro user_comparator_laws.files_unique [OF assms(1)]) (auto simp: wf_version_def)
  have "map (\<lambda>l. MergeLevelFiles c (v_files base ! l) (pc_deletions (PrepareChanges edit) ! l)
      (pc_additions (PrepareChanges edit) ! l)) [0..<levels] = map ((!) (v_files v)) [0..<levels]"
    using level by simp
  also have "\<dots> = v_files v" using built(1) by (metis map_nth wf_version_def)
  finally show ?thesis using built(3) by (simp add: VersionBuilder_BuildTrusted_def Let_def)
qed

text \<open>C33: A built version is well formed.  Applying a well-formed edit to a well-formed version and building gives
  seven levels, each in file order with distinct numbers and ordered bounds, files above level 0 that do
  not overlap, and exactly the files of the base without the deleted ones plus the added ones with fresh
  seek budgets.\<close>

theorem version_build_invariant:
  assumes "user_comparator_laws c" "wf_version c base" "wf_edit edit"
    and "VersionBuilder_Apply c (VersionBuilder_New base) edit = Inr b" "VersionBuilder_Build c b = Inr v"
  shows "wf_version c v \<and> (\<forall>l < levels. set (v_files v ! l) = result_files base edit l)"
  using user_comparator_laws.Build_ok(1,2) [OF assms(1) Apply_ok(1) [OF assms(2-4)] assms(5)] Apply_ok(2) [OF assms(2-4)]
  by simp

text \<open>C34: The builder accepts exactly the valid edits.  It returns a version if and only if every deleted file is live in
  its level, the added numbers are new and distinct, every added file has ordered bounds, and the files
  that result above level 0 are pairwise apart; every other edit is rejected with an error.\<close>

theorem version_build_accepts:
  assumes "user_comparator_laws c" "wf_version c base" "wf_edit edit"
  shows "(\<exists>b v. VersionBuilder_Apply c (VersionBuilder_New base) edit = Inr b \<and> VersionBuilder_Build c b = Inr v) \<longleftrightarrow>
     valid_edit c base edit"
  using assms by (rule Build_accepts)

text \<open>C35: The trusted merge is equivalent to the checked builder.  Whenever the checked builder accepts an edit,
  merging the edit's per-level changes into the ordered base gives the same version.\<close>

theorem build_trusted_equivalent:
  assumes "user_comparator_laws c" "wf_version c base" "wf_edit edit"
    and "VersionBuilder_Apply c (VersionBuilder_New base) edit = Inr b" "VersionBuilder_Build c b = Inr v"
  shows "VersionBuilder_BuildTrusted c base edit = v"
  using assms by (rule BuildTrusted_eq)

text \<open>A version whose files the example edit deletes.\<close>

definition demo_file :: "u64 \<Rightarrow> FileMetadata" where
  "demo_file n = \<lparr>fm_number = n, fm_file_size = 1000, fm_smallest = demo_key 97, fm_largest = demo_key 98, fm_allowed_seeks = 100\<rparr>"

definition demo_version :: Version where
  "demo_version = \<lparr>v_files = [[demo_file 4], [demo_file 3], [], [], [], [], []], v_read_pins = 0\<rparr>"

lemma demo_key_order: "InternalKeyCompare BytewiseComparator (ik_encoded (demo_key 97)) (ik_encoded (demo_key 98)) < 0"
  by (simp add: demo_key_def InternalKeyCompare_less)

lemma demo_version_wf: "wf_version BytewiseComparator demo_version"
  using demo_key_order
  by (auto simp: wf_version_def demo_version_def levels_eq demo_file_def numeral_eq_Suc less_Suc_eq)


definition demo_built :: Version where
  "demo_built = \<lparr>v_files = [[], [], [demo_file 9], [], [], [], []], v_read_pins = 0\<rparr>"

lemma demo_build:
  "VersionBuilder_Apply BytewiseComparator (VersionBuilder_New demo_version) demo_edit =
     Inr [[], [], [(9, demo_file 9)], [], [], [], []]"
  "VersionBuilder_Build BytewiseComparator [[], [], [(9, demo_file 9)], [], [], [], []] = Inr demo_built"
  using demo_key_order
  by (simp_all add: VersionBuilder_Apply_def VersionBuilder_New_def demo_version_def demo_edit_def demo_file_def
      map_contains_def map_erase_def IsLive_def MakeVersionFile_def InitialAllowedSeeks_def BytesPerSeek_def MinimumSeeks_def
      VersionBuilder_Build_def sort_files_def demo_built_def Let_def)

theorem version_build_invariant_witness:
  "wf_version BytewiseComparator demo_built \<and> set (v_files demo_built ! 1) = result_files demo_version demo_edit 1"
  using version_build_invariant [OF bytewise.user_comparator_laws_axioms demo_version_wf demo_edit_wf(1) demo_build]
  by (simp add: levels_eq)

theorem version_build_accepts_witness: "valid_edit BytewiseComparator demo_version demo_edit"
  using version_build_accepts [OF bytewise.user_comparator_laws_axioms demo_version_wf demo_edit_wf(1)] demo_build
  by blast

theorem build_trusted_equivalent_witness:
  "VersionBuilder_BuildTrusted BytewiseComparator demo_version demo_edit = demo_built"
  by (rule build_trusted_equivalent [OF bytewise.user_comparator_laws_axioms demo_version_wf demo_edit_wf(1) demo_build])

end
