(* ===== verification/Version_Set.thy ===== *)
theory Version_Set
  imports Versions Wal_IO
begin

text \<open>
  The version set (\<^verbatim>\<open>src/metadata/version_set.{h,cc}\<close>): the current version and the database counters, kept in the
  MANIFEST that CURRENT names.  The file system is the interface of \<^verbatim>\<open>src/platform/file_system.h\<close>: a record of its
  operations over a state \<open>'w\<close> of the world, with writable handles \<open>'h\<close> and sequential files \<open>'r\<close>.  Exceptions of
  the allocator are not modelled, except where the terminal error prepares for them.  Releasing the mutex
  around the MANIFEST write has no counterpart: the operations are sequential.
\<close>

section \<open>Strings and terminal errors\<close>

definition AsBytes :: "string \<Rightarrow> bytes" where
  "AsBytes text = map of_char text"

definition AsStringView :: "bytes \<Rightarrow> string" where
  "AsStringView bs = map (\<lambda>b. char_of (unat b)) bs"

text \<open>\<open>allocated\<close> tells whether copying the error succeeds; otherwise the prepared fallback stays.\<close>

definition TerminalError_fallback :: Error where
  "TerminalError_fallback = Error Aborted ''operation aborted; detailed error unavailable during allocation failure''"

definition TerminalError_Record :: "bool \<Rightarrow> Error option \<Rightarrow> Error \<Rightarrow> Error option" where
  "TerminalError_Record allocated terminal error =
     (if terminal \<noteq> None then terminal else if allocated then Some error else Some TerminalError_fallback)"

definition TerminalError_RecordException :: "bool \<Rightarrow> Error option \<Rightarrow> string \<Rightarrow> Error option" where
  "TerminalError_RecordException allocated terminal context = TerminalError_Record allocated terminal (Error Aborted context)"

section \<open>The file system interface\<close>

record ('w, 'h, 'r) FileSystem =
  fs_OpenSequential :: "'w \<Rightarrow> string \<Rightarrow> 'r result \<times> 'w"
  fs_OpenWritable :: "'w \<Rightarrow> string \<Rightarrow> 'h result \<times> 'w"
  fs_RenameFile :: "'w \<Rightarrow> string \<Rightarrow> string \<Rightarrow> status \<times> 'w"
  fs_SyncDirectory :: "'w \<Rightarrow> string \<Rightarrow> status \<times> 'w"
  fs_Append :: "'h \<Rightarrow> 'w \<Rightarrow> bytes \<Rightarrow> status \<times> 'w"
  fs_Flush :: "'h \<Rightarrow> 'w \<Rightarrow> status \<times> 'w"
  fs_Sync :: "'h \<Rightarrow> 'w \<Rightarrow> status \<times> 'w"
  fs_Close :: "'h \<Rightarrow> 'w \<Rightarrow> status \<times> 'w"
  fs_Destroy :: "'h \<Rightarrow> 'w \<Rightarrow> 'w"
  fs_Read :: "'r \<Rightarrow> nat \<Rightarrow> bytes result \<times> 'r"

text \<open>A log writer over a handle: between calls it holds no file state of its own, which is part of the world.\<close>

record 'h Manifest =
  mf_handle :: 'h
  mf_writer :: "unit WalWriter"

definition writer_in :: "'w \<Rightarrow> 'a WalWriter \<Rightarrow> 'w WalWriter" where
  "writer_in world w = \<lparr>ww_file = world, ww_fragmenter = ww_fragmenter w, ww_reopen_padding = ww_reopen_padding w\<rparr>"

definition Manifest_AddRecord ::
    "crc_extend \<Rightarrow> ('w, 'h, 'r) FileSystem \<Rightarrow> 'w \<Rightarrow> 'h Manifest \<Rightarrow> bytes \<Rightarrow> status \<times> 'h Manifest \<times> 'w" where
  "Manifest_AddRecord E fs world manifest rec =
     (let (st, w) = WalWriter_AddRecord E (fs_Append fs (mf_handle manifest)) (fs_Flush fs (mf_handle manifest))
                      (writer_in world (mf_writer manifest)) rec
      in (st, manifest\<lparr>mf_writer := writer_in () w\<rparr>, ww_file w))"

definition Manifest_Sync :: "('w, 'h, 'r) FileSystem \<Rightarrow> 'w \<Rightarrow> 'h Manifest \<Rightarrow> status \<times> 'h Manifest \<times> 'w" where
  "Manifest_Sync fs world manifest =
     (let (st, w) = WalWriter_Sync (fs_Sync fs (mf_handle manifest)) (writer_in world (mf_writer manifest))
      in (st, manifest\<lparr>mf_writer := writer_in () w\<rparr>, ww_file w))"

section \<open>The version set\<close>

definition FileNumberLimit :: u64 where
  "FileNumberLimit = push_bit 63 1"

text \<open>Version objects have identity: \<open>vs_heap\<close> lists the versions ever installed, and a version is named by its index.
  Their file lists never change; the pin counts do.\<close>

record 'h VersionSet =
  vs_directory :: string
  vs_comparator :: comparator
  vs_heap :: "Version list"
  vs_current :: "nat option"
  vs_read_pinned :: "nat list"
  vs_versions :: "nat list"
  vs_compact_pointers :: "InternalKey option list"
  vs_manifest_file_number :: u64
  vs_next_file_number :: u64
  vs_last_sequence :: SequenceNumber
  vs_log_number :: u64
  vs_prev_log_number :: u64
  vs_manifest :: "'h Manifest option"
  vs_failure :: "Error option"

definition VersionSet_New :: "string \<Rightarrow> comparator \<Rightarrow> 'h VersionSet" where
  "VersionSet_New directory comparator =
     \<lparr>vs_directory = directory, vs_comparator = comparator, vs_heap = [], vs_current = None, vs_read_pinned = [],
      vs_versions = [], vs_compact_pointers = replicate levels None, vs_manifest_file_number = 1,
      vs_next_file_number = 2, vs_last_sequence = 0, vs_log_number = 0, vs_prev_log_number = 0,
      vs_manifest = None, vs_failure = None\<rparr>"

definition current_version :: "'h VersionSet \<Rightarrow> Version" where
  "current_version vset = vs_heap vset ! the (vs_current vset)"

text \<open>\<open>held\<close> are the versions owned by shared pointers outside the set.  A weak pointer is expired when nobody owns
  its version.\<close>

definition expired :: "nat set \<Rightarrow> 'h VersionSet \<Rightarrow> nat \<Rightarrow> bool" where
  "expired held vset v \<longleftrightarrow> v \<notin> held \<and> vs_current vset \<noteq> Some v \<and> v \<notin> set (vs_read_pinned vset)"

definition RetainPinnedCurrent :: "'h VersionSet \<Rightarrow> 'h VersionSet" where
  "RetainPinnedCurrent vset =
     (case vs_current vset of None \<Rightarrow> vset
      | Some v \<Rightarrow> if v_read_pins (vs_heap vset ! v) \<noteq> 0 then vset\<lparr>vs_read_pinned := vs_read_pinned vset @ [v]\<rparr> else vset)"

definition RegisterCurrentVersion :: "'h VersionSet \<Rightarrow> nat \<Rightarrow> 'h VersionSet" where
  "RegisterCurrentVersion vset v = vset\<lparr>vs_versions := vs_versions vset @ [v], vs_current := Some v\<rparr>"

text \<open>The new version is allocated before it is installed; \<^verbatim>\<open>ReserveInstall\<close> only reserves capacity.\<close>

definition InstallPrepared :: "nat set \<Rightarrow> 'h VersionSet \<Rightarrow> Version \<Rightarrow> 'h VersionSet" where
  "InstallPrepared held vset version =
     (let v = length (vs_heap vset);
          set1 = RetainPinnedCurrent (vset\<lparr>vs_heap := vs_heap vset @ [version]\<rparr>);
          set2 = set1\<lparr>vs_versions := filter (\<lambda>u. \<not> expired held set1 u) (vs_versions set1)\<rparr>
      in RegisterCurrentVersion set2 v)"

definition PinCurrent :: "'h VersionSet \<Rightarrow> (nat \<times> 'h VersionSet) option" where
  "PinCurrent vset =
     map_option (\<lambda>v. (v, vset\<lparr>vs_heap := (vs_heap vset)[v := (vs_heap vset ! v)
         \<lparr>v_read_pins := v_read_pins (vs_heap vset ! v) + 1\<rparr>]\<rparr>)) (vs_current vset)"

definition ReleaseRead :: "'h VersionSet \<Rightarrow> nat \<Rightarrow> 'h VersionSet" where
  "ReleaseRead vset v =
     (let set1 = vset\<lparr>vs_heap := (vs_heap vset)[v := (vs_heap vset ! v)\<lparr>v_read_pins := v_read_pins (vs_heap vset ! v) - 1\<rparr>]\<rparr>
      in if v_read_pins (vs_heap set1 ! v) \<noteq> 0 \<or> vs_current set1 = Some v then set1
         else set1\<lparr>vs_read_pinned := filter (\<lambda>u. u \<noteq> v) (vs_read_pinned set1)\<rparr>)"

definition CollectVersionFileNumbers :: "Version \<Rightarrow> u64 set \<Rightarrow> u64 set" where
  "CollectVersionFileNumbers version live =
     fold (\<lambda>files live. fold (\<lambda>file. insert (fm_number file)) files live) (v_files version) live"

definition LiveFiles :: "nat set \<Rightarrow> 'h VersionSet \<Rightarrow> u64 set" where
  "LiveFiles held vset =
     fold (\<lambda>v live. if expired held vset v then live else CollectVersionFileNumbers (vs_heap vset ! v) live)
       (vs_versions vset) {}"

definition NewFileNumber :: "'h VersionSet \<Rightarrow> u64 \<times> 'h VersionSet" where
  "NewFileNumber vset = (vs_next_file_number vset, vset\<lparr>vs_next_file_number := vs_next_file_number vset + 1\<rparr>)"

definition MarkFileNumberUsed :: "'h VersionSet \<Rightarrow> u64 \<Rightarrow> status \<times> 'h VersionSet" where
  "MarkFileNumberUsed vset number =
     (if number \<ge> FileNumberLimit
      then (Inl (Error InvalidArgument (''file number '' @ to_chars (unat number) @ '' is beyond the file number limit'')), vset)
      else (Inr (), vset\<lparr>vs_next_file_number := max (vs_next_file_number vset) (number + 1)\<rparr>))"

definition VersionSet_SetLastSequence :: "'h VersionSet \<Rightarrow> SequenceNumber \<Rightarrow> 'h VersionSet" where
  "VersionSet_SetLastSequence vset sequence = vset\<lparr>vs_last_sequence := sequence\<rparr>"

section \<open>Validation\<close>

definition CheckFileNumberCapacity :: "u64 \<Rightarrow> status" where
  "CheckFileNumberCapacity next_file_number =
     (if next_file_number > FileNumberLimit then Inl (Error InvalidArgument ''file numbers are exhausted'') else Inr ())"

definition CheckComparatorName :: "bytes option \<Rightarrow> comparator \<Rightarrow> status" where
  "CheckComparatorName name comparator =
     (case name of Some n \<Rightarrow> if n \<noteq> AsBytes (Name comparator)
        then Inl (Error InvalidArgument (''edit names comparator '' @ AsStringView n)) else Inr ()
      | None \<Rightarrow> Inr ())"

definition value_or :: "'a option \<Rightarrow> 'a \<Rightarrow> 'a" where
  "value_or x d = (case x of None \<Rightarrow> d | Some y \<Rightarrow> y)"

definition CheckCurrentLogNumber :: "u64 option \<Rightarrow> u64 \<Rightarrow> u64 \<Rightarrow> status" where
  "CheckCurrentLogNumber edited_log_number current_log_number next_file_number =
     (let log_number = value_or edited_log_number current_log_number
      in if log_number < current_log_number \<or> log_number \<ge> next_file_number
         then Inl (Error InvalidArgument (''edit's log number '' @ to_chars (unat log_number) @
                '' is below the current one or not below the next file number''))
         else Inr ())"

definition CheckPreviousLogNumber :: "u64 option \<Rightarrow> u64 \<Rightarrow> status" where
  "CheckPreviousLogNumber edited_log_number next_file_number =
     (if value_or edited_log_number 0 \<ge> next_file_number
      then Inl (Error InvalidArgument ''edit's previous log number is not below the next file number'') else Inr ())"

fun CheckAddedFileNumbers :: "NewFile list \<Rightarrow> u64 \<Rightarrow> status" where
  "CheckAddedFileNumbers [] next_file_number = Inr ()"
| "CheckAddedFileNumbers (added # rest) next_file_number =
     (if fm_number (nf_file added) \<ge> next_file_number
      then Inl (Error InvalidArgument (''edit adds file '' @ to_chars (unat (fm_number (nf_file added))) @
             '', which is not below the next file number''))
      else CheckAddedFileNumbers rest next_file_number)"

definition Validate :: "'h VersionSet \<Rightarrow> VersionEdit \<Rightarrow> status" where
  "Validate vset edit =
     bindR (CheckFileNumberCapacity (vs_next_file_number vset)) (\<lambda>_.
     bindR (CheckComparatorName (ve_comparator_name edit) (vs_comparator vset)) (\<lambda>_.
     bindR (CheckCurrentLogNumber (ve_log_number edit) (vs_log_number vset) (vs_next_file_number vset)) (\<lambda>_.
     bindR (CheckPreviousLogNumber (ve_prev_log_number edit) (vs_next_file_number vset)) (\<lambda>_.
       CheckAddedFileNumbers (ve_new_files edit) (vs_next_file_number vset)))))"

definition ApplyCompactPointerEdits :: "VersionEdit \<Rightarrow> InternalKey option list \<Rightarrow> InternalKey option list" where
  "ApplyCompactPointerEdits edit compact_pointers =
     fold (\<lambda>pointer ps. ps[unat (cp_level pointer) := Some (cp_key pointer)]) (ve_compact_pointers edit) compact_pointers"


section \<open>Persistence\<close>

text \<open>The mutators' errors are discarded here as in the source: then the edit is unchanged.\<close>

definition discard_error :: "VersionEdit result \<Rightarrow> VersionEdit \<Rightarrow> VersionEdit" where
  "discard_error r edit = (case r of Inl _ \<Rightarrow> edit | Inr edit' \<Rightarrow> edit')"

definition AddPresentSnapshotPointer :: "VersionEdit \<Rightarrow> u32 \<Rightarrow> InternalKey option \<Rightarrow> VersionEdit" where
  "AddPresentSnapshotPointer snapshot level pointer =
     (case pointer of None \<Rightarrow> snapshot | Some key \<Rightarrow> discard_error (AddCompactPointer snapshot level key) snapshot)"

definition AddSnapshotFiles :: "VersionEdit \<Rightarrow> u32 \<Rightarrow> FileMetadata list \<Rightarrow> VersionEdit" where
  "AddSnapshotFiles snapshot level files =
     fold (\<lambda>file edit. discard_error (AddFile edit level file) edit) files snapshot"

definition Snapshot :: "comparator \<Rightarrow> InternalKey option list \<Rightarrow> Version \<Rightarrow> VersionEdit" where
  "Snapshot user_comparator compact_pointers version =
     fold (\<lambda>level edit. AddSnapshotFiles (AddPresentSnapshotPointer edit (of_nat level) (compact_pointers ! level))
             (of_nat level) (v_files version ! level))
       [0..<levels] (SetComparatorName VersionEdit_New (AsBytes (Name user_comparator)))"

definition PrepareRuntimeEditCounters :: "'h VersionSet \<Rightarrow> VersionEdit \<Rightarrow> u64 \<Rightarrow> u64 \<Rightarrow> VersionEdit" where
  "PrepareRuntimeEditCounters vset edit log_number prev_log_number =
     (let edit1 = SetPrevLogNumber (SetLogNumber edit log_number) prev_log_number;
          edit2 = discard_error (SetNextFileNumber edit1 (vs_next_file_number vset)) edit1
      in discard_error (SetLastSequence edit2 (vs_last_sequence vset)) edit2)"

definition PrepareManifestSnapshot :: "'h VersionSet \<Rightarrow> bytes option" where
  "PrepareManifestSnapshot vset =
     (if vs_manifest vset = None
      then Some (VersionEdit_Encode (Snapshot (vs_comparator vset) (vs_compact_pointers vset) (current_version vset)))
      else None)"

definition CreateManifest ::
    "crc_extend \<Rightarrow> ('w, 'h, 'r) FileSystem \<Rightarrow> 'w \<Rightarrow> 'h VersionSet \<Rightarrow> bytes \<Rightarrow> 'h Manifest result \<times> 'w" where
  "CreateManifest E fs world vset snapshot =
     (case fs_OpenWritable fs world (DescriptorFileName (vs_directory vset) (vs_manifest_file_number vset)) of
        (Inl e, world1) \<Rightarrow> (Inl e, world1)
      | (Inr handle, world1) \<Rightarrow>
          (case Manifest_AddRecord E fs world1 \<lparr>mf_handle = handle, mf_writer = WalWriter_New E () 0\<rparr> snapshot of
             (Inl e, created, world2) \<Rightarrow> (Inl e, fs_Destroy fs handle world2)
           | (Inr _, created, world2) \<Rightarrow> (Inr created, world2)))"

definition WriteCurrentTemporary :: "('w, 'h, 'r) FileSystem \<Rightarrow> 'w \<Rightarrow> 'h \<Rightarrow> bytes \<Rightarrow> status \<times> 'w" where
  "WriteCurrentTemporary fs world file contents =
     (case fs_Append fs file world contents of
        (Inl e, world1) \<Rightarrow> (Inl e, world1)
      | (Inr _, world1) \<Rightarrow>
          (case fs_Sync fs file world1 of
             (Inl e, world2) \<Rightarrow> (Inl e, world2)
           | (Inr _, world2) \<Rightarrow> fs_Close fs file world2))"

definition InstallCurrent :: "('w, 'h, 'r) FileSystem \<Rightarrow> 'w \<Rightarrow> 'h VersionSet \<Rightarrow> status \<times> 'w" where
  "InstallCurrent fs world vset =
     (let temporary = TempFileName (vs_directory vset) (vs_manifest_file_number vset)
      in case fs_OpenWritable fs world temporary of
           (Inl e, world1) \<Rightarrow> (Inl e, world1)
         | (Inr file, world1) \<Rightarrow>
             apsnd (fs_Destroy fs file)
             (case WriteCurrentTemporary fs world1 file (AsBytes (CurrentFileContents (vs_manifest_file_number vset))) of
                (Inl e, world2) \<Rightarrow> (Inl e, world2)
              | (Inr _, world2) \<Rightarrow>
                  (case fs_RenameFile fs world2 temporary (CurrentFileName (vs_directory vset)) of
                     (Inl e, world3) \<Rightarrow> (Inl e, world3)
                   | (Inr _, world3) \<Rightarrow> fs_SyncDirectory fs world3 (vs_directory vset))))"

text \<open>The manifest a write starts from: a new one with the snapshot, or the open one.\<close>

definition SelectManifest ::
    "crc_extend \<Rightarrow> ('w, 'h, 'r) FileSystem \<Rightarrow> 'w \<Rightarrow> 'h VersionSet \<Rightarrow> bytes option \<Rightarrow> 'h Manifest result \<times> 'w" where
  "SelectManifest E fs world vset new_manifest_snapshot =
     (case vs_manifest vset of
        None \<Rightarrow> CreateManifest E fs world vset (the new_manifest_snapshot)
      | Some manifest \<Rightarrow> (Inr manifest, world))"

text \<open>A write that fails destroys the manifest it created; the open manifest keeps its writer state.\<close>

definition DiscardManifest ::
    "('w, 'h, 'r) FileSystem \<Rightarrow> 'h VersionSet \<Rightarrow> 'h Manifest \<Rightarrow> Error \<Rightarrow> 'w \<Rightarrow> status \<times> 'h VersionSet \<times> 'w" where
  "DiscardManifest fs vset manifest e world =
     (if vs_manifest vset = None then (Inl e, vset, fs_Destroy fs (mf_handle manifest) world)
      else (Inl e, vset\<lparr>vs_manifest := Some manifest\<rparr>, world))"

definition VersionSet_Write ::
    "crc_extend \<Rightarrow> ('w, 'h, 'r) FileSystem \<Rightarrow> 'w \<Rightarrow> 'h VersionSet \<Rightarrow> bytes \<Rightarrow> bytes option \<Rightarrow> status \<times> 'h VersionSet \<times> 'w" where
  "VersionSet_Write E fs world vset encoded_edit new_manifest_snapshot =
     (case SelectManifest E fs world vset new_manifest_snapshot of
        (Inl e, world1) \<Rightarrow> (Inl e, vset, world1)
      | (Inr manifest, world1) \<Rightarrow>
          (case Manifest_AddRecord E fs world1 manifest encoded_edit of
             (Inl e, manifest1, world2) \<Rightarrow> DiscardManifest fs vset manifest1 e world2
           | (Inr _, manifest1, world2) \<Rightarrow>
               (case Manifest_Sync fs world2 manifest1 of
                  (Inl e, manifest2, world3) \<Rightarrow> DiscardManifest fs vset manifest2 e world3
                | (Inr _, manifest2, world3) \<Rightarrow>
                    if vs_manifest vset \<noteq> None then (Inr (), vset\<lparr>vs_manifest := Some manifest2\<rparr>, world3)
                    else (case fs_SyncDirectory fs world3 (vs_directory vset) of
                       (Inl e, world4) \<Rightarrow> DiscardManifest fs vset manifest2 e world4
                     | (Inr _, world4) \<Rightarrow>
                         (case InstallCurrent fs world4 vset of
                            (Inl e, world5) \<Rightarrow> DiscardManifest fs vset manifest2 e world5
                          | (Inr _, world5) \<Rightarrow> (Inr (), vset\<lparr>vs_manifest := Some manifest2\<rparr>, world5))))))"

definition PublishPreparedEdit ::
    "nat set \<Rightarrow> 'h VersionSet \<Rightarrow> InternalKey option list \<Rightarrow> Version \<Rightarrow> u64 \<Rightarrow> u64 \<Rightarrow> 'h VersionSet" where
  "PublishPreparedEdit held vset compact_pointers candidate log_number prev_log_number =
     InstallPrepared held (vset\<lparr>vs_compact_pointers := compact_pointers, vs_log_number := log_number,
       vs_prev_log_number := prev_log_number\<rparr>) candidate"

definition ApplyPrepared ::
    "crc_extend \<Rightarrow> ('w, 'h, 'r) FileSystem \<Rightarrow> bool \<Rightarrow> nat set \<Rightarrow> 'w \<Rightarrow> 'h VersionSet \<Rightarrow> VersionEdit \<Rightarrow> Version \<Rightarrow>
      status \<times> 'h VersionSet \<times> 'w" where
  "ApplyPrepared E fs allocated held world vset edit version =
     (let log_number = value_or (ve_log_number edit) (vs_log_number vset);
          prev_log_number = value_or (ve_prev_log_number edit) (vs_prev_log_number vset);
          edit1 = PrepareRuntimeEditCounters vset edit log_number prev_log_number;
          compact_pointers = ApplyCompactPointerEdits edit1 (vs_compact_pointers vset);
          new_manifest_snapshot = PrepareManifestSnapshot vset
      in case VersionSet_Write E fs world vset (VersionEdit_Encode edit1) new_manifest_snapshot of
           (Inl e, vset1, world1) \<Rightarrow>
             (Inl e, vset1\<lparr>vs_failure := TerminalError_Record allocated (vs_failure vset1) e\<rparr>, world1)
         | (Inr _, vset1, world1) \<Rightarrow>
             (Inr (), PublishPreparedEdit held vset1 compact_pointers version log_number prev_log_number, world1))"

definition LogAndApply ::
    "crc_extend \<Rightarrow> ('w, 'h, 'r) FileSystem \<Rightarrow> bool \<Rightarrow> nat set \<Rightarrow> 'w \<Rightarrow> 'h VersionSet \<Rightarrow> VersionEdit \<Rightarrow>
      status \<times> 'h VersionSet \<times> 'w" where
  "LogAndApply E fs allocated held world vset edit =
     (case vs_failure vset of
        Some e \<Rightarrow> (Inl e, vset, world)
      | None \<Rightarrow>
          (case bindR (Validate vset edit) (\<lambda>_.
             bindR (VersionBuilder_Apply (vs_comparator vset) (VersionBuilder_New (current_version vset)) edit) (\<lambda>builder.
               VersionBuilder_Build (vs_comparator vset) builder)) of
             Inl e \<Rightarrow> (Inl e, vset, world)
           | Inr version \<Rightarrow> ApplyPrepared E fs allocated held world vset edit version))"

definition LogAndApplyTrusted ::
    "crc_extend \<Rightarrow> ('w, 'h, 'r) FileSystem \<Rightarrow> bool \<Rightarrow> nat set \<Rightarrow> 'w \<Rightarrow> 'h VersionSet \<Rightarrow> VersionEdit \<Rightarrow>
      status \<times> 'h VersionSet \<times> 'w" where
  "LogAndApplyTrusted E fs allocated held world vset edit =
     (case vs_failure vset of
        Some e \<Rightarrow> (Inl e, vset, world)
      | None \<Rightarrow>
          (case Validate vset edit of
             Inl e \<Rightarrow> (Inl e, vset, world)
           | Inr _ \<Rightarrow> ApplyPrepared E fs allocated held world vset edit
               (VersionBuilder_BuildTrusted (vs_comparator vset) (current_version vset) edit)))"

definition VersionSet_Create ::
    "crc_extend \<Rightarrow> ('w, 'h, 'r) FileSystem \<Rightarrow> bool \<Rightarrow> 'w \<Rightarrow> string \<Rightarrow> comparator \<Rightarrow> 'h VersionSet result \<times> 'w" where
  "VersionSet_Create E fs allocated world directory comparator =
     (case LogAndApply E fs allocated {} world (InstallPrepared {} (VersionSet_New directory comparator) Version_New)
             VersionEdit_New of
        (Inl e, vset, world1) \<Rightarrow> (Inl e, world1)
      | (Inr _, vset, world1) \<Rightarrow> (Inr vset, world1))"

end
