(* ===== verification/Manifest_Recovery.thy ===== *)
theory Manifest_Recovery
  imports Version_Set Wal_Recovery
begin

text \<open>
  Recovery of a version set (\<^verbatim>\<open>ManifestRecovery\<close> and \<^verbatim>\<open>Recover\<close> in \<^verbatim>\<open>src/metadata/version_set.cc\<close>): CURRENT is read,
  the MANIFEST it names is replayed edit by edit, and the counters are checked and published.
\<close>

section \<open>Selecting the MANIFEST\<close>

definition ReadCurrentChunk :: "('r \<Rightarrow> nat \<Rightarrow> bytes result \<times> 'r) \<Rightarrow> 'r \<Rightarrow> nat \<Rightarrow> bytes result \<times> 'r" where
  "ReadCurrentChunk read_file file output_size =
     (case read_file file output_size of
        (Inl e, file1) \<Rightarrow> (Inl e, file1)
      | (Inr bs, file1) \<Rightarrow>
          if length bs > output_size then (Inl (Error Io ''CURRENT returned an oversized read''), file1)
          else (Inr bs, file1))"

partial_function (option) ReadCurrentLoop ::
    "('r \<Rightarrow> nat \<Rightarrow> bytes result \<times> 'r) \<Rightarrow> 'r \<Rightarrow> string \<Rightarrow> string result option" where
  "ReadCurrentLoop read_file file contents =
     (case ReadCurrentChunk read_file file 64 of
        (Inl e, file1) \<Rightarrow> Some (Inl e)
      | (Inr bs, file1) \<Rightarrow>
          if bs = [] then Some (Inr contents) else ReadCurrentLoop read_file file1 (contents @ AsStringView bs))"

definition ReadCurrentContents :: "('r \<Rightarrow> nat \<Rightarrow> bytes result \<times> 'r) \<Rightarrow> 'r \<Rightarrow> string result option" where
  "ReadCurrentContents read_file file = ReadCurrentLoop read_file file []"

definition ReadCurrent :: "('w, 'h, 'r) FileSystem \<Rightarrow> 'w \<Rightarrow> string \<Rightarrow> (string result \<times> 'w) option" where
  "ReadCurrent fs world directory =
     (case fs_OpenSequential fs world (CurrentFileName directory) of
        (Inl e, world1) \<Rightarrow> Some (Inl e, world1)
      | (Inr file, world1) \<Rightarrow> map_option (\<lambda>contents. (contents, world1)) (ReadCurrentContents (fs_Read fs) file))"

record 'r SelectedManifest =
  sm_number :: u64
  sm_file :: 'r

definition OpenSelectedManifest ::
    "('w, 'h, 'r) FileSystem \<Rightarrow> 'w \<Rightarrow> string \<Rightarrow> ('r SelectedManifest result \<times> 'w) option" where
  "OpenSelectedManifest fs world directory =
     map_option (\<lambda>(current, world1).
       case bindR current ParseCurrentFileContents of
         Inl e \<Rightarrow> (Inl e, world1)
       | Inr number \<Rightarrow>
           if number \<ge> FileNumberLimit
           then (Inl (Error Corruption ''CURRENT names a MANIFEST beyond the file number limit''), world1)
           else (case fs_OpenSequential fs world1 (DescriptorFileName directory number) of
              (Inl e, world2) \<Rightarrow>
                (Inl (if error_code e = NotFound
                      then Error Corruption (''CURRENT names a missing MANIFEST: '' @ error_message e) else e), world2)
            | (Inr file, world2) \<Rightarrow> (Inr \<lparr>sm_number = number, sm_file = file\<rparr>, world2)))
       (ReadCurrent fs world directory)"

section \<open>Replaying the records\<close>

definition InManifest :: "nat \<Rightarrow> Error \<Rightarrow> Error" where
  "InManifest offset error =
     Error Corruption (''MANIFEST record at offset '' @ to_chars offset @ '': '' @ error_message error)"

record ManifestRecovery =
  mr_builder :: VersionBuilder
  mr_next_file :: "u64 option"
  mr_log_number :: "u64 option"
  mr_last_sequence :: "SequenceNumber option"
  mr_prev_log_number :: u64
  mr_largest_number :: u64

definition ManifestRecovery_New :: ManifestRecovery where
  "ManifestRecovery_New =
     \<lparr>mr_builder = VersionBuilder_New Version_New, mr_next_file = None, mr_log_number = None, mr_last_sequence = None,
      mr_prev_log_number = 0, mr_largest_number = 0\<rparr>"

definition CheckComparator :: "VersionEdit \<Rightarrow> comparator \<Rightarrow> status" where
  "CheckComparator edit comparator =
     (case ve_comparator_name edit of
        Some n \<Rightarrow> if n \<noteq> AsBytes (Name comparator)
          then Inl (Error InvalidArgument (''MANIFEST comparator '' @ AsStringView n @ '' does not match '' @ Name comparator))
          else Inr ()
      | None \<Rightarrow> Inr ())"

definition IncludeAddedFileNumbers :: "ManifestRecovery \<Rightarrow> VersionEdit \<Rightarrow> ManifestRecovery" where
  "IncludeAddedFileNumbers recovery edit =
     fold (\<lambda>added r. r\<lparr>mr_largest_number := max (mr_largest_number r) (fm_number (nf_file added))\<rparr>)
       (ve_new_files edit) recovery"

definition AccumulateLogNumber :: "ManifestRecovery \<Rightarrow> VersionEdit \<Rightarrow> nat \<Rightarrow> ManifestRecovery result" where
  "AccumulateLogNumber recovery edit offset =
     (case ve_log_number edit of
        None \<Rightarrow> Inr recovery
      | Some n \<Rightarrow>
          (case mr_log_number recovery of
             Some l \<Rightarrow> if n < l then Inl (InManifest offset (Error Corruption ''log number decreases''))
                       else Inr (recovery\<lparr>mr_log_number := Some n\<rparr>)
           | None \<Rightarrow> Inr (recovery\<lparr>mr_log_number := Some n\<rparr>)))"

definition AccumulateSparseCounters :: "ManifestRecovery \<Rightarrow> VersionEdit \<Rightarrow> ManifestRecovery" where
  "AccumulateSparseCounters recovery edit =
     (let r1 = (if ve_next_file_number edit \<noteq> None then recovery\<lparr>mr_next_file := ve_next_file_number edit\<rparr> else recovery);
          r2 = (if ve_last_sequence edit \<noteq> None then r1\<lparr>mr_last_sequence := ve_last_sequence edit\<rparr> else r1)
      in r2\<lparr>mr_prev_log_number := value_or (ve_prev_log_number edit) (mr_prev_log_number r2)\<rparr>)"

definition AccumulateCounters :: "ManifestRecovery \<Rightarrow> VersionEdit \<Rightarrow> nat \<Rightarrow> ManifestRecovery result" where
  "AccumulateCounters recovery edit offset =
     map_sum id (\<lambda>r.
       let r1 = AccumulateSparseCounters r edit
       in r1\<lparr>mr_largest_number := max (mr_largest_number r1) (max (value_or (mr_log_number r1) 0) (mr_prev_log_number r1))\<rparr>)
       (AccumulateLogNumber (IncludeAddedFileNumbers recovery edit) edit offset)"

text \<open>The recovery works on its own counters and on the compact pointers of the set.  A failed replay is
  abandoned with the set, so that an error carries no state.\<close>

definition ApplyRecord ::
    "ManifestRecovery \<Rightarrow> bytes \<Rightarrow> nat \<Rightarrow> 'h VersionSet \<Rightarrow> (ManifestRecovery \<times> 'h VersionSet) result" where
  "ApplyRecord recovery data offset vset =
     (case VersionEdit_Decode data of
        Inl e \<Rightarrow> Inl (InManifest offset e)
      | Inr edit \<Rightarrow>
          bindR (CheckComparator edit (vs_comparator vset)) (\<lambda>_.
            case VersionBuilder_Apply (vs_comparator vset) (mr_builder recovery) edit of
              Inl e \<Rightarrow> Inl (InManifest offset e)
            | Inr builder \<Rightarrow>
                map_sum id (\<lambda>r. (r, vset\<lparr>vs_compact_pointers := ApplyCompactPointerEdits edit (vs_compact_pointers vset)\<rparr>))
                  (AccumulateCounters (recovery\<lparr>mr_builder := builder\<rparr>) edit offset)))"

partial_function (option) Replay ::
    "('r \<Rightarrow> nat \<Rightarrow> bytes result \<times> 'r) \<Rightarrow> crc_extend \<Rightarrow> 'r WalReader \<Rightarrow> ManifestRecovery \<Rightarrow> 'h VersionSet \<Rightarrow>
      (ManifestRecovery \<times> 'h VersionSet) result option" where
  "Replay read_file E reader recovery vset =
     (case WalReader_ReadNext read_file E reader of
        None \<Rightarrow> None
      | Some (Inl e, reader1) \<Rightarrow> Some (Inl e)
      | Some (Inr None, reader1) \<Rightarrow> Some (Inr (recovery, vset))
      | Some (Inr (Some (WalCorruption error dropped offset)), reader1) \<Rightarrow> Some (Inl (InManifest offset error))
      | Some (Inr (Some (WalLogicalRecord data offset)), reader1) \<Rightarrow>
          (case ApplyRecord recovery data offset vset of
             Inl e \<Rightarrow> Some (Inl e)
           | Inr (recovery1, vset1) \<Rightarrow> Replay read_file E reader1 recovery1 vset1))"

declare ReadCurrentLoop.simps [code] Replay.simps [code]

section \<open>Finishing\<close>

definition RequireRecoveredCounterFields :: "ManifestRecovery \<Rightarrow> status" where
  "RequireRecoveredCounterFields recovery =
     (if mr_next_file recovery = None then Inl (Error Corruption ''MANIFEST has no next file number'')
      else if mr_log_number recovery = None then Inl (Error Corruption ''MANIFEST has no log number'')
      else if mr_last_sequence recovery = None then Inl (Error Corruption ''MANIFEST has no last sequence'')
      else Inr ())"

definition ValidateRecoveredCounterBounds :: "ManifestRecovery \<Rightarrow> u64 \<Rightarrow> status" where
  "ValidateRecoveredCounterBounds recovery next_number =
     (if next_number > FileNumberLimit
      then Inl (Error Corruption ''MANIFEST's next file number is beyond the file number limit'')
      else if mr_largest_number recovery \<ge> next_number
      then Inl (Error Corruption (''MANIFEST names file or log number '' @ to_chars (unat (mr_largest_number recovery)) @
             '', which is not below its next file number''))
      else Inr ())"

definition ValidateCounters :: "ManifestRecovery \<Rightarrow> status" where
  "ValidateCounters recovery =
     bindR (RequireRecoveredCounterFields recovery) (\<lambda>_.
       ValidateRecoveredCounterBounds recovery (the (mr_next_file recovery)))"

definition PublishRecoveredCounters :: "ManifestRecovery \<Rightarrow> 'h VersionSet \<Rightarrow> u64 \<Rightarrow> 'h VersionSet" where
  "PublishRecoveredCounters recovery vset selected_number =
     (let manifest_file_number = max (the (mr_next_file recovery)) (selected_number + 1)
      in vset\<lparr>vs_manifest_file_number := manifest_file_number, vs_next_file_number := manifest_file_number + 1,
           vs_last_sequence := the (mr_last_sequence recovery), vs_log_number := the (mr_log_number recovery),
           vs_prev_log_number := mr_prev_log_number recovery\<rparr>)"

definition Recovery_Finish :: "ManifestRecovery \<Rightarrow> 'h VersionSet \<Rightarrow> u64 \<Rightarrow> 'h VersionSet result" where
  "Recovery_Finish recovery vset selected_number =
     bindR (ValidateCounters recovery) (\<lambda>_.
       case VersionBuilder_Build (vs_comparator vset) (mr_builder recovery) of
         Inl e \<Rightarrow> Inl (Error Corruption (''MANIFEST: '' @ error_message e))
       | Inr version \<Rightarrow> Inr (InstallPrepared {} (PublishRecoveredCounters recovery vset selected_number) version))"

definition VersionSet_Recover ::
    "crc_extend \<Rightarrow> ('w, 'h, 'r) FileSystem \<Rightarrow> 'w \<Rightarrow> string \<Rightarrow> comparator \<Rightarrow> ('h VersionSet result \<times> 'w) option" where
  "VersionSet_Recover E fs world directory comparator =
     (case OpenSelectedManifest fs world directory of
        None \<Rightarrow> None
      | Some (Inl e, world1) \<Rightarrow> Some (Inl e, world1)
      | Some (Inr selected, world1) \<Rightarrow>
          map_option (\<lambda>replayed. (bindR replayed (\<lambda>(recovery, vset). Recovery_Finish recovery vset (sm_number selected)), world1))
            (Replay (fs_Read fs) E (WalReader_New (Some (sm_file selected))) ManifestRecovery_New
               (VersionSet_New directory comparator)))"

end
