(* ===== verification/Version_Set_Clients.thy ===== *)
theory Version_Set_Clients
  imports Manifest_Recovery
begin

text \<open>
  What a version set promises to its clients: the outcomes of \<open>LogAndApply\<close>, the invariant of the set under every
  operation, that the live files are those of the versions somebody can still read, and that a valid edit is
  applied unless a file operation reports an error.
\<close>

section \<open>The invariant\<close>

definition wf_set_file :: "u64 \<Rightarrow> FileMetadata \<Rightarrow> bool" where
  "wf_set_file next_number f \<longleftrightarrow> wf_file f \<and> key_fits (fm_smallest f) \<and> key_fits (fm_largest f) \<and> fm_number f < next_number"

definition wf_set_version :: "comparator \<Rightarrow> u64 \<Rightarrow> Version \<Rightarrow> bool" where
  "wf_set_version c next_number version \<longleftrightarrow>
     wf_version c version \<and> (\<forall>l < levels. \<forall>f \<in> set (v_files version ! l). wf_set_file next_number f)"

definition wf_pointers :: "InternalKey option list \<Rightarrow> bool" where
  "wf_pointers pointers \<longleftrightarrow>
     length pointers = levels \<and> (\<forall>key. Some key \<in> set pointers \<longrightarrow> IsValidInternalKey key \<and> key_fits key)"

definition wf_counters :: "'h VersionSet \<Rightarrow> bool" where
  "wf_counters vset \<longleftrightarrow>
     vs_log_number vset < vs_next_file_number vset \<and> vs_prev_log_number vset < vs_next_file_number vset \<and>
     vs_manifest_file_number vset < vs_next_file_number vset \<and> vs_last_sequence vset \<le> MaxSequenceNumber"

definition wf_set :: "'h VersionSet \<Rightarrow> bool" where
  "wf_set vset \<longleftrightarrow>
     (\<exists>v < length (vs_heap vset). vs_current vset = Some v) \<and>
     (\<forall>version \<in> set (vs_heap vset). wf_set_version (vs_comparator vset) (vs_next_file_number vset) version) \<and>
     set (vs_versions vset) \<subseteq> {..<length (vs_heap vset)} \<and>
     length (AsBytes (Name (vs_comparator vset))) < 2 ^ 32 \<and>
     wf_pointers (vs_compact_pointers vset) \<and> wf_counters vset"

section \<open>Outcomes\<close>

lemma SelectManifest_created: "vs_manifest vset = Some m \<Longrightarrow> SelectManifest E fs world vset snapshot = (Inr m, world)"
  by (simp add: SelectManifest_def)

lemma VersionSet_Write_set:
  assumes "VersionSet_Write E fs world vset encoded snapshot = (st, vset', world')"
  obtains m where "vset' = vset\<lparr>vs_manifest := m\<rparr>" "st = Inr () \<Longrightarrow> m \<noteq> None"
proof -
  have "\<exists>m. vset = vset\<lparr>vs_manifest := m\<rparr>" by (rule exI [of _ "vs_manifest vset"]) simp
  then have "\<exists>m. vset' = vset\<lparr>vs_manifest := m\<rparr> \<and> (st = Inr () \<longrightarrow> m \<noteq> None)"
    using assms unfolding VersionSet_Write_def DiscardManifest_def
    by (auto split: prod.splits sum.splits if_splits)
  then show ?thesis using that by blast
qed

text \<open>The edit as it is recorded, and the set after it is published.\<close>

definition recorded_edit :: "'h VersionSet \<Rightarrow> VersionEdit \<Rightarrow> VersionEdit" where
  "recorded_edit vset edit = PrepareRuntimeEditCounters vset edit
     (value_or (ve_log_number edit) (vs_log_number vset)) (value_or (ve_prev_log_number edit) (vs_prev_log_number vset))"

definition published :: "nat set \<Rightarrow> 'h VersionSet \<Rightarrow> VersionEdit \<Rightarrow> Version \<Rightarrow> 'h VersionSet" where
  "published held vset edit version = PublishPreparedEdit held vset
     (ApplyCompactPointerEdits edit (vs_compact_pointers vset)) version
     (value_or (ve_log_number edit) (vs_log_number vset)) (value_or (ve_prev_log_number edit) (vs_prev_log_number vset))"

lemma recorded_edit_fields [simp]:
  "ve_compact_pointers (recorded_edit vset edit) = ve_compact_pointers edit"
  "ve_deleted_files (recorded_edit vset edit) = ve_deleted_files edit"
  "ve_new_files (recorded_edit vset edit) = ve_new_files edit"
  "ve_comparator_name (recorded_edit vset edit) = ve_comparator_name edit"
  "ve_log_number (recorded_edit vset edit) = Some (value_or (ve_log_number edit) (vs_log_number vset))"
  "ve_prev_log_number (recorded_edit vset edit) = Some (value_or (ve_prev_log_number edit) (vs_prev_log_number vset))"
  by (simp_all add: recorded_edit_def PrepareRuntimeEditCounters_def Let_def discard_error_def SetNextFileNumber_def
      SetLastSequence_def SetLogNumber_def SetPrevLogNumber_def split: sum.splits)

lemma ApplyPrepared_cases:
  assumes "ApplyPrepared E fs allocated held world vset edit version = (st, vset', world')" "vs_failure vset = None"
  obtains (failed) e m where "st = Inl e"
      "vset' = vset\<lparr>vs_manifest := m, vs_failure := Some (if allocated then e else TerminalError_fallback)\<rparr>"
    | (published) m where "st = Inr ()" "vset' = published held (vset\<lparr>vs_manifest := Some m\<rparr>) edit version"
proof -
  have pointers: "ApplyCompactPointerEdits (PrepareRuntimeEditCounters vset edit n p) ps = ApplyCompactPointerEdits edit ps" for n p ps
    by (simp add: ApplyCompactPointerEdits_def PrepareRuntimeEditCounters_def Let_def discard_error_def SetNextFileNumber_def
        SetLastSequence_def SetLogNumber_def SetPrevLogNumber_def split: sum.splits)
  obtain st1 vset1 world1 where w: "VersionSet_Write E fs world vset (VersionEdit_Encode (recorded_edit vset edit))
      (PrepareManifestSnapshot vset) = (st1, vset1, world1)" by (metis prod_cases3)
  then obtain m where m: "vset1 = vset\<lparr>vs_manifest := m\<rparr>" "st1 = Inr () \<Longrightarrow> m \<noteq> None" by (rule VersionSet_Write_set) blast
  have "(st, vset', world') = (case st1 of
       Inl e \<Rightarrow> (Inl e, vset1\<lparr>vs_failure := TerminalError_Record allocated (vs_failure vset1) e\<rparr>, world1)
     | Inr _ \<Rightarrow> (Inr (), published held vset1 edit version, world1))"
    unfolding assms(1) [symmetric] ApplyPrepared_def Let_def recorded_edit_def [symmetric] w m(1)
    by (cases st1) (simp_all add: pointers published_def recorded_edit_def)
  note result = this
  show ?thesis
  proof (cases st1)
    case (Inl e)
    show ?thesis
      by (rule failed [of e m]) (use result in \<open>simp_all add: Inl m(1) assms(2) TerminalError_Record_def\<close>)
  next
    case (Inr u)
    then obtain k where "m = Some k" using m(2) by auto
    then show ?thesis by (intro published [of k]) (use result in \<open>simp_all add: Inr m(1)\<close>)
  qed
qed

text \<open>What the checked entry accepts.\<close>

definition accepts_edit :: "'h VersionSet \<Rightarrow> VersionEdit \<Rightarrow> Version \<Rightarrow> bool" where
  "accepts_edit vset edit version \<longleftrightarrow> Validate vset edit = Inr () \<and>
     (\<exists>builder. VersionBuilder_Apply (vs_comparator vset) (VersionBuilder_New (current_version vset)) edit = Inr builder \<and>
       VersionBuilder_Build (vs_comparator vset) builder = Inr version)"

lemma LogAndApply_accepted:
  "vs_failure vset = None \<Longrightarrow> accepts_edit vset edit version \<Longrightarrow>
     LogAndApply E fs allocated held world vset edit = ApplyPrepared E fs allocated held world vset edit version"
  by (auto simp: LogAndApply_def accepts_edit_def bindR_def)

lemma LogAndApply_rejected:
  assumes "vs_failure vset \<noteq> None \<or> (\<nexists>version. accepts_edit vset edit version)"
  obtains e where "LogAndApply E fs allocated held world vset edit = (Inl e, vset, world)"
    "vs_failure vset \<noteq> None \<Longrightarrow> vs_failure vset = Some e"
proof (cases "vs_failure vset")
  case None
  define checked where "checked = bindR (Validate vset edit) (\<lambda>_.
     bindR (VersionBuilder_Apply (vs_comparator vset) (VersionBuilder_New (current_version vset)) edit) (\<lambda>builder.
       VersionBuilder_Build (vs_comparator vset) builder))"
  have "checked \<noteq> Inr version" for version
    using assms None by (auto simp: checked_def accepts_edit_def bindR_eq_Inr)
  then obtain e where "checked = Inl e" by (cases checked) auto
  then have "LogAndApply E fs allocated held world vset edit = (Inl e, vset, world)"
    using None unfolding LogAndApply_def checked_def by simp
  then show ?thesis by (rule that) (simp add: None)
next
  case (Some e)
  then have "LogAndApply E fs allocated held world vset edit = (Inl e, vset, world)" by (simp add: LogAndApply_def)
  then show ?thesis by (rule that) (simp add: Some)
qed

lemma LogAndApply_cases:
  assumes "LogAndApply E fs allocated held world vset edit = (st, vset', world')"
  obtains (rejected) e where "st = Inl e" "vset' = vset" "world' = world"
      "vs_failure vset = Some e \<or> vs_failure vset = None \<and> (\<nexists>version. accepts_edit vset edit version)"
    | (failed) e m where "st = Inl e" "vs_failure vset = None"
        "vset' = vset\<lparr>vs_manifest := m, vs_failure := Some (if allocated then e else TerminalError_fallback)\<rparr>"
    | (published) m version where "st = Inr ()" "vs_failure vset = None" "accepts_edit vset edit version"
        "vset' = published held (vset\<lparr>vs_manifest := Some m\<rparr>) edit version"
proof (cases "vs_failure vset \<noteq> None \<or> (\<nexists>version. accepts_edit vset edit version)")
  case True
  then obtain e where "LogAndApply E fs allocated held world vset edit = (Inl e, vset, world)"
    "vs_failure vset \<noteq> None \<Longrightarrow> vs_failure vset = Some e"
    by (rule LogAndApply_rejected [of vset edit E fs allocated held world]) blast
  with True assms show ?thesis by (intro rejected [of e]; cases "vs_failure vset"; auto)
next
  case False
  then obtain version where v: "vs_failure vset = None" "accepts_edit vset edit version" by blast
  with assms have "ApplyPrepared E fs allocated held world vset edit version = (st, vset', world')"
    by (simp add: LogAndApply_accepted)
  then show ?thesis using v(1)
  proof (cases rule: ApplyPrepared_cases)
    case (failed e m) then show ?thesis using that(2) v by blast
  next
    case (published m) then show ?thesis using that(3) v by blast
  qed
qed


section \<open>The set after an edit\<close>

lemma InstallPrepared_fields [simp]:
  "vs_heap (InstallPrepared held vset version) = vs_heap vset @ [version]"
  "vs_current (InstallPrepared held vset version) = Some (length (vs_heap vset))"
  "vs_comparator (InstallPrepared held vset version) = vs_comparator vset"
  "vs_directory (InstallPrepared held vset version) = vs_directory vset"
  "vs_compact_pointers (InstallPrepared held vset version) = vs_compact_pointers vset"
  "vs_manifest_file_number (InstallPrepared held vset version) = vs_manifest_file_number vset"
  "vs_next_file_number (InstallPrepared held vset version) = vs_next_file_number vset"
  "vs_last_sequence (InstallPrepared held vset version) = vs_last_sequence vset"
  "vs_log_number (InstallPrepared held vset version) = vs_log_number vset"
  "vs_prev_log_number (InstallPrepared held vset version) = vs_prev_log_number vset"
  "vs_manifest (InstallPrepared held vset version) = vs_manifest vset"
  "vs_failure (InstallPrepared held vset version) = vs_failure vset"
  "current_version (InstallPrepared held vset version) = version"
  by (simp_all add: InstallPrepared_def RegisterCurrentVersion_def RetainPinnedCurrent_def Let_def current_version_def
      split: option.splits)

lemma published_fields [simp]:
  "vs_heap (published held vset edit version) = vs_heap vset @ [version]"
  "vs_current (published held vset edit version) = Some (length (vs_heap vset))"
  "vs_comparator (published held vset edit version) = vs_comparator vset"
  "vs_directory (published held vset edit version) = vs_directory vset"
  "vs_compact_pointers (published held vset edit version) = ApplyCompactPointerEdits edit (vs_compact_pointers vset)"
  "vs_manifest_file_number (published held vset edit version) = vs_manifest_file_number vset"
  "vs_next_file_number (published held vset edit version) = vs_next_file_number vset"
  "vs_last_sequence (published held vset edit version) = vs_last_sequence vset"
  "vs_log_number (published held vset edit version) = value_or (ve_log_number edit) (vs_log_number vset)"
  "vs_prev_log_number (published held vset edit version) = value_or (ve_prev_log_number edit) (vs_prev_log_number vset)"
  "vs_manifest (published held vset edit version) = vs_manifest vset"
  "vs_failure (published held vset edit version) = vs_failure vset"
  "current_version (published held vset edit version) = version"
  by (simp_all add: published_def PublishPreparedEdit_def)

lemma value_or_simps [simp]: "value_or None d = d" "value_or (Some x) d = x"
  by (simp_all add: value_or_def)

lemma check_iffs:
  "CheckFileNumberCapacity n = Inr () \<longleftrightarrow> n \<le> FileNumberLimit"
  "CheckComparatorName name c = Inr () \<longleftrightarrow> (\<forall>x. name = Some x \<longrightarrow> x = AsBytes (Name c))"
  "CheckCurrentLogNumber log k n = Inr () \<longleftrightarrow> k \<le> value_or log k \<and> value_or log k < n"
  "CheckPreviousLogNumber log n = Inr () \<longleftrightarrow> value_or log 0 < n"
  by (auto simp: CheckFileNumberCapacity_def CheckComparatorName_def CheckCurrentLogNumber_def CheckPreviousLogNumber_def
      Let_def split: option.splits)

lemma CheckAddedFileNumbers_iff:
  "CheckAddedFileNumbers news n = Inr () \<longleftrightarrow> (\<forall>new \<in> set news. fm_number (nf_file new) < n)"
  by (induction news n rule: CheckAddedFileNumbers.induct) auto

lemma Validate_iff:
  "Validate vset edit = Inr () \<longleftrightarrow>
     vs_next_file_number vset \<le> FileNumberLimit \<and>
     (\<forall>name. ve_comparator_name edit = Some name \<longrightarrow> name = AsBytes (Name (vs_comparator vset))) \<and>
     vs_log_number vset \<le> value_or (ve_log_number edit) (vs_log_number vset) \<and>
     value_or (ve_log_number edit) (vs_log_number vset) < vs_next_file_number vset \<and>
     value_or (ve_prev_log_number edit) 0 < vs_next_file_number vset \<and>
     (\<forall>new \<in> set (ve_new_files edit). fm_number (nf_file new) < vs_next_file_number vset)"
  by (simp add: Validate_def bindR_eq_Inr check_iffs CheckAddedFileNumbers_iff)

lemma wf_pointers_update:
  assumes "wf_pointers ps" "IsValidInternalKey key" "key_fits key"
  shows "wf_pointers (ps[i := Some key])"
  using assms set_update_subset_insert [of ps i "Some key"] unfolding wf_pointers_def length_list_update by blast

lemma ApplyCompactPointerEdits_wf:
  assumes "wf_pointers ps" "\<forall>p \<in> set (ve_compact_pointers edit). IsValidInternalKey (cp_key p) \<and> key_fits (cp_key p)"
  shows "wf_pointers (ApplyCompactPointerEdits edit ps)"
  unfolding ApplyCompactPointerEdits_def
  by (rule fold_invariant [of _ "\<lambda>p. p \<in> set (ve_compact_pointers edit)"]) (use assms wf_pointers_update in auto)

lemma accepts_edit_version:
  assumes laws: "user_comparator_laws (vs_comparator vset)" and wf: "wf_set vset" and edit: "wf_edit edit" "edit_fits edit"
    and acc: "accepts_edit vset edit version"
  shows "wf_set_version (vs_comparator vset) (vs_next_file_number vset) version"
    "l < levels \<Longrightarrow> set (v_files version ! l) = result_files (current_version vset) edit l" "v_read_pins version = 0"
proof -
  have base: "wf_set_version (vs_comparator vset) (vs_next_file_number vset) (current_version vset)"
    using wf by (auto simp: wf_set_def current_version_def)
  obtain b where b: "VersionBuilder_Apply (vs_comparator vset) (VersionBuilder_New (current_version vset)) edit = Inr b"
      "VersionBuilder_Build (vs_comparator vset) b = Inr version" and valid: "Validate vset edit = Inr ()"
    using acc by (auto simp: accepts_edit_def)
  note applied = Apply_ok [OF _ edit(1) b(1)] base [unfolded wf_set_version_def, THEN conjunct1]
  note built = user_comparator_laws.Build_ok [OF laws applied(1) b(2)]
  show files: "set (v_files version ! l) = result_files (current_version vset) edit l" if "l < levels" for l
    using applied built(2) that by blast
  have "wf_set_file (vs_next_file_number vset) f" if "l < levels" "f \<in> result_files (current_version vset) edit l" for l f
    using that base edit valid unfolding Validate_iff
    by (auto simp: result_files_def wf_set_version_def adds_def wf_edit_def edit_fits_def wf_set_file_def wf_file_def
        MakeVersionFile_def)
  then show "wf_set_version (vs_comparator vset) (vs_next_file_number vset) version"
    using built(1) applied(3) files by (auto simp: wf_set_version_def)
  show "v_read_pins version = 0" using built(3) applied(3) by blast
qed

lemma InstallPrepared_versions:
  "set (vs_versions (InstallPrepared held vset version)) \<subseteq> insert (length (vs_heap vset)) (set (vs_versions vset))"
  by (auto simp: InstallPrepared_def RegisterCurrentVersion_def RetainPinnedCurrent_def Let_def split: option.splits)

lemma published_wf:
  assumes laws: "user_comparator_laws (vs_comparator vset)" and wf: "wf_set vset" and edit: "wf_edit edit" "edit_fits edit"
    and acc: "accepts_edit vset edit version"
  shows "wf_set (published held vset edit version)"
proof -
  have "set (vs_versions (published held vset edit version)) \<subseteq> insert (length (vs_heap vset)) (set (vs_versions vset))"
    unfolding published_def PublishPreparedEdit_def by (rule order_trans [OF InstallPrepared_versions]) simp
  moreover have "Validate vset edit = Inr ()" using acc by (simp add: accepts_edit_def)
  moreover have "wf_pointers (ApplyCompactPointerEdits edit (vs_compact_pointers vset))"
    using wf edit by (intro ApplyCompactPointerEdits_wf) (auto simp: wf_set_def wf_edit_def edit_fits_def)
  ultimately show ?thesis
    using wf accepts_edit_version(1) [OF assms]
    by (cases "ve_prev_log_number edit") (auto simp: wf_set_def wf_counters_def Validate_iff less_Suc_eq)
qed


section \<open>The recovered set\<close>

definition wf_recovery :: "comparator \<Rightarrow> ManifestRecovery \<Rightarrow> bool" where
  "wf_recovery c r \<longleftrightarrow>
     wf_builder c (mr_builder r) \<and>
     (\<forall>l < levels. \<forall>f \<in> files_at (mr_builder r) l. wf_file f \<and> key_fits (fm_smallest f) \<and> key_fits (fm_largest f) \<and>
        fm_number f \<le> mr_largest_number r) \<and>
     value_or (mr_log_number r) 0 \<le> mr_largest_number r \<and> mr_prev_log_number r \<le> mr_largest_number r \<and>
     value_or (mr_last_sequence r) 0 \<le> MaxSequenceNumber"

lemma wf_set_version_New [simp]: "user_comparator_laws c \<Longrightarrow> wf_set_version c n Version_New"
  using wf_version_New by (auto simp: wf_set_version_def Version_New_def)

lemma IncludeAddedFileNumbers_eq:
  "IncludeAddedFileNumbers r edit = r\<lparr>mr_largest_number := mr_largest_number (IncludeAddedFileNumbers r edit)\<rparr>"
  "mr_largest_number r \<le> mr_largest_number (IncludeAddedFileNumbers r edit)"
  "new \<in> set (ve_new_files edit) \<Longrightarrow> fm_number (nf_file new) \<le> mr_largest_number (IncludeAddedFileNumbers r edit)"
proof -
  let ?raise = "fold (\<lambda>added r. r\<lparr>mr_largest_number := max (mr_largest_number r) (fm_number (nf_file added))\<rparr>)"
  have "?raise news r = r\<lparr>mr_largest_number := mr_largest_number (?raise news r)\<rparr> \<and>
      mr_largest_number r \<le> mr_largest_number (?raise news r) \<and>
      (\<forall>new \<in> set news. fm_number (nf_file new) \<le> mr_largest_number (?raise news r))" for news
  proof (induction news arbitrary: r)
    case (Cons n news)
    let ?r = "r\<lparr>mr_largest_number := max (mr_largest_number r) (fm_number (nf_file n))\<rparr>"
    from Cons.IH [of ?r] show ?case by simp
  qed simp
  then show "IncludeAddedFileNumbers r edit = r\<lparr>mr_largest_number := mr_largest_number (IncludeAddedFileNumbers r edit)\<rparr>"
    "mr_largest_number r \<le> mr_largest_number (IncludeAddedFileNumbers r edit)"
    "new \<in> set (ve_new_files edit) \<Longrightarrow> fm_number (nf_file new) \<le> mr_largest_number (IncludeAddedFileNumbers r edit)"
    unfolding IncludeAddedFileNumbers_def by blast+
qed


definition accumulated :: "ManifestRecovery \<Rightarrow> VersionEdit \<Rightarrow> ManifestRecovery" where
  "accumulated r edit =
     (let log = (if ve_log_number edit = None then mr_log_number r else ve_log_number edit);
          prev = value_or (ve_prev_log_number edit) (mr_prev_log_number r)
      in r\<lparr>mr_next_file := (if ve_next_file_number edit = None then mr_next_file r else ve_next_file_number edit),
           mr_log_number := log,
           mr_last_sequence := (if ve_last_sequence edit = None then mr_last_sequence r else ve_last_sequence edit),
           mr_prev_log_number := prev,
           mr_largest_number := max (mr_largest_number (IncludeAddedFileNumbers r edit)) (max (value_or log 0) prev)\<rparr>)"

lemma AccumulateCounters_iff:
  "AccumulateCounters r edit offset = Inr r' \<longleftrightarrow>
     (\<forall>n l. ve_log_number edit = Some n \<longrightarrow> mr_log_number r = Some l \<longrightarrow> l \<le> n) \<and> accumulated r edit = r'"
proof -
  obtain m where m: "IncludeAddedFileNumbers r edit = r\<lparr>mr_largest_number := m\<rparr>"
    using IncludeAddedFileNumbers_eq(1) by blast
  have "AccumulateCounters r edit offset =
     (if \<forall>n l. ve_log_number edit = Some n \<longrightarrow> mr_log_number r = Some l \<longrightarrow> l \<le> n then Inr (accumulated r edit)
      else Inl (InManifest offset (Error Corruption ''log number decreases'')))"
    unfolding AccumulateCounters_def accumulated_def m
    by (cases "ve_log_number edit"; cases "mr_log_number r"; cases "ve_next_file_number edit"; cases "ve_last_sequence edit")
      (simp_all add: AccumulateLogNumber_def AccumulateSparseCounters_def Let_def not_le [symmetric])
  then show ?thesis by simp
qed

lemma map_sum_Inr_iff: "map_sum id f r = Inr y \<longleftrightarrow> (\<exists>x. r = Inr x \<and> y = f x)"
  by (cases r) auto

lemma ApplyRecord_wf:
  assumes applied: "ApplyRecord r data offset vset = Inr (r', vset')" and wf: "wf_recovery (vs_comparator vset) r"
    and ptrs: "wf_pointers (vs_compact_pointers vset)"
  shows "wf_recovery (vs_comparator vset) r'"
    "\<exists>ps. vset' = vset\<lparr>vs_compact_pointers := ps\<rparr> \<and> wf_pointers ps"
proof -
  let ?c = "vs_comparator vset"
  obtain edit b where edit: "VersionEdit_Decode data = Inr edit"
      and b: "VersionBuilder_Apply ?c (mr_builder r) edit = Inr b"
      and acc: "AccumulateCounters (r\<lparr>mr_builder := b\<rparr>) edit offset = Inr r'"
      and vset': "vset' = vset\<lparr>vs_compact_pointers := ApplyCompactPointerEdits edit (vs_compact_pointers vset)\<rparr>"
    using applied by (auto simp: ApplyRecord_def bindR_eq_Inr map_sum_Inr_iff split: sum.splits)
  note we = VersionEdit_Decode_wf [OF edit]
  show "\<exists>ps. vset' = vset\<lparr>vs_compact_pointers := ps\<rparr> \<and> wf_pointers ps"
    using vset' ApplyCompactPointerEdits_wf [OF ptrs] we by (auto simp: wf_edit_def edit_fits_def)
  let ?r = "r\<lparr>mr_builder := b\<rparr>"
  note builder = Apply_builder_ok [OF wf [unfolded wf_recovery_def, THEN conjunct1] we(1) b]
  have largest: "mr_largest_number (IncludeAddedFileNumbers ?r edit) \<le> mr_largest_number r'"
      "mr_largest_number r \<le> mr_largest_number r'" and same: "mr_builder r' = b"
    and log: "value_or (mr_log_number r') 0 \<le> mr_largest_number r'" "mr_prev_log_number r' \<le> mr_largest_number r'"
    using acc IncludeAddedFileNumbers_eq(2) [of ?r edit] by (auto simp: AccumulateCounters_iff accumulated_def Let_def le_max_iff_disj)
  have seq: "value_or (mr_last_sequence r') 0 \<le> MaxSequenceNumber"
    using acc wf we(1) by (auto simp: AccumulateCounters_iff accumulated_def Let_def wf_recovery_def wf_edit_def)
  have "wf_file f \<and> key_fits (fm_smallest f) \<and> key_fits (fm_largest f) \<and> fm_number f \<le> mr_largest_number r'"
    if l: "l < levels" and f: "f \<in> files_at b l" for l f
  proof (cases "f \<in> files_at (mr_builder r) l")
    case True
    then show ?thesis using wf l largest(2) unfolding wf_recovery_def by (meson order_trans)
  next
    case False
    with f builder(2) [OF l] obtain n where n: "n \<in> set (ve_new_files edit)" "f = MakeVersionFile (nf_file n)"
      by (auto simp: adds_def)
    moreover have "fm_number (nf_file n) \<le> mr_largest_number r'"
      using IncludeAddedFileNumbers_eq(3) [OF n(1)] largest(1) by (rule order_trans)
    ultimately show ?thesis using we by (auto simp: MakeVersionFile_def wf_edit_def edit_fits_def wf_file_def)
  qed
  then show "wf_recovery (vs_comparator vset) r'"
    using builder(1) log seq same by (simp add: wf_recovery_def)
qed

lemma Replay_wf:
  assumes "Replay read_file E reader r vset = Some (Inr (r', vset'))" "wf_recovery (vs_comparator vset) r"
    "wf_pointers (vs_compact_pointers vset)"
  shows "wf_recovery (vs_comparator vset) r' \<and> (\<exists>ps. vset' = vset\<lparr>vs_compact_pointers := ps\<rparr> \<and> wf_pointers ps)"
proof -
  have "\<forall>r' vset'. result = Inr (r', vset') \<longrightarrow> wf_recovery (vs_comparator vset) r \<longrightarrow>
      wf_pointers (vs_compact_pointers vset) \<longrightarrow>
      wf_recovery (vs_comparator vset) r' \<and> (\<exists>ps. vset' = vset\<lparr>vs_compact_pointers := ps\<rparr> \<and> wf_pointers ps)"
    if "Replay read_file E reader r vset = Some result" for result
    using that
  proof (induction rule: Replay.raw_induct [rotated, consumes 1, case_names step])
    case (step replay read_file E reader r vset result)
    have keep: "\<exists>ps. vset = vset\<lparr>vs_compact_pointers := ps\<rparr> \<and> wf_pointers ps" if "wf_pointers (vs_compact_pointers vset)"
      using that by (intro exI [of _ "vs_compact_pointers vset"]) simp
    show ?case
    proof (intro allI impI)
      fix r' vset'
      assume result: "result = Inr (r', vset')" and wf: "wf_recovery (vs_comparator vset) r"
        and ptrs: "wf_pointers (vs_compact_pointers vset)"
      from step.hyps result consider
        "r' = r" "vset' = vset"
      | data offset reader1 r1 vset1 where "ApplyRecord r data offset vset = Inr (r1, vset1)"
          "replay read_file E reader1 r1 vset1 = Some (Inr (r', vset'))"
        by (auto split: option.splits sum.splits prod.splits WalReadEvent.splits)
      then show "wf_recovery (vs_comparator vset) r' \<and> (\<exists>ps. vset' = vset\<lparr>vs_compact_pointers := ps\<rparr> \<and> wf_pointers ps)"
      proof cases
        case 1 then show ?thesis using wf keep [OF ptrs] by simp
      next
        case 2
        from ApplyRecord_wf [OF 2(1) wf ptrs] step.IH [OF 2(2)] show ?thesis by force
      qed
    qed
  qed
  then show ?thesis using assms by blast
qed


lemma file_number_limit: "unat FileNumberLimit = 2 ^ 63"
  by (simp add: FileNumberLimit_def)

lemma ValidateCounters_iff:
  "ValidateCounters r = Inr () \<longleftrightarrow> (\<exists>n l s. mr_next_file r = Some n \<and> mr_log_number r = Some l \<and> mr_last_sequence r = Some s \<and>
     n \<le> FileNumberLimit \<and> mr_largest_number r < n)"
  by (auto simp: ValidateCounters_def bindR_eq_Inr RequireRecoveredCounterFields_def ValidateRecoveredCounterBounds_def
      split: if_splits)

lemma Recovery_Finish_wf:
  assumes laws: "user_comparator_laws (vs_comparator vset)" and wf: "wf_recovery (vs_comparator vset) r"
    and ptrs: "wf_pointers (vs_compact_pointers vset)" and selected: "selected < FileNumberLimit"
    and name: "length (AsBytes (Name (vs_comparator vset))) < 2 ^ 32"
    and empty: "vs_heap vset = []" "vs_versions vset = []"
    and finish: "Recovery_Finish r vset selected = Inr vset'"
  shows "wf_set vset'"
proof -
  let ?c = "vs_comparator vset"
  from finish obtain version where valid: "ValidateCounters r = Inr ()"
    and version: "VersionBuilder_Build ?c (mr_builder r) = Inr version"
    and vset': "vset' = InstallPrepared {} (PublishRecoveredCounters r vset selected) version"
    by (auto simp: Recovery_Finish_def bindR_eq_Inr split: sum.splits)
  from valid obtain n l s where counters: "mr_next_file r = Some n" "mr_log_number r = Some l" "mr_last_sequence r = Some s"
      "n \<le> FileNumberLimit" "mr_largest_number r < n" by (auto simp: ValidateCounters_iff)
  define m where "m = max n (selected + 1)"
  have "unat (selected + 1) \<le> 2 ^ 63" using selected by (simp add: word_less_nat_alt file_number_limit unat_word_ariths)
  then have "unat m \<le> 2 ^ 63" using counters(4) by (simp add: m_def max_def word_le_nat_alt file_number_limit)
  then have m: "m < m + 1" by (simp add: word_less_nat_alt unat_word_ariths)
  have largest: "mr_largest_number r < m + 1"
    using counters(5) m unfolding m_def by (meson max.strict_coboundedI1 order_less_trans)
  note built = user_comparator_laws.Build_ok [OF laws wf [unfolded wf_recovery_def, THEN conjunct1] version]
  have "wf_set_version ?c (m + 1) version"
    using built(1,2) wf largest by (auto simp: wf_set_version_def wf_set_file_def wf_recovery_def intro: order_le_less_trans [OF _ largest])
  moreover have "l < m + 1" "mr_prev_log_number r < m + 1" "s \<le> MaxSequenceNumber"
    using wf largest counters by (auto simp: wf_recovery_def intro: order_le_less_trans [OF _ largest])
  moreover have fields: "PublishRecoveredCounters r vset selected = vset\<lparr>vs_manifest_file_number := m,
      vs_next_file_number := m + 1, vs_last_sequence := s, vs_log_number := l, vs_prev_log_number := mr_prev_log_number r\<rparr>"
    by (simp add: PublishRecoveredCounters_def counters m_def Let_def)
  moreover have "set (vs_versions vset') \<subseteq> {0}"
    unfolding vset' fields using InstallPrepared_versions by (rule order_trans) (simp add: empty)
  ultimately show ?thesis
    using m ptrs name by (auto simp: vset' wf_set_def wf_counters_def empty)
qed

lemma wf_pointers_New: "wf_pointers (replicate levels None)"
  by (simp add: wf_pointers_def)

lemma VersionSet_New_fields [simp]:
  "vs_heap (VersionSet_New directory c) = []" "vs_versions (VersionSet_New directory c) = []"
  "vs_comparator (VersionSet_New directory c) = c" "vs_compact_pointers (VersionSet_New directory c) = replicate levels None"
  "vs_read_pinned (VersionSet_New directory c) = []" "vs_current (VersionSet_New directory c) = None"
  "vs_failure (VersionSet_New directory c) = None"
  by (simp_all add: VersionSet_New_def)

lemma wf_recovery_New: "user_comparator_laws c \<Longrightarrow> wf_recovery c ManifestRecovery_New"
  using wf_builder_New [of c Version_New] wf_set_version_New [of c]
  by (simp add: wf_recovery_def ManifestRecovery_New_def wf_set_version_def Version_New_def)

lemma OpenSelectedManifest_number:
  assumes "OpenSelectedManifest fs world directory = Some (Inr selected, world')"
  shows "sm_number selected < FileNumberLimit"
proof -
  obtain current world1 where read: "ReadCurrent fs world directory = Some (current, world1)"
    using assms by (auto simp: OpenSelectedManifest_def)
  show ?thesis
    by (cases "bindR current ParseCurrentFileContents")
      (use assms in \<open>auto simp: OpenSelectedManifest_def read not_le split: sum.splits if_splits prod.splits\<close>)
qed

lemma VersionSet_Recover_cases:
  assumes "VersionSet_Recover E fs world directory c = Some (Inr vset, world')"
  obtains selected r vset1 where "OpenSelectedManifest fs world directory = Some (Inr selected, world')"
    "Replay (fs_Read fs) E (WalReader_New (Some (sm_file selected))) ManifestRecovery_New (VersionSet_New directory c) =
       Some (Inr (r, vset1))"
    "Recovery_Finish r vset1 (sm_number selected) = Inr vset"
  using assms by (auto simp: VersionSet_Recover_def bindR_eq_Inr split: option.splits sum.splits prod.splits)

lemma VersionSet_Recover_wf:
  assumes laws: "user_comparator_laws c" and name: "length (AsBytes (Name c)) < 2 ^ 32"
    and rec: "VersionSet_Recover E fs world directory c = Some (Inr vset, world')"
  shows "wf_set vset"
proof -
  obtain selected r vset1 where opened: "OpenSelectedManifest fs world directory = Some (Inr selected, world')"
    and replay: "Replay (fs_Read fs) E (WalReader_New (Some (sm_file selected))) ManifestRecovery_New
        (VersionSet_New directory c) = Some (Inr (r, vset1))"
    and finish: "Recovery_Finish r vset1 (sm_number selected) = Inr vset"
    by (rule VersionSet_Recover_cases [OF rec])
  from Replay_wf [OF replay] wf_recovery_New [OF laws] wf_pointers_New
  obtain ps where "wf_recovery c r" "vset1 = (VersionSet_New directory c)\<lparr>vs_compact_pointers := ps\<rparr>" "wf_pointers ps"
    by auto
  with Recovery_Finish_wf [OF _ _ _ OpenSelectedManifest_number [OF opened] _ _ _ finish] laws name show ?thesis by simp
qed


section \<open>Clients\<close>

text \<open>A client holds read pins and shared pointers to versions.  The trusted entry is for edits that the builder
  accepts.\<close>

record ('w, 'h) SetState =
  ss_world :: 'w
  ss_set :: "'h VersionSet"
  ss_pins :: "nat list"
  ss_held :: "nat list"

definition builder_accepts :: "'h VersionSet \<Rightarrow> VersionEdit \<Rightarrow> bool" where
  "builder_accepts vset edit \<longleftrightarrow>
     (case VersionBuilder_Apply (vs_comparator vset) (VersionBuilder_New (current_version vset)) edit of
        Inl _ \<Rightarrow> False | Inr builder \<Rightarrow> has_value (VersionBuilder_Build (vs_comparator vset) builder))"

inductive reachable_set :: "crc_extend \<Rightarrow> ('w, 'h, 'r) FileSystem \<Rightarrow> comparator \<Rightarrow> ('w, 'h) SetState \<Rightarrow> bool"
  for E fs c where
  created: "VersionSet_Create E fs allocated world directory c = (Inr vset, world') \<Longrightarrow>
     reachable_set E fs c \<lparr>ss_world = world', ss_set = vset, ss_pins = [], ss_held = []\<rparr>"
| recovered: "VersionSet_Recover E fs world directory c = Some (Inr vset, world') \<Longrightarrow>
     reachable_set E fs c \<lparr>ss_world = world', ss_set = vset, ss_pins = [], ss_held = []\<rparr>"
| log_and_apply: "reachable_set E fs c s \<Longrightarrow> wf_edit edit \<Longrightarrow> edit_fits edit \<Longrightarrow>
     LogAndApply E fs allocated (set (ss_held s)) (ss_world s) (ss_set s) edit = (st, vset, world') \<Longrightarrow>
     reachable_set E fs c (s\<lparr>ss_world := world', ss_set := vset\<rparr>)"
| log_and_apply_trusted: "reachable_set E fs c s \<Longrightarrow> wf_edit edit \<Longrightarrow> edit_fits edit \<Longrightarrow> builder_accepts (ss_set s) edit \<Longrightarrow>
     LogAndApplyTrusted E fs allocated (set (ss_held s)) (ss_world s) (ss_set s) edit = (st, vset, world') \<Longrightarrow>
     reachable_set E fs c (s\<lparr>ss_world := world', ss_set := vset\<rparr>)"
| new_file_number: "reachable_set E fs c s \<Longrightarrow> vs_next_file_number (ss_set s) \<noteq> - 1 \<Longrightarrow>
     NewFileNumber (ss_set s) = (n, vset) \<Longrightarrow> reachable_set E fs c (s\<lparr>ss_set := vset\<rparr>)"
| mark_used: "reachable_set E fs c s \<Longrightarrow> MarkFileNumberUsed (ss_set s) n = (st, vset) \<Longrightarrow>
     reachable_set E fs c (s\<lparr>ss_set := vset\<rparr>)"
| last_sequence: "reachable_set E fs c s \<Longrightarrow> vs_last_sequence (ss_set s) \<le> n \<Longrightarrow> n \<le> MaxSequenceNumber \<Longrightarrow>
     reachable_set E fs c (s\<lparr>ss_set := VersionSet_SetLastSequence (ss_set s) n\<rparr>)"
| pin: "reachable_set E fs c s \<Longrightarrow> PinCurrent (ss_set s) = Some (v, vset) \<Longrightarrow>
     reachable_set E fs c (s\<lparr>ss_set := vset, ss_pins := v # ss_pins s\<rparr>)"
| unpin: "reachable_set E fs c s \<Longrightarrow> v \<in> set (ss_pins s) \<Longrightarrow>
     reachable_set E fs c (s\<lparr>ss_set := ReleaseRead (ss_set s) v, ss_pins := remove1 v (ss_pins s)\<rparr>)"
| hold: "reachable_set E fs c s \<Longrightarrow> vs_current (ss_set s) = Some v \<Longrightarrow>
     reachable_set E fs c (s\<lparr>ss_held := v # ss_held s\<rparr>)"
| release: "reachable_set E fs c s \<Longrightarrow> reachable_set E fs c (s\<lparr>ss_held := remove1 v (ss_held s)\<rparr>)"

definition readable :: "('w, 'h) SetState \<Rightarrow> nat set" where
  "readable s = set_option (vs_current (ss_set s)) \<union> set (ss_pins s) \<union> set (ss_held s)"

text \<open>Pin counts count the pins, a pinned version is current or retained, only pinned earlier versions are retained, and every
  readable version is registered.\<close>

definition wf_pins :: "('w, 'h) SetState \<Rightarrow> bool" where
  "wf_pins s \<longleftrightarrow>
     (\<forall>v < length (vs_heap (ss_set s)). v_read_pins (vs_heap (ss_set s) ! v) = count_list (ss_pins s) v) \<and>
     set (vs_read_pinned (ss_set s)) \<subseteq> set (ss_pins s) - set_option (vs_current (ss_set s)) \<and>
     set (ss_pins s) \<subseteq> set_option (vs_current (ss_set s)) \<union> set (vs_read_pinned (ss_set s)) \<and>
     readable s \<subseteq> set (vs_versions (ss_set s))"

definition wf_state :: "comparator \<Rightarrow> ('w, 'h) SetState \<Rightarrow> bool" where
  "wf_state c s \<longleftrightarrow> wf_set (ss_set s) \<and> vs_comparator (ss_set s) = c \<and> wf_pins s"

definition file_numbers :: "Version \<Rightarrow> u64 set" where
  "file_numbers version = (\<Union>files \<in> set (v_files version). fm_number ` set files)"

lemma CollectVersionFileNumbers_eq: "CollectVersionFileNumbers version live = live \<union> file_numbers version"
proof -
  have inner: "fold (\<lambda>file. insert (fm_number file)) files live = live \<union> fm_number ` set files" for files live
    by (induction files arbitrary: live) auto
  have "fold (\<lambda>files live. fold (\<lambda>file. insert (fm_number file)) files live) filess live =
      live \<union> (\<Union>files \<in> set filess. fm_number ` set files)" for filess
    by (induction filess arbitrary: live) (simp_all add: inner Un_assoc)
  then show ?thesis by (simp add: CollectVersionFileNumbers_def file_numbers_def)
qed

lemma LiveFiles_eq:
  "LiveFiles held vset = (\<Union>v \<in> {v \<in> set (vs_versions vset). \<not> expired held vset v}. file_numbers (vs_heap vset ! v))"
proof -
  have "fold (\<lambda>v live. if expired held vset v then live else CollectVersionFileNumbers (vs_heap vset ! v) live) vs live =
     live \<union> (\<Union>v \<in> {v \<in> set vs. \<not> expired held vset v}. file_numbers (vs_heap vset ! v))" for vs live
    by (induction vs arbitrary: live) (auto simp: CollectVersionFileNumbers_eq)
  then show ?thesis by (simp add: LiveFiles_def)
qed

lemma wf_pins_live:
  assumes "wf_pins s"
  shows "{v \<in> set (vs_versions (ss_set s)). \<not> expired (set (ss_held s)) (ss_set s) v} = readable s"
  using assms by (auto simp: wf_pins_def expired_def readable_def)


lemma wf_state_bounds:
  assumes "wf_set (ss_set s)" "wf_pins s"
  shows "readable s \<subseteq> {..<length (vs_heap (ss_set s))}"
  using assms unfolding wf_set_def wf_pins_def by blast

lemma InstallPrepared_lists:
  assumes "vs_current vset = Some v" "v < length (vs_heap vset)"
  shows "set (vs_read_pinned (InstallPrepared held vset version)) =
      set (vs_read_pinned vset) \<union> (if v_read_pins (vs_heap vset ! v) \<noteq> 0 then {v} else {})"
    "set (vs_versions (InstallPrepared held vset version)) =
      insert (length (vs_heap vset)) {u \<in> set (vs_versions vset). u \<in> held \<or> u = v \<or> u \<in> set (vs_read_pinned vset)}"
  using assms
  by (auto simp: InstallPrepared_def RegisterCurrentVersion_def RetainPinnedCurrent_def Let_def expired_def nth_append)

lemma InstallPrepared_wf_pins:
  assumes wf: "wf_set (ss_set s)" "wf_pins s" and pins: "v_read_pins version = 0"
    and vset1: "vs_heap vset1 = vs_heap (ss_set s)" "vs_current vset1 = vs_current (ss_set s)"
      "vs_read_pinned vset1 = vs_read_pinned (ss_set s)" "vs_versions vset1 = vs_versions (ss_set s)"
  shows "wf_pins (s\<lparr>ss_set := InstallPrepared (set (ss_held s)) vset1 version\<rparr>)"
proof -
  let ?n = "length (vs_heap (ss_set s))"
  obtain v where v: "v < ?n" "vs_current (ss_set s) = Some v" using wf(1) by (auto simp: wf_set_def)
  note lists = InstallPrepared_lists [of vset1 v, unfolded vset1, OF v(2,1)]
  have new: "?n \<notin> set (ss_pins s)" using wf_state_bounds [OF wf] by (auto simp: readable_def)
  then have fresh: "count_list (ss_pins s) ?n = 0" by (simp add: count_list_0_iff)
  have count: "v_read_pins (vs_heap (ss_set s) ! v) \<noteq> 0 \<longleftrightarrow> v \<in> set (ss_pins s)"
    using wf(2) v(1) by (simp add: wf_pins_def count_list_0_iff)
  show ?thesis
    using wf(2) lists [of "set (ss_held s)" version] new fresh count pins v
    by (auto simp: wf_pins_def readable_def vset1 nth_append less_Suc_eq)
qed


lemma wf_set_manifest [simp]:
  "wf_set (vset\<lparr>vs_manifest := m\<rparr>) = wf_set vset" "wf_set (vset\<lparr>vs_failure := e\<rparr>) = wf_set vset"
  by (simp_all add: wf_set_def wf_counters_def)

lemma wf_pins_cong:
  assumes "vs_heap vset = vs_heap (ss_set s)" "vs_current vset = vs_current (ss_set s)"
      "vs_read_pinned vset = vs_read_pinned (ss_set s)" "vs_versions vset = vs_versions (ss_set s)" "wf_pins s"
  shows "wf_pins (s\<lparr>ss_set := vset\<rparr>)" "wf_pins (s\<lparr>ss_world := w, ss_set := vset\<rparr>)"
  using assms by (simp_all add: wf_pins_def readable_def)

lemma accepts_edit_manifest [simp]: "accepts_edit (vset\<lparr>vs_manifest := m\<rparr>) edit version = accepts_edit vset edit version"
  by (simp add: accepts_edit_def Validate_def current_version_def)

lemma LogAndApply_wf_state:
  assumes laws: "user_comparator_laws c" and wf: "wf_state c s" and edit: "wf_edit edit" "edit_fits edit"
    and step: "LogAndApply E fs allocated (set (ss_held s)) (ss_world s) (ss_set s) edit = (st, vset, world')"
  shows "wf_state c (s\<lparr>ss_world := world', ss_set := vset\<rparr>)"
proof -
  have c: "vs_comparator (ss_set s) = c" and wfs: "wf_set (ss_set s)" "wf_pins s" using wf by (auto simp: wf_state_def)
  from step show ?thesis
  proof (cases rule: LogAndApply_cases)
    case (rejected e)
    then show ?thesis using wf wfs(2) by (simp add: wf_state_def wf_pins_cong)
  next
    case (failed e m)
    then show ?thesis using wf wfs(2) by (simp add: wf_state_def wf_pins_cong)
  next
    case (published m version)
    let ?vset = "(ss_set s)\<lparr>vs_manifest := Some m\<rparr>"
    have acc: "accepts_edit ?vset edit version" using published(3) by simp
    have laws': "user_comparator_laws (vs_comparator ?vset)" using laws c by simp
    have "wf_set vset" unfolding published(4) by (rule published_wf [OF laws' _ edit acc]) (simp add: wfs(1))
    moreover have "v_read_pins version = 0"
      using accepts_edit_version(3) [OF laws' _ edit acc] wfs(1) by simp
    then have "wf_pins (s\<lparr>ss_set := vset\<rparr>)"
      unfolding published(4) published_def PublishPreparedEdit_def
      by (rule InstallPrepared_wf_pins [OF wfs]) simp_all
    then have "wf_pins (s\<lparr>ss_world := world', ss_set := vset\<rparr>)" by (simp add: wf_pins_def readable_def)
    ultimately show ?thesis using c published(4) by (simp add: wf_state_def)
  qed
qed

lemma LogAndApplyTrusted_eq:
  assumes laws: "user_comparator_laws (vs_comparator vset)" and wf: "wf_set vset" and edit: "wf_edit edit"
    and accepts: "builder_accepts vset edit"
  shows "LogAndApplyTrusted E fs allocated held world vset edit = LogAndApply E fs allocated held world vset edit"
proof -
  obtain b version where b: "VersionBuilder_Apply (vs_comparator vset) (VersionBuilder_New (current_version vset)) edit = Inr b"
      "VersionBuilder_Build (vs_comparator vset) b = Inr version"
    using accepts by (auto simp: builder_accepts_def has_value_def split: sum.splits)
  have "wf_version (vs_comparator vset) (current_version vset)"
    using wf by (auto simp: wf_set_def wf_set_version_def current_version_def)
  from BuildTrusted_eq [OF laws this edit b] show ?thesis
    by (simp add: LogAndApplyTrusted_def LogAndApply_def b bindR_def split: option.splits sum.splits)
qed


lemma wf_set_next:
  assumes "wf_set vset" "vs_next_file_number vset \<le> n"
  shows "wf_set (vset\<lparr>vs_next_file_number := n\<rparr>)"
  using assms
  by (auto simp: wf_set_def wf_counters_def wf_set_version_def wf_set_file_def intro: order_less_le_trans)

lemma wf_set_repin:
  assumes "wf_set vset"
  shows "wf_set (vset\<lparr>vs_heap := (vs_heap vset)[v := (vs_heap vset ! v)\<lparr>v_read_pins := n\<rparr>]\<rparr>)"
proof -
  have same: "wf_version c (x\<lparr>v_read_pins := n\<rparr>) = wf_version c x" for c x by (simp add: wf_version_def)
  have "wf_set_version (vs_comparator vset) (vs_next_file_number vset) x"
    if "x \<in> set ((vs_heap vset)[v := (vs_heap vset ! v)\<lparr>v_read_pins := n\<rparr>])" for x
  proof (cases "v < length (vs_heap vset)")
    case True
    then have "x = (vs_heap vset ! v)\<lparr>v_read_pins := n\<rparr> \<or> x \<in> set (vs_heap vset)"
      using set_update_subset_insert that by fastforce
    then show ?thesis using assms nth_mem [OF True] by (auto simp: wf_set_def wf_set_version_def same)
  next
    case False
    then show ?thesis using assms that by (simp add: wf_set_def list_update_beyond)
  qed
  then show ?thesis using assms by (simp add: wf_set_def wf_counters_def)
qed

lemma PinCurrent_wf_state:
  assumes wf: "wf_state c s" and pin: "PinCurrent (ss_set s) = Some (v, vset)"
  shows "wf_state c (s\<lparr>ss_set := vset, ss_pins := v # ss_pins s\<rparr>)"
proof -
  have v: "vs_current (ss_set s) = Some v"
    and vset: "vset = (ss_set s)\<lparr>vs_heap := (vs_heap (ss_set s))[v := (vs_heap (ss_set s) ! v)
      \<lparr>v_read_pins := v_read_pins (vs_heap (ss_set s) ! v) + 1\<rparr>]\<rparr>"
    using pin by (auto simp: PinCurrent_def)
  have "wf_set vset" unfolding vset by (rule wf_set_repin) (use wf in \<open>simp add: wf_state_def\<close>)
  moreover have "wf_pins (s\<lparr>ss_set := vset, ss_pins := v # ss_pins s\<rparr>)"
    using wf by (auto simp: wf_state_def wf_pins_def readable_def vset v nth_list_update)
  ultimately show ?thesis using wf by (simp add: wf_state_def vset)
qed

lemma ReleaseRead_wf_state:
  assumes wf: "wf_state c s" and v: "v \<in> set (ss_pins s)"
  shows "wf_state c (s\<lparr>ss_set := ReleaseRead (ss_set s) v, ss_pins := remove1 v (ss_pins s)\<rparr>)"
proof -
  let ?h = "vs_heap (ss_set s)"
  let ?set1 = "(ss_set s)\<lparr>vs_heap := ?h[v := (?h ! v)\<lparr>v_read_pins := v_read_pins (?h ! v) - 1\<rparr>]\<rparr>"
  have wfs: "wf_set (ss_set s)" "wf_pins s" using wf by (simp_all add: wf_state_def)
  have len: "v < length ?h" using wf_state_bounds [OF wfs] v by (auto simp: readable_def)
  have count: "count_list (remove1 v (ss_pins s)) u = count_list (ss_pins s) u - (if u = v then 1 else 0)" for u
    using v by (induction "ss_pins s" arbitrary: s) (auto simp: count_list_0_iff)
  have pins: "v_read_pins (?h ! u) = count_list (ss_pins s) u" if "u < length ?h" for u
    using wfs(2) that by (simp add: wf_pins_def)
  have mem: "u \<in> set xs \<longleftrightarrow> count_list xs u \<noteq> 0" for u and xs :: "nat list" by (simp add: count_list_0_iff)
  have left: "set (remove1 v (ss_pins s)) = (if v_read_pins (?h ! v) - 1 = 0 then set (ss_pins s) - {v} else set (ss_pins s))"
    using pins [OF len] by (auto simp: mem count split: if_splits)
  have "wf_set (ReleaseRead (ss_set s) v)"
    using wf_set_repin [OF wfs(1), of v] by (simp add: ReleaseRead_def Let_def wf_set_def wf_counters_def)
  moreover have "wf_pins (s\<lparr>ss_set := ReleaseRead (ss_set s) v, ss_pins := remove1 v (ss_pins s)\<rparr>)"
    using wfs(2) len unfolding wf_pins_def readable_def ReleaseRead_def Let_def
    by (auto simp: nth_list_update count left)
  ultimately show ?thesis using wf by (simp add: wf_state_def ReleaseRead_def Let_def)
qed


lemma installed_wf_pins:
  assumes "vs_heap vset = []" "vs_current vset = None" "vs_read_pinned vset = []" "vs_versions vset = []" "v_read_pins version = 0"
  shows "wf_pins \<lparr>ss_world = world, ss_set = InstallPrepared {} vset version, ss_pins = [], ss_held = []\<rparr>"
  using assms
  by (auto simp: wf_pins_def readable_def InstallPrepared_def RetainPinnedCurrent_def RegisterCurrentVersion_def)

lemma wf_state_New:
  assumes "user_comparator_laws c" "length (AsBytes (Name c)) < 2 ^ 32"
  shows "wf_state c \<lparr>ss_world = world, ss_set = InstallPrepared {} (VersionSet_New directory c) Version_New,
     ss_pins = [], ss_held = []\<rparr>"
proof -
  have "v_read_pins Version_New = 0" by (simp add: Version_New_def)
  then have "wf_pins \<lparr>ss_world = world, ss_set = InstallPrepared {} (VersionSet_New directory c) Version_New,
     ss_pins = [], ss_held = []\<rparr>" by (intro installed_wf_pins) simp_all
  moreover have "set (vs_versions (InstallPrepared {} (VersionSet_New directory c) Version_New)) \<subseteq> {0}"
    by (rule order_trans [OF InstallPrepared_versions]) simp
  moreover have "wf_counters (InstallPrepared {} (VersionSet_New directory c) Version_New)"
    by (simp add: wf_counters_def VersionSet_New_def)
  ultimately show ?thesis using assms wf_pointers_New by (auto simp: wf_state_def wf_set_def)
qed

lemma Recover_wf_state:
  assumes laws: "user_comparator_laws c" and name: "length (AsBytes (Name c)) < 2 ^ 32"
    and rec: "VersionSet_Recover E fs world directory c = Some (Inr vset, world')"
  shows "wf_state c \<lparr>ss_world = world', ss_set = vset, ss_pins = [], ss_held = []\<rparr>"
proof -
  obtain selected r vset1 where "OpenSelectedManifest fs world directory = Some (Inr selected, world')"
    and replay: "Replay (fs_Read fs) E (WalReader_New (Some (sm_file selected)))
        ManifestRecovery_New (VersionSet_New directory c) = Some (Inr (r, vset1))"
    and finish: "Recovery_Finish r vset1 (sm_number selected) = Inr vset"
    by (rule VersionSet_Recover_cases [OF rec])
  from Replay_wf [OF replay] wf_recovery_New [OF laws] wf_pointers_New
  obtain ps where r: "wf_recovery c r" and vset1: "vset1 = (VersionSet_New directory c)\<lparr>vs_compact_pointers := ps\<rparr>"
    by auto
  from finish obtain version where version: "VersionBuilder_Build c (mr_builder r) = Inr version"
    and vset: "vset = InstallPrepared {} (PublishRecoveredCounters r vset1 (sm_number selected)) version"
    by (auto simp: Recovery_Finish_def bindR_eq_Inr vset1 split: sum.splits)
  have "v_read_pins version = 0"
    using user_comparator_laws.Build_ok(3) [OF laws _ version] r by (simp add: wf_recovery_def)
  then have "wf_pins \<lparr>ss_world = world', ss_set = vset, ss_pins = [], ss_held = []\<rparr>"
    unfolding vset by (intro installed_wf_pins) (simp_all add: PublishRecoveredCounters_def vset1 Let_def)
  then show ?thesis
    using VersionSet_Recover_wf [OF assms] by (simp add: wf_state_def vset PublishRecoveredCounters_def vset1 Let_def)
qed

lemma reachable_wf_state:
  assumes laws: "user_comparator_laws c" and name: "length (AsBytes (Name c)) < 2 ^ 32" and "reachable_set E fs c s"
  shows "wf_state c s"
  using assms(3)
proof induction
  case (created allocated world directory vset world')
  let ?vset = "InstallPrepared {} (VersionSet_New directory c) Version_New"
  let ?s = "\<lparr>ss_world = world, ss_set = ?vset, ss_pins = [], ss_held = []\<rparr>"
  from created have "LogAndApply E fs allocated (set (ss_held ?s)) (ss_world ?s) (ss_set ?s) VersionEdit_New = (Inr (), vset, world')"
    by (auto simp: VersionSet_Create_def split: prod.splits sum.splits)
  from LogAndApply_wf_state [OF laws wf_state_New [OF laws name] wf_edit_New _ this] show ?case
    by (simp add: edit_fits_def VersionEdit_New_def)
next
  case (recovered world directory vset world')
  then show ?case by (rule Recover_wf_state [OF laws name])
next
  case (log_and_apply s edit allocated st vset world')
  show ?case by (rule LogAndApply_wf_state [OF laws log_and_apply.IH log_and_apply.hyps(2-4)])
next
  case (log_and_apply_trusted s edit allocated st vset world')
  then have "LogAndApply E fs allocated (set (ss_held s)) (ss_world s) (ss_set s) edit = (st, vset, world')"
    using laws LogAndApplyTrusted_eq [of "ss_set s" edit E fs allocated "set (ss_held s)" "ss_world s"] by (simp add: wf_state_def)
  then show ?case
    by (rule LogAndApply_wf_state [OF laws log_and_apply_trusted.IH log_and_apply_trusted.hyps(2,3)])
next
  case (new_file_number s n vset)
  then have "vs_next_file_number (ss_set s) \<le> vs_next_file_number (ss_set s) + 1"
    using inc_less_eq_triv_imp [of "vs_next_file_number (ss_set s)"] by (meson linear)
  then show ?case using new_file_number
    by (auto simp: NewFileNumber_def wf_state_def intro: wf_set_next wf_pins_cong)
next
  case (mark_used s n st vset)
  then show ?case
    by (auto simp: MarkFileNumberUsed_def wf_state_def intro: wf_set_next wf_pins_cong split: if_splits)
next
  case (last_sequence s n)
  then show ?case
    by (auto simp: VersionSet_SetLastSequence_def wf_state_def wf_set_def wf_counters_def intro: wf_pins_cong)
next
  case (pin s v vset)
  show ?case by (rule PinCurrent_wf_state [OF pin.IH pin.hyps(2)])
next
  case (unpin s v)
  show ?case by (rule ReleaseRead_wf_state [OF unpin.IH unpin.hyps(2)])
next
  case (hold s v)
  then show ?case by (auto simp: wf_state_def wf_pins_def readable_def)
next
  case (release s v)
  then show ?case
    using set_remove1_subset [of v "ss_held s"] by (auto simp: wf_state_def wf_pins_def readable_def)
qed


section \<open>Watched file systems\<close>

text \<open>The errors that the file operations report, kept beside the state of the world in the order in which they were
  reported.  Watching a file system changes nothing else.\<close>

definition reported :: "'a result \<Rightarrow> Error list" where
  "reported r = (case r of Inl e \<Rightarrow> [e] | Inr _ \<Rightarrow> [])"

definition watch :: "('w \<Rightarrow> 'a result \<times> 'w) \<Rightarrow> 'w \<times> Error list \<Rightarrow> 'a result \<times> 'w \<times> Error list" where
  "watch operation s = (case operation (fst s) of (r, w) \<Rightarrow> (r, w, snd s @ reported r))"

definition watched :: "('w, 'h, 'r) FileSystem \<Rightarrow> ('w \<times> Error list, 'h, 'r) FileSystem" where
  "watched fs =
     \<lparr>fs_OpenSequential = (\<lambda>s path. watch (\<lambda>w. fs_OpenSequential fs w path) s),
      fs_OpenWritable = (\<lambda>s path. watch (\<lambda>w. fs_OpenWritable fs w path) s),
      fs_RenameFile = (\<lambda>s old_path new_path. watch (\<lambda>w. fs_RenameFile fs w old_path new_path) s),
      fs_SyncDirectory = (\<lambda>s path. watch (\<lambda>w. fs_SyncDirectory fs w path) s),
      fs_Append = (\<lambda>h s data. watch (\<lambda>w. fs_Append fs h w data) s), fs_Flush = (\<lambda>h. watch (fs_Flush fs h)),
      fs_Sync = (\<lambda>h. watch (fs_Sync fs h)), fs_Close = (\<lambda>h. watch (fs_Close fs h)),
      fs_Destroy = (\<lambda>h s. (fs_Destroy fs h (fst s), snd s)), fs_Read = fs_Read fs\<rparr>"

text \<open>Every composed operation stops at the first error and returns it: run on a watched file system it is the operation
  watched as a whole.  The second form is for operations that also return an object.\<close>

definition watch_with :: "('w \<Rightarrow> 'a result \<times> 'x \<times> 'w) \<Rightarrow> 'w \<times> Error list \<Rightarrow> 'a result \<times> 'x \<times> 'w \<times> Error list" where
  "watch_with operation s = (case operation (fst s) of (r, x, w) \<Rightarrow> (r, x, w, snd s @ reported r))"

lemmas watch_defs = watch_def watch_with_def reported_def

lemma reported_simps [simp]: "reported (Inl e) = [e]" "reported (Inr x) = []"
  by (simp_all add: reported_def)

lemma AppendFragment_watch:
  "AppendFragment (\<lambda>s data. watch (\<lambda>w. append_file w data) s) s fragment = watch (\<lambda>w. AppendFragment append_file w fragment) s"
  by (auto simp: AppendFragment_def AppendPadding_def watch_defs split: prod.splits sum.splits)

lemma AddFragments_watch:
  "AddFragments E (\<lambda>s data. watch (\<lambda>w. append_file w data) s) fragmenter cursor s =
     watch_with (\<lambda>w. AddFragments E append_file fragmenter cursor w) s"
proof (induction "fragment_measure fragmenter cursor" arbitrary: fragmenter cursor s rule: less_induct)
  case less
  obtain fo fr1 cur1 where nx: "Next E fragmenter cursor = (fo, fr1, cur1)" using prod_cases3 by blast
  show ?case
  proof (cases fo)
    case None
    with nx show ?thesis by (simp add: AddFragments.simps [of E _ fragmenter] watch_defs)
  next
    case (Some fragment)
    note ih = less.hyps [OF fragment_measure_Next [OF nx [unfolded Some]]]
    obtain r w where one: "AppendFragment append_file (fst s) fragment = (r, w)" by fastforce
    then have two: "AppendFragment (\<lambda>s data. watch (\<lambda>w. append_file w data) s) s fragment = (r, w, snd s @ reported r)"
      unfolding AppendFragment_watch by (simp add: watch_def)
    show ?thesis
      using nx Some one two ih by (cases r)
        (simp_all add: AddFragments.simps [of E _ fragmenter] watch_with_def split: prod.split)
  qed
qed

lemma PadReopenedBlock_watch:
  "PadReopenedBlock (\<lambda>s data. watch (\<lambda>w. append_file w data) s) (writer_in s wal) =
     (case PadReopenedBlock append_file (writer_in (fst s) wal) of
        (r, wal') \<Rightarrow> (r, writer_in (ww_file wal', snd s @ reported r) wal'))"
  by (cases "append_file (fst s) (replicate (ww_reopen_padding wal) 0)"; cases "fst (append_file (fst s) (replicate (ww_reopen_padding wal) 0))")
    (simp_all add: PadReopenedBlock_def AppendPadding_def watch_def writer_in_def)

lemma AddRecord_watch:
  "WalWriter_AddRecord E (\<lambda>s data. watch (\<lambda>w. append_file w data) s) (watch flush_file) (writer_in s wal) data =
     (case WalWriter_AddRecord E append_file flush_file (writer_in (fst s) wal) data of
        (r, wal') \<Rightarrow> (r, writer_in (ww_file wal', snd s @ reported r) wal'))"
proof -
  obtain r wal1 where pad: "PadReopenedBlock append_file (writer_in (fst s) wal) = (r, wal1)" by fastforce
  obtain r2 fr w2 where frs: "AddFragments E append_file (ww_fragmenter wal1) (Fragment data) (ww_file wal1) = (r2, fr, w2)"
    using prod_cases3 by blast
  obtain r3 w3 where flush: "flush_file w2 = (r3, w3)" by fastforce
  show ?thesis
    unfolding WalWriter_AddRecord_def PadReopenedBlock_watch AddFragments_watch Let_def pad
    using frs flush by (cases r; cases r2) (simp_all add: watch_with_def watch_def writer_in_def)
qed

lemma watched_writes:
  "fs_Append (watched fs) h = (\<lambda>s data. watch (\<lambda>w. fs_Append fs h w data) s)" "fs_Flush (watched fs) h = watch (fs_Flush fs h)"
  "fs_Sync (watched fs) h = watch (fs_Sync fs h)"
  by (simp_all add: watched_def)

lemma watched_ops:
  "fs_OpenWritable (watched fs) s path = watch (\<lambda>w. fs_OpenWritable fs w path) s"
  "fs_RenameFile (watched fs) s old_path new_path = watch (\<lambda>w. fs_RenameFile fs w old_path new_path) s"
  "fs_SyncDirectory (watched fs) s path = watch (\<lambda>w. fs_SyncDirectory fs w path) s"
  "fs_Close (watched fs) h s = watch (fs_Close fs h) s" "fs_Destroy (watched fs) h s = (fs_Destroy fs h (fst s), snd s)"
  by (simp_all add: watched_def)

lemma Manifest_watch:
  "Manifest_AddRecord E (watched fs) s m data = watch_with (\<lambda>w. Manifest_AddRecord E fs w m data) s"
  "Manifest_Sync (watched fs) s m = watch_with (\<lambda>w. Manifest_Sync fs w m) s"
  unfolding Manifest_AddRecord_def Manifest_Sync_def WalWriter_Sync_def watched_writes AddRecord_watch
  by (simp_all add: watch_with_def watch_def writer_in_def Let_def split: prod.split)

lemma SelectManifest_watch: "SelectManifest E (watched fs) s vset snapshot = watch (\<lambda>w. SelectManifest E fs w vset snapshot) s"
  by (auto simp: SelectManifest_def CreateManifest_def Manifest_watch watch_def watch_with_def watched_ops watched_writes
      split: option.splits prod.splits sum.splits)

lemma InstallCurrent_watch: "InstallCurrent (watched fs) s vset = watch (\<lambda>w. InstallCurrent fs w vset) s"
  by (auto simp: InstallCurrent_def WriteCurrentTemporary_def watch_def watch_with_def watched_ops watched_writes Let_def
      split: prod.splits sum.splits)

lemma VersionSet_Write_watch:
  "VersionSet_Write E (watched fs) s vset encoded snapshot = watch_with (\<lambda>w. VersionSet_Write E fs w vset encoded snapshot) s"
  by (auto simp: VersionSet_Write_def SelectManifest_watch Manifest_watch InstallCurrent_watch DiscardManifest_def
      watch_def watch_with_def watched_ops watched_writes split: prod.splits sum.splits)

lemma ApplyPrepared_watch:
  "ApplyPrepared E (watched fs) allocated held s vset edit version =
     watch_with (\<lambda>w. ApplyPrepared E fs allocated held w vset edit version) s"
  by (auto simp: ApplyPrepared_def VersionSet_Write_watch watch_with_def Let_def split: prod.splits sum.splits)

lemma valid_edit_accepted:
  assumes laws: "user_comparator_laws (vs_comparator vset)" and wf: "wf_set vset" and edit: "wf_edit edit"
    and "Validate vset edit = Inr ()" "valid_edit (vs_comparator vset) (current_version vset) edit"
  shows "\<exists>version. accepts_edit vset edit version"
proof -
  have "wf_version (vs_comparator vset) (current_version vset)"
    using wf by (auto simp: wf_set_def wf_set_version_def current_version_def)
  then show ?thesis using assms Build_accepts [OF laws _ edit] unfolding accepts_edit_def by blast
qed

lemma LogAndApply_watch:
  assumes "vs_failure vset = None" "accepts_edit vset edit version"
  shows "LogAndApply E (watched fs) allocated held s vset edit = watch_with (\<lambda>w. LogAndApply E fs allocated held w vset edit) s"
  by (simp add: LogAndApply_accepted [OF assms] ApplyPrepared_watch)

lemma LogAndApply_publishes:
  assumes laws: "user_comparator_laws (vs_comparator vset)" and wf: "wf_set vset" and edit: "wf_edit edit" "edit_fits edit"
    and run: "LogAndApply E fs allocated held world vset edit = (Inr (), vset', world')"
  shows "\<forall>l < levels. set (v_files (current_version vset') ! l) = result_files (current_version vset) edit l"
    "vs_compact_pointers vset' = ApplyCompactPointerEdits edit (vs_compact_pointers vset)"
    "vs_log_number vset' = value_or (ve_log_number edit) (vs_log_number vset)"
    "vs_prev_log_number vset' = value_or (ve_prev_log_number edit) (vs_prev_log_number vset)"
proof -
  show "\<forall>l < levels. set (v_files (current_version vset') ! l) = result_files (current_version vset) edit l"
    "vs_compact_pointers vset' = ApplyCompactPointerEdits edit (vs_compact_pointers vset)"
    "vs_log_number vset' = value_or (ve_log_number edit) (vs_log_number vset)"
    "vs_prev_log_number vset' = value_or (ve_prev_log_number edit) (vs_prev_log_number vset)"
    using run accepts_edit_version(2) [OF laws wf edit] by (cases rule: LogAndApply_cases; simp)+
qed

section \<open>Properties\<close>

text \<open>A file system in memory, with named contents and numbered open handles.  Opening a file for writing empties it and
  gives a new handle, or reports a given fault; writes fail on a handle that is not open, and renaming fails on
  a missing file.\<close>

record demo_world =
  dw_files :: "string \<rightharpoonup> bytes"
  dw_handles :: "nat \<rightharpoonup> string"
  dw_next :: nat

definition demo_world_New :: demo_world where
  "demo_world_New = \<lparr>dw_files = Map.empty, dw_handles = Map.empty, dw_next = 0\<rparr>"

definition demo_opened :: "nat \<Rightarrow> demo_world \<Rightarrow> status" where
  "demo_opened h w = (if dw_handles w h = None then Inl (Error InvalidArgument ''file is closed'') else Inr ())"

definition demo_fs :: "Error option \<Rightarrow> (demo_world, nat, bytes) FileSystem" where
  "demo_fs fault =
     \<lparr>fs_OpenSequential = (\<lambda>w path. (case dw_files w path of None \<Rightarrow> Inl (Error NotFound path) | Some data \<Rightarrow> Inr data, w)),
      fs_OpenWritable = (\<lambda>w path. case fault of Some e \<Rightarrow> (Inl e, w)
         | None \<Rightarrow> (Inr (dw_next w), w\<lparr>dw_files := (dw_files w)(path \<mapsto> []), dw_handles := (dw_handles w)(dw_next w \<mapsto> path),
                                     dw_next := Suc (dw_next w)\<rparr>)),
      fs_RenameFile = (\<lambda>w old_path new_path. case dw_files w old_path of None \<Rightarrow> (Inl (Error NotFound old_path), w)
         | Some data \<Rightarrow> (Inr (), w\<lparr>dw_files := (dw_files w)(old_path := None, new_path \<mapsto> data)\<rparr>)),
      fs_SyncDirectory = (\<lambda>w path. (Inr (), w)),
      fs_Append = (\<lambda>h w data. case dw_handles w h of None \<Rightarrow> (demo_opened h w, w)
         | Some path \<Rightarrow> (Inr (), w\<lparr>dw_files := (dw_files w)(path := map_option (\<lambda>contents. contents @ data) (dw_files w path))\<rparr>)),
      fs_Flush = (\<lambda>h w. (demo_opened h w, w)), fs_Sync = (\<lambda>h w. (demo_opened h w, w)),
      fs_Close = (\<lambda>h w. (Inr (), w\<lparr>dw_handles := (dw_handles w)(h := None)\<rparr>)),
      fs_Destroy = (\<lambda>h w. w\<lparr>dw_handles := (dw_handles w)(h := None)\<rparr>),
      fs_Read = (\<lambda>r n. (Inr (take n r), drop n r))\<rparr>"

text \<open>Writes to an open handle succeed there and open or close nothing, and so a MANIFEST is written as long as its handle is
  open, which it remains.\<close>

lemma demo_writer:
  "H h \<noteq> None \<Longrightarrow> reliable_writer (fs_Append (demo_fs None) h) (fs_Flush (demo_fs None) h) (fs_Sync (demo_fs None) h)
     (\<lambda>w. dw_handles w = H \<and> dw_next w = n)"
  by unfold_locales (auto simp: demo_fs_def demo_opened_def)

lemma Manifest_demo:
  assumes "dw_handles w (mf_handle m) \<noteq> None"
  shows "\<exists>m' w'. Manifest_AddRecord E (demo_fs None) w m data = (Inr (), m', w') \<and> mf_handle m' = mf_handle m \<and>
      dw_handles w' = dw_handles w \<and> dw_next w' = dw_next w"
    "\<exists>m'. Manifest_Sync (demo_fs None) w m = (Inr (), m', w) \<and> mf_handle m' = mf_handle m"
proof -
  from reliable_writer.AddRecord_healthy [OF demo_writer [where H = "dw_handles w", OF assms, of "dw_next w"], of "writer_in w (mf_writer m)" E data]
  show "\<exists>m' w'. Manifest_AddRecord E (demo_fs None) w m data = (Inr (), m', w') \<and> mf_handle m' = mf_handle m \<and>
      dw_handles w' = dw_handles w \<and> dw_next w' = dw_next w"
    by (auto simp: Manifest_AddRecord_def writer_in_def)
  show "\<exists>m'. Manifest_Sync (demo_fs None) w m = (Inr (), m', w) \<and> mf_handle m' = mf_handle m"
    using assms by (simp add: Manifest_Sync_def WalWriter_Sync_def writer_in_def demo_fs_def demo_opened_def)
qed

lemma InstallCurrent_demo:
  "\<exists>w'. InstallCurrent (demo_fs None) w vset = (Inr (), w') \<and> dw_handles w' = (dw_handles w)(dw_next w := None)"
  by (simp add: InstallCurrent_def WriteCurrentTemporary_def demo_fs_def demo_opened_def Let_def)

definition demo_manifest_open :: "nat VersionSet \<Rightarrow> demo_world \<Rightarrow> bool" where
  "demo_manifest_open vset w \<longleftrightarrow> (\<forall>m. vs_manifest vset = Some m \<longrightarrow> dw_handles w (mf_handle m) \<noteq> None)"

lemma VersionSet_Write_demo:
  assumes "demo_manifest_open vset w"
  shows "\<exists>vset' w'. VersionSet_Write E (demo_fs None) w vset encoded snapshot = (Inr (), vset', w') \<and> demo_manifest_open vset' w'"
proof (cases "vs_manifest vset")
  case None
  let ?path = "DescriptorFileName (vs_directory vset) (vs_manifest_file_number vset)"
  define w1 where "w1 = w\<lparr>dw_files := (dw_files w)(?path \<mapsto> []), dw_handles := (dw_handles w)(dw_next w \<mapsto> ?path), dw_next := Suc (dw_next w)\<rparr>"
  let ?m = "\<lparr>mf_handle = dw_next w, mf_writer = WalWriter_New E () 0\<rparr>"
  have opened: "dw_handles w1 (mf_handle ?m) \<noteq> None" by (simp add: w1_def)
  obtain m2 w2 where 2: "Manifest_AddRecord E (demo_fs None) w1 ?m (the snapshot) = (Inr (), m2, w2)" "mf_handle m2 = dw_next w"
    "dw_handles w2 = dw_handles w1" "dw_next w2 = dw_next w1" using Manifest_demo(1) [OF opened] by fastforce
  obtain m3 w3 where 3: "Manifest_AddRecord E (demo_fs None) w2 m2 encoded = (Inr (), m3, w3)" "mf_handle m3 = dw_next w"
    "dw_handles w3 = dw_handles w1" "dw_next w3 = dw_next w1"
    using Manifest_demo(1) [of w2 m2] opened 2 by fastforce
  obtain m4 where 4: "Manifest_Sync (demo_fs None) w3 m3 = (Inr (), m4, w3)" "mf_handle m4 = dw_next w"
    using Manifest_demo(2) [of w3 m3] opened 3 by fastforce
  obtain w5 where 5: "InstallCurrent (demo_fs None) w3 vset = (Inr (), w5)" "dw_handles w5 = (dw_handles w3)(dw_next w3 := None)"
    using InstallCurrent_demo by blast
  have select: "SelectManifest E (demo_fs None) w vset snapshot = (Inr m2, w2)"
    using None 2(1) by (simp add: SelectManifest_def CreateManifest_def demo_fs_def w1_def)
  have "fs_SyncDirectory (demo_fs None) w3 (vs_directory vset) = (Inr (), w3)" by (simp add: demo_fs_def)
  then show ?thesis
    using None select 3 4 5 by (simp add: VersionSet_Write_def demo_manifest_open_def w1_def)
next
  case (Some m)
  then have opened: "dw_handles w (mf_handle m) \<noteq> None" using assms by (simp add: demo_manifest_open_def)
  obtain m1 w1 where 1: "Manifest_AddRecord E (demo_fs None) w m encoded = (Inr (), m1, w1)" "mf_handle m1 = mf_handle m"
    "dw_handles w1 = dw_handles w" using Manifest_demo(1) [OF opened] by blast
  then obtain m2 where "Manifest_Sync (demo_fs None) w1 m1 = (Inr (), m2, w1)" "mf_handle m2 = mf_handle m"
    using Manifest_demo(2) [of w1 m1] opened by auto
  then show ?thesis using Some opened 1 by (simp add: VersionSet_Write_def SelectManifest_def demo_manifest_open_def)
qed

lemma LogAndApply_demo:
  assumes "vs_failure vset = None" "accepts_edit vset edit version" "demo_manifest_open vset w"
  shows "\<exists>vset' w'. LogAndApply E (demo_fs None) allocated held w vset edit = (Inr (), vset', w') \<and> demo_manifest_open vset' w'"
proof -
  let ?edit = "PrepareRuntimeEditCounters vset edit (value_or (ve_log_number edit) (vs_log_number vset))
    (value_or (ve_prev_log_number edit) (vs_prev_log_number vset))"
  obtain vset1 w1 where "VersionSet_Write E (demo_fs None) w vset (VersionEdit_Encode ?edit) (PrepareManifestSnapshot vset) = (Inr (), vset1, w1)"
    "demo_manifest_open vset1 w1" using VersionSet_Write_demo [OF assms(3)] by blast
  then show ?thesis
    by (simp add: LogAndApply_accepted [OF assms(1,2)] ApplyPrepared_def PublishPreparedEdit_def demo_manifest_open_def Let_def)
qed

lemma New_accepts:
  assumes laws: "user_comparator_laws c"
  shows "\<exists>version. accepts_edit (InstallPrepared {} (VersionSet_New directory c) Version_New) VersionEdit_New version"
proof -
  have wf: "wf_version c Version_New" using wf_set_version_New [OF laws] by (simp add: wf_set_version_def)
  have "valid_edit c Version_New VersionEdit_New"
    by (simp add: valid_edit_def VersionEdit_New_def result_files_def adds_def Version_New_def)
  then obtain b version where "VersionBuilder_Apply c (VersionBuilder_New Version_New) VersionEdit_New = Inr b"
      "VersionBuilder_Build c b = Inr version"
    using Build_accepts [OF laws wf wf_edit_New] by blast
  moreover have "Validate (InstallPrepared {} (VersionSet_New directory c) Version_New) VersionEdit_New = Inr ()"
    by (simp add: Validate_iff VersionEdit_New_def VersionSet_New_def FileNumberLimit_def)
  ultimately show ?thesis by (auto simp: accepts_edit_def)
qed

lemma bytewise_name: "length (AsBytes (Name BytewiseComparator)) < 2 ^ 32"
  by (simp add: AsBytes_def BytewiseComparator_def)

text \<open>The set before its first edit, and an edit that adds a file.\<close>

definition demo_start :: "nat VersionSet" where
  "demo_start = InstallPrepared {} (VersionSet_New ''db'' BytewiseComparator) Version_New"

definition demo_add :: VersionEdit where
  "demo_add = VersionEdit_New\<lparr>ve_new_files := [\<lparr>nf_level = 1, nf_file = demo_file 1\<rparr>]\<rparr>"

lemma demo_start_wf:
  "wf_set demo_start" "vs_comparator demo_start = BytewiseComparator" "vs_failure demo_start = None"
  "current_version demo_start = Version_New" "vs_manifest demo_start = None"
proof -
  have "wf_state BytewiseComparator \<lparr>ss_world = demo_world_New, ss_set = demo_start, ss_pins = [], ss_held = []\<rparr>"
    unfolding demo_start_def by (rule wf_state_New [OF bytewise.user_comparator_laws_axioms bytewise_name])
  then show "wf_set demo_start" by (simp add: wf_state_def)
qed (simp_all add: demo_start_def VersionSet_New_def)

lemma demo_add_wf: "wf_edit demo_add" "edit_fits demo_add"
  by (simp_all add: demo_add_def wf_edit_def edit_fits_def VersionEdit_New_def wf_file_def demo_file_def NumLevels_def)

lemma demo_add_valid_for:
  assumes "\<And>l. l < levels \<Longrightarrow> v_files base ! l = []"
  shows "valid_edit BytewiseComparator base demo_add"
proof -
  have "result_files base demo_add l \<subseteq> {MakeVersionFile (demo_file 1)}" if "l < levels" for l
    using that by (auto simp: result_files_def adds_def demo_add_def VersionEdit_New_def assms)
  then have same: "f = g" if "l < levels" "f \<in> result_files base demo_add l" "g \<in> result_files base demo_add l" for l f g
    using that by blast
  have "ve_deleted_files demo_add = []" "ve_new_files demo_add = [\<lparr>nf_level = 1, nf_file = demo_file 1\<rparr>]"
    by (simp_all add: demo_add_def VersionEdit_New_def)
  then show ?thesis
    using demo_key_order same assms unfolding valid_edit_def by (auto simp: demo_file_def)
qed

lemma demo_add_valid: "Validate demo_start demo_add = Inr ()" "valid_edit BytewiseComparator Version_New demo_add"
proof -
  show "Validate demo_start demo_add = Inr ()"
    by (simp add: Validate_iff demo_add_def demo_start_def VersionEdit_New_def VersionSet_New_def FileNumberLimit_def demo_file_def)
  show "valid_edit BytewiseComparator Version_New demo_add" by (rule demo_add_valid_for) (simp add: Version_New_def)
qed

lemma demo_add_files:
  "v_files base ! l = [] \<Longrightarrow> result_files base demo_add l = (if l = 1 then {demo_file 1} else {})"
  by (auto simp: result_files_def adds_def demo_add_def VersionEdit_New_def demo_file_def
      MakeVersionFile_def InitialAllowedSeeks_def BytesPerSeek_def MinimumSeeks_def)

lemma demo_add_accepted: "builder_accepts demo_start demo_add"
proof -
  obtain b version where "VersionBuilder_Apply BytewiseComparator (VersionBuilder_New Version_New) demo_add = Inr b"
      "VersionBuilder_Build BytewiseComparator b = Inr version"
    using Build_accepts [OF bytewise.user_comparator_laws_axioms _ demo_add_wf(1)] demo_add_valid(2)
      wf_set_version_New [OF bytewise.user_comparator_laws_axioms] by (fastforce simp: wf_set_version_def)
  then show ?thesis by (simp add: builder_accepts_def demo_start_wf has_value_def)
qed

text \<open>The set created in an empty file system, and the set after the edit.\<close>

definition demo_created :: "nat VersionSet \<times> demo_world" where
  "demo_created = snd (LogAndApply demo_crc (demo_fs None) True {} demo_world_New demo_start VersionEdit_New)"

definition demo_set :: "nat VersionSet" where
  "demo_set = fst demo_created"

definition demo_edited :: "nat VersionSet \<times> demo_world" where
  "demo_edited = snd (LogAndApply demo_crc (demo_fs None) True {} (snd demo_created) demo_set demo_add)"

lemma demo_created_run:
  "LogAndApply demo_crc (demo_fs None) True {} demo_world_New demo_start VersionEdit_New = (Inr (), demo_set, snd demo_created)"
  "demo_manifest_open demo_set (snd demo_created)"
proof -
  obtain version where "accepts_edit demo_start VersionEdit_New version"
    using New_accepts [OF bytewise.user_comparator_laws_axioms] unfolding demo_start_def by blast
  then obtain vset w where "LogAndApply demo_crc (demo_fs None) True {} demo_world_New demo_start VersionEdit_New = (Inr (), vset, w)"
      "demo_manifest_open vset w"
    using LogAndApply_demo [OF demo_start_wf(3), of VersionEdit_New version demo_world_New demo_crc True "{}"]
    by (auto simp: demo_manifest_open_def demo_start_wf)
  then show "LogAndApply demo_crc (demo_fs None) True {} demo_world_New demo_start VersionEdit_New = (Inr (), demo_set, snd demo_created)"
      "demo_manifest_open demo_set (snd demo_created)"
    by (simp_all add: demo_set_def demo_created_def)
qed

lemma demo_set_created:
  "VersionSet_Create demo_crc (demo_fs None) True demo_world_New ''db'' BytewiseComparator = (Inr demo_set, snd demo_created)"
  using demo_created_run(1) by (simp add: VersionSet_Create_def demo_start_def)

lemma demo_reachable:
  "reachable_set demo_crc (demo_fs None) BytewiseComparator
     \<lparr>ss_world = snd demo_created, ss_set = demo_set, ss_pins = [], ss_held = []\<rparr>"
  by (rule reachable_set.created [OF demo_set_created])

lemma demo_set_wf: "wf_set demo_set" "vs_comparator demo_set = BytewiseComparator"
  using reachable_wf_state [OF bytewise.user_comparator_laws_axioms bytewise_name demo_reachable] by (simp_all add: wf_state_def)

lemma demo_set_published: "\<exists>m version. demo_set = published {} (demo_start\<lparr>vs_manifest := Some m\<rparr>) VersionEdit_New version"
  using demo_created_run(1)
proof (cases rule: LogAndApply_cases)
  case (published m version)
  then show ?thesis by blast
qed simp_all

lemma demo_set_fields:
  "vs_failure demo_set = None" "Validate demo_set demo_add = Inr ()" "l < levels \<Longrightarrow> v_files (current_version demo_set) ! l = []"
proof -
  obtain m version where set: "demo_set = published {} (demo_start\<lparr>vs_manifest := Some m\<rparr>) VersionEdit_New version"
    using demo_set_published by blast
  have "vs_log_number demo_start = 0" "vs_next_file_number demo_start = 2" by (simp_all add: demo_start_def VersionSet_New_def)
  moreover have "ve_new_files demo_add = [\<lparr>nf_level = 1, nf_file = demo_file 1\<rparr>]" "ve_log_number demo_add = None"
      "ve_prev_log_number demo_add = None" "ve_comparator_name demo_add = None" "ve_log_number VersionEdit_New = None"
    by (simp_all add: demo_add_def VersionEdit_New_def)
  ultimately show "Validate demo_set demo_add = Inr ()"
    by (simp add: set Validate_iff value_or_def FileNumberLimit_def demo_file_def)
  show "vs_failure demo_set = None" by (simp add: set demo_start_wf)
  have "edit_fits VersionEdit_New" by (simp add: edit_fits_def VersionEdit_New_def)
  then have "set (v_files (current_version demo_set) ! l) = result_files Version_New VersionEdit_New l" if "l < levels" for l
    using that LogAndApply_publishes(1) [OF _ demo_start_wf(1) wf_edit_New _ demo_created_run(1)]
    by (simp add: demo_start_wf bytewise.user_comparator_laws_axioms)
  then show "v_files (current_version demo_set) ! l = []" if "l < levels"
    using that by (simp add: result_files_def adds_def VersionEdit_New_def Version_New_def)
qed

lemma demo_edited_run:
  "LogAndApply demo_crc (demo_fs None) True {} (snd demo_created) demo_set demo_add = (Inr (), demo_edited)"
proof -
  obtain version where "accepts_edit demo_set demo_add version"
    using valid_edit_accepted [OF _ demo_set_wf(1) demo_add_wf(1) demo_set_fields(2)] demo_add_valid_for [OF demo_set_fields(3)]
    by (auto simp: demo_set_wf(2) bytewise.user_comparator_laws_axioms)
  from LogAndApply_demo [OF demo_set_fields(1) this demo_created_run(2), of demo_crc True "{}"] show ?thesis
    by (auto simp: demo_edited_def)
qed

lemma demo_edited_files: "l < levels \<Longrightarrow> set (v_files (current_version (fst demo_edited)) ! l) = (if l = 1 then {demo_file 1} else {})"
  using LogAndApply_publishes(1) [OF _ demo_set_wf(1) demo_add_wf, of demo_crc "demo_fs None" True "{}" "snd demo_created"
      "fst demo_edited" "snd demo_edited"] demo_edited_run demo_add_files [OF demo_set_fields(3)]
  by (simp add: demo_set_wf(2) bytewise.user_comparator_laws_axioms)

lemma demo_edited_reachable:
  "reachable_set demo_crc (demo_fs None) BytewiseComparator
     \<lparr>ss_world = snd demo_edited, ss_set = fst demo_edited, ss_pins = [], ss_held = []\<rparr>"
  using reachable_set.log_and_apply [OF demo_reachable demo_add_wf, of True "Inr ()" "fst demo_edited" "snd demo_edited"] demo_edited_run
  by simp

lemma demo_edited_wf: "wf_set (fst demo_edited)"
  using reachable_wf_state [OF bytewise.user_comparator_laws_axioms bytewise_name demo_edited_reachable] by (simp add: wf_state_def)

lemma demo_edited_numbers: "vs_current (fst demo_edited) = Some v \<Longrightarrow> file_numbers (vs_heap (fst demo_edited) ! v) = {1}"
proof -
  assume v: "vs_current (fst demo_edited) = Some v"
  then have version: "vs_heap (fst demo_edited) ! v = current_version (fst demo_edited)" by (simp add: current_version_def)
  have len: "length (v_files (current_version (fst demo_edited))) = levels"
    using v demo_edited_wf unfolding version [symmetric] by (auto simp: wf_set_def wf_set_version_def wf_version_def)
  have nths: "set (v_files (current_version (fst demo_edited))) = (!) (v_files (current_version (fst demo_edited))) ` {..<levels}"
    by (auto simp: in_set_conv_nth len)
  have "file_numbers (current_version (fst demo_edited)) =
      (\<Union>l < levels. fm_number ` set (v_files (current_version (fst demo_edited)) ! l))"
    unfolding file_numbers_def nths by simp
  also have "\<dots> = {1}" using demo_edited_files by (auto simp: levels_eq demo_file_def split: if_splits)
  finally show ?thesis by (simp add: version)
qed

text \<open>C29: The invariant of the version set.  Whatever sequence of operations a client performs on a created or recovered
  set, with failing or succeeding file operations, every version is well formed with numbers below the next
  file number, the compact pointers are valid keys, the log, previous log and MANIFEST numbers are below the next
  file number, and the last sequence fits 56 bits.\<close>

theorem version_set_invariant:
  assumes "user_comparator_laws c" "length (AsBytes (Name c)) < 2 ^ 32" "reachable_set E fs c s"
  shows "wf_set (ss_set s)"
  using reachable_wf_state [OF assms] by (simp add: wf_state_def)

theorem version_set_invariant_witness: "wf_set demo_set"
  using version_set_invariant [OF bytewise.user_comparator_laws_axioms bytewise_name demo_reachable] by simp

text \<open>C28: The live files are those somebody can read.  In every reachable state \<open>LiveFiles\<close> returns exactly the file numbers
  of the current version, of the versions with outstanding read pins, and of the versions held by shared
  pointers; so a cleanup that keeps the live files never removes a file a reader still uses, and keeps no other.\<close>

theorem live_files_exact:
  assumes "user_comparator_laws c" "length (AsBytes (Name c)) < 2 ^ 32" "reachable_set E fs c s"
  shows "LiveFiles (set (ss_held s)) (ss_set s) = (\<Union>v \<in> readable s. file_numbers (vs_heap (ss_set s) ! v))"
  using reachable_wf_state [OF assms] wf_pins_live by (auto simp: wf_state_def LiveFiles_eq)

theorem live_files_exact_witness: "LiveFiles {} (fst demo_edited) = {1}"
proof -
  obtain v where "vs_current (fst demo_edited) = Some v"
    using demo_edited_wf by (auto simp: wf_set_def)
  with live_files_exact [OF bytewise.user_comparator_laws_axioms bytewise_name demo_edited_reachable] demo_edited_numbers
  show ?thesis by (simp add: readable_def)
qed

text \<open>C30: A failed edit keeps the previous state.  When \<open>LogAndApply\<close> returns an error, the set differs at most in its
  MANIFEST writer and its terminal error.  Either nothing was written and nothing changed, or the failure is
  recorded, and then every later edit is rejected with the recorded error and without any file operation.\<close>

theorem log_and_apply_failure:
  assumes "LogAndApply E fs allocated held world vset edit = (Inl e, vset', world')"
  shows "vset' = vset \<and> world' = world \<or>
    (\<exists>m e'. vset' = vset\<lparr>vs_manifest := m, vs_failure := Some e'\<rparr> \<and> e' = (if allocated then e else TerminalError_fallback) \<and>
      (\<forall>allocated2 held2 world2 edit2.
         LogAndApply E fs allocated2 held2 world2 vset' edit2 = (Inl e', vset', world2) \<and>
         LogAndApplyTrusted E fs allocated2 held2 world2 vset' edit2 = (Inl e', vset', world2)))"
  using assms
proof (cases rule: LogAndApply_cases)
  case (failed e2 m)
  then show ?thesis by (intro disjI2 exI [of _ m]) (simp add: LogAndApply_def LogAndApplyTrusted_def)
qed auto

text \<open>C31: An accepted edit is applied unless a file operation fails.  When no failure is recorded, the numbers of a
  well-formed edit pass the bounds of the set and the edit is valid for the current version, then \<open>LogAndApply\<close>
  on any file system returns.  Watching its file operations changes nothing.  If none of them reports an error,
  it returns success, the new current version has exactly the files the edit describes, and the counters and
  compact pointers are those of the edit where it names them.  Otherwise exactly one of them reported an
  error, which is what it returns.\<close>

theorem log_and_apply_progress:
  assumes laws: "user_comparator_laws (vs_comparator vset)" and wf: "wf_set vset" and edit: "wf_edit edit" "edit_fits edit"
    and "vs_failure vset = None" "Validate vset edit = Inr ()" "valid_edit (vs_comparator vset) (current_version vset) edit"
  shows "\<exists>st vset' world' errors.
     LogAndApply E fs allocated held world vset edit = (st, vset', world') \<and>
     LogAndApply E (watched fs) allocated held (world, []) vset edit = (st, vset', world', errors) \<and>
     (case errors of
        [] \<Rightarrow> st = Inr () \<and>
          (\<forall>l < levels. set (v_files (current_version vset') ! l) = result_files (current_version vset) edit l) \<and>
          vs_compact_pointers vset' = ApplyCompactPointerEdits edit (vs_compact_pointers vset) \<and>
          vs_log_number vset' = value_or (ve_log_number edit) (vs_log_number vset) \<and>
          vs_prev_log_number vset' = value_or (ve_prev_log_number edit) (vs_prev_log_number vset)
      | e # rest \<Rightarrow> st = Inl e \<and> rest = [])"
proof -
  obtain version where acc: "accepts_edit vset edit version"
    using valid_edit_accepted [OF laws wf edit(1) assms(6,7)] by blast
  obtain st vset' world' where run: "LogAndApply E fs allocated held world vset edit = (st, vset', world')"
    using prod_cases3 by blast
  then have watched: "LogAndApply E (watched fs) allocated held (world, []) vset edit = (st, vset', world', reported st)"
    by (simp add: LogAndApply_watch [OF assms(5) acc] watch_with_def)
  show ?thesis
  proof (cases st)
    case (Inl e)
    with run watched show ?thesis by simp
  next
    case (Inr u)
    with run have "LogAndApply E fs allocated held world vset edit = (Inr (), vset', world')" by simp
    with LogAndApply_publishes [OF laws wf edit this] watched Inr show ?thesis by simp
  qed
qed

text \<open>C32: The trusted entry agrees with the checked one.  On an edit that the version builder accepts, the entry used for
  internally generated edits does exactly what the checked \<open>LogAndApply\<close> does.\<close>

theorem log_and_apply_trusted:
  assumes "user_comparator_laws (vs_comparator vset)" "wf_set vset" "wf_edit edit" "builder_accepts vset edit"
  shows "LogAndApplyTrusted E fs allocated held world vset edit = LogAndApply E fs allocated held world vset edit"
  using assms by (rule LogAndApplyTrusted_eq)


lemma demo_add_accepts: "\<exists>version. accepts_edit demo_start demo_add version"
  using valid_edit_accepted [OF _ demo_start_wf(1) demo_add_wf(1) demo_add_valid(1)]
  by (simp add: demo_start_wf demo_add_valid(2) bytewise.user_comparator_laws_axioms)

lemma demo_fault:
  "\<exists>vset'. LogAndApply demo_crc (demo_fs (Some e)) True {} w demo_start demo_add = (Inl e, vset', w) \<and> vs_failure vset' = Some e"
proof -
  obtain version where acc: "accepts_edit demo_start demo_add version" using demo_add_accepts by blast
  show ?thesis
    by (simp add: LogAndApply_accepted [OF demo_start_wf(3) acc] ApplyPrepared_def VersionSet_Write_def SelectManifest_def
        CreateManifest_def demo_start_wf(3,5) demo_fs_def Let_def TerminalError_Record_def)
qed

theorem log_and_apply_failure_witness:
  "let e = Error Io ''open'';
       (st, vset', w) = LogAndApply demo_crc (demo_fs (Some e)) True {} demo_world_New demo_start demo_add
   in st = Inl e \<and> LogAndApply demo_crc (demo_fs None) True {} w vset' demo_add = (Inl e, vset', w)"
proof -
  let ?e = "Error Io ''open''"
  obtain vset' where run: "LogAndApply demo_crc (demo_fs (Some ?e)) True {} demo_world_New demo_start demo_add = (Inl ?e, vset', demo_world_New)"
      "vs_failure vset' = Some ?e"
    using demo_fault by blast
  with log_and_apply_failure [OF run(1)] demo_start_wf(3) show ?thesis by (auto simp: LogAndApply_def)
qed

theorem log_and_apply_progress_witness:
  "(\<exists>vset' w. LogAndApply demo_crc (watched (demo_fs None)) True {} (demo_world_New, []) demo_start demo_add = (Inr (), vset', w, []) \<and>
     set (v_files (current_version vset') ! 1) = {demo_file 1}) \<and>
   (\<exists>vset' w. LogAndApply demo_crc (watched (demo_fs (Some (Error Io ''open'')))) True {} (demo_world_New, []) demo_start demo_add =
     (Inl (Error Io ''open''), vset', w, [Error Io ''open'']))"
proof -
  have files: "result_files Version_New demo_add 1 = {demo_file 1}"
    using demo_add_files [of Version_New 1] by (simp add: Version_New_def levels_eq)
  note progress = log_and_apply_progress [OF _ demo_start_wf(1) demo_add_wf demo_start_wf(3) demo_add_valid(1), of demo_crc _ True "{}"
      demo_world_New, unfolded demo_start_wf, OF bytewise.user_comparator_laws_axioms demo_add_valid(2)]
  obtain vset1 w1 where "LogAndApply demo_crc (demo_fs None) True {} demo_world_New demo_start demo_add = (Inr (), vset1, w1)"
    using LogAndApply_demo [OF demo_start_wf(3)] demo_add_accepts by (fastforce simp: demo_manifest_open_def demo_start_wf)
  with progress [of "demo_fs None"] files
  have 1: "\<exists>vset' w. LogAndApply demo_crc (watched (demo_fs None)) True {} (demo_world_New, []) demo_start demo_add = (Inr (), vset', w, []) \<and>
     set (v_files (current_version vset') ! 1) = {demo_file 1}"
    by (elim exE conjE, rename_tac st vset' w errors, case_tac errors) (auto simp: levels_eq)
  let ?e = "Error Io ''open''"
  obtain vset2 where "LogAndApply demo_crc (demo_fs (Some ?e)) True {} demo_world_New demo_start demo_add = (Inl ?e, vset2, demo_world_New)"
    using demo_fault by blast
  with progress [of "demo_fs (Some ?e)"]
  have "\<exists>vset' w. LogAndApply demo_crc (watched (demo_fs (Some ?e))) True {} (demo_world_New, []) demo_start demo_add = (Inl ?e, vset', w, [?e])"
    by (elim exE conjE, rename_tac st vset' w errors, case_tac errors) auto
  with 1 show ?thesis by blast
qed

theorem log_and_apply_trusted_witness:
  "LogAndApplyTrusted demo_crc (demo_fs None) True {} demo_world_New demo_start demo_add =
     LogAndApply demo_crc (demo_fs None) True {} demo_world_New demo_start demo_add"
  by (rule log_and_apply_trusted [OF _ demo_start_wf(1) demo_add_wf(1) demo_add_accepted])
    (simp add: demo_start_wf(2) bytewise.user_comparator_laws_axioms)

end
