(* ===== verification/Memory_Arena.thy ===== *)
theory Memory_Arena
  imports Prelude
begin

text \<open>
  Monotonic storage (\<^verbatim>\<open>src/memory/arena.{h,cc}\<close>): small requests are cut from a current block, large ones get a
  block of their own, and everything is freed together.  Addresses and sizes are 64-bit words and wrap, as
  the pointer arithmetic and the subtraction \<^verbatim>\<open>bytes_remaining_ - padding\<close> of the source do.
\<close>

section \<open>The arena\<close>

text \<open>\<open>ar_blocks\<close> lists the blocks, newest first, by address and size.\<close>

record Arena =
  ar_allocation_pointer :: u64
  ar_bytes_remaining :: u64
  ar_blocks :: "(u64 \<times> u64) list"
  ar_memory_usage :: u64

definition Arena_New :: Arena where
  "Arena_New = \<lparr>ar_allocation_pointer = 0, ar_bytes_remaining = 0, ar_blocks = [], ar_memory_usage = 0\<rparr>"

definition Alignment :: u64 where
  "Alignment = 8"

definition BlockSize :: u64 where
  "BlockSize = 4 * 1024"

definition DedicatedAllocationThreshold :: u64 where
  "DedicatedAllocationThreshold = BlockSize div 4"

text \<open>The global \<^verbatim>\<open>operator new[]\<close>: given the blocks in use and a size, the address of a new block, or
  \<open>None\<close> when it throws \<^verbatim>\<open>std::bad_alloc\<close>.  An allocation that throws leaves the arena as it was.\<close>

type_synonym new_array = "(u64 \<times> u64) list \<Rightarrow> u64 \<Rightarrow> u64 option"

definition AlignmentPadding :: "u64 \<Rightarrow> u64" where
  "AlignmentPadding pointer =
     (if pointer = 0 then 0
      else let misalignment = pointer AND (Alignment - 1)
           in if misalignment = 0 then 0 else Alignment - misalignment)"

definition CanAllocateFromCurrentBlock :: "Arena \<Rightarrow> u64 \<Rightarrow> u64 \<Rightarrow> bool" where
  "CanAllocateFromCurrentBlock arena bytes padding \<longleftrightarrow> bytes \<le> ar_bytes_remaining arena - padding"

definition ShouldAllocateDedicated :: "u64 \<Rightarrow> bool" where
  "ShouldAllocateDedicated bytes \<longleftrightarrow> bytes > DedicatedAllocationThreshold"

definition AllocateBlock :: "new_array \<Rightarrow> Arena \<Rightarrow> u64 \<Rightarrow> (u64 \<times> Arena) option" where
  "AllocateBlock new arena bytes =
     map_option (\<lambda>base. (base, arena\<lparr>ar_blocks := (base, bytes) # ar_blocks arena,
                                    ar_memory_usage := ar_memory_usage arena + (bytes + 8)\<rparr>))
       (new (ar_blocks arena) bytes)"

definition RefillCurrentBlock :: "new_array \<Rightarrow> Arena \<Rightarrow> Arena option" where
  "RefillCurrentBlock new arena =
     map_option (\<lambda>(base, arena'). arena'\<lparr>ar_allocation_pointer := base, ar_bytes_remaining := BlockSize\<rparr>)
       (AllocateBlock new arena BlockSize)"

definition AllocateFromCurrentBlock :: "Arena \<Rightarrow> u64 \<Rightarrow> u64 \<Rightarrow> u64 \<times> Arena" where
  "AllocateFromCurrentBlock arena bytes padding =
     (ar_allocation_pointer arena + padding,
      arena\<lparr>ar_allocation_pointer := ar_allocation_pointer arena + (padding + bytes),
            ar_bytes_remaining := ar_bytes_remaining arena - (padding + bytes)\<rparr>)"

definition AllocateFallback :: "new_array \<Rightarrow> Arena \<Rightarrow> u64 \<Rightarrow> (u64 \<times> Arena) option" where
  "AllocateFallback new arena bytes =
     (if ShouldAllocateDedicated bytes then AllocateBlock new arena bytes
      else map_option (\<lambda>arena'. AllocateFromCurrentBlock arena' bytes 0) (RefillCurrentBlock new arena))"

definition Allocate :: "new_array \<Rightarrow> Arena \<Rightarrow> u64 \<Rightarrow> (u64 \<times> Arena) option" where
  "Allocate new arena bytes =
     (if bytes \<le> ar_bytes_remaining arena then Some (AllocateFromCurrentBlock arena bytes 0)
      else AllocateFallback new arena bytes)"

definition AllocateAligned :: "new_array \<Rightarrow> Arena \<Rightarrow> u64 \<Rightarrow> (u64 \<times> Arena) option" where
  "AllocateAligned new arena bytes =
     (let padding = AlignmentPadding (ar_allocation_pointer arena)
      in if CanAllocateFromCurrentBlock arena bytes padding
         then Some (AllocateFromCurrentBlock arena bytes padding)
         else AllocateFallback new arena bytes)"

section \<open>Requests\<close>

text \<open>A request is a size and whether it must be aligned; a run serves requests in order and collects the
  ranges handed out, newest first.\<close>

fun serve :: "new_array \<Rightarrow> Arena \<Rightarrow> (bool \<times> u64) list \<Rightarrow> (u64 \<times> u64) list \<Rightarrow> ((u64 \<times> u64) list \<times> Arena) option" where
  "serve new arena [] given = Some (given, arena)"
| "serve new arena ((aligned, bytes) # requests) given =
     (case (if aligned then AllocateAligned new arena bytes else Allocate new arena bytes) of
        None \<Rightarrow> None
      | Some (address, arena') \<Rightarrow> serve new arena' requests ((address, bytes) # given))"

definition range_of :: "u64 \<times> u64 \<Rightarrow> nat set" where
  "range_of r = {unat (fst r) ..< unat (fst r) + unat (snd r)}"

text \<open>What the language guarantees of \<^verbatim>\<open>new std::byte[n]\<close>: a non-null address aligned for any fundamental type,
  of a range inside the address space that is disjoint from the blocks in use.\<close>

definition sound_new :: "new_array \<Rightarrow> bool" where
  "sound_new new \<longleftrightarrow>
     (\<forall>blocks bytes base. new blocks bytes = Some base \<longrightarrow>
        base \<noteq> 0 \<and> 8 dvd unat base \<and> unat base + unat bytes < 2 ^ 64 \<and>
        (\<forall>b \<in> set blocks. range_of b \<inter> range_of (base, bytes) = {}))"

text \<open>The invariant.  The free part of the current block is a suffix of a block, no range that was handed out
  meets it, and address and free size agree modulo the alignment.\<close>

definition free_range :: "Arena \<Rightarrow> nat set" where
  "free_range arena = range_of (ar_allocation_pointer arena, ar_bytes_remaining arena)"

definition wf_arena :: "Arena \<Rightarrow> (u64 \<times> u64) list \<Rightarrow> bool" where
  "wf_arena arena given \<longleftrightarrow>
     unat (ar_allocation_pointer arena) + unat (ar_bytes_remaining arena) < 2 ^ 64 \<and>
     8 dvd unat (ar_allocation_pointer arena) + unat (ar_bytes_remaining arena) \<and>
     (ar_allocation_pointer arena = 0 \<longrightarrow> ar_bytes_remaining arena = 0) \<and>
     (\<forall>r \<in> set given. \<exists>b \<in> set (ar_blocks arena). range_of r \<subseteq> range_of b) \<and>
     (free_range arena \<noteq> {} \<longrightarrow> (\<exists>b \<in> set (ar_blocks arena). free_range arena \<subseteq> range_of b)) \<and>
     (\<forall>r \<in> set given. range_of r \<inter> free_range arena = {}) \<and>
     sorted_wrt (\<lambda>r s. range_of r \<inter> range_of s = {}) given \<and>
     ar_memory_usage arena = sum_list (map (\<lambda>b. snd b + 8) (ar_blocks arena))"


section \<open>Every allocation is sound\<close>

lemma padding_unat: "unat (AlignmentPadding p) = (8 - unat p mod 8) mod 8"
proof -
  have m: "unat (p AND 7) = unat p mod 8"
    using arg_cong [OF word_mod_2p_is_mask [of 3 p], of unat] by (simp add: mask_eq_exp_minus_1 unat_mod)
  have "unat p mod 8 < 8" by simp
  then have "unat p mod 8 \<noteq> 0 \<Longrightarrow> unat (8 - (p AND 7)) = 8 - unat p mod 8"
    by (subst unat_sub) (simp_all add: word_le_nat_alt m)
  then show ?thesis
    using m by (auto simp: AlignmentPadding_def Alignment_def Let_def unat_eq_zero [symmetric])
qed


lemma complement_mod:
  fixes m n :: nat
  assumes "8 dvd m + n"
  shows "(8 - m mod 8) mod 8 = n mod 8"
proof -
  have "8 dvd m mod 8 + n mod 8" using assms by (metis dvd_eq_mod_eq_0 mod_add_eq)
  then obtain k where k: "m mod 8 + n mod 8 = 8 * k" by (rule dvdE)
  have less: "m mod 8 < 8" "n mod 8 < 8" by simp_all
  with k have "k = 0 \<or> k = 1" by linarith
  then show ?thesis
  proof
    assume "k = 0"
    with k show ?thesis by simp
  next
    assume "k = 1"
    with k less have "8 - m mod 8 = n mod 8" by linarith
    then show ?thesis by simp
  qed
qed

text \<open>The subtraction that decides whether an aligned request fits never wraps.\<close>

lemma padding_le_remaining:
  assumes "wf_arena arena given"
  shows "unat (AlignmentPadding (ar_allocation_pointer arena)) \<le> unat (ar_bytes_remaining arena)"
proof -
  from assms have "8 dvd unat (ar_allocation_pointer arena) + unat (ar_bytes_remaining arena)"
    by (simp add: wf_arena_def)
  then have "(8 - unat (ar_allocation_pointer arena) mod 8) mod 8 = unat (ar_bytes_remaining arena) mod 8"
    by (rule complement_mod)
  then show ?thesis by (simp add: padding_unat)
qed

lemma padding_aligns: "8 dvd unat p + unat (AlignmentPadding p)"
proof -
  define d m where "d = unat p div 8" and "m = unat p mod 8"
  have p: "unat p = 8 * d + m" "m < 8" by (simp_all add: d_def m_def)
  have "8 dvd 8 * d + m + (8 - m) mod 8"
  proof (cases "m = 0")
    case False
    with p(2) have "8 * d + m + (8 - m) mod 8 = 8 * (d + 1)" by simp
    then show ?thesis by (metis dvd_triv_left)
  qed simp
  then show ?thesis unfolding padding_unat by (simp add: p)
qed

lemma unat_plus_small: "unat (a :: u64) + unat b < 2 ^ 64 \<Longrightarrow> unat (a + b) = unat a + unat b"
  by (rule unat_add_lem [THEN iffD1]) simp

text \<open>Cutting a range from the front of the free part.\<close>

lemma AllocateFromCurrentBlock_wf:
  assumes wf: "wf_arena arena given"
    and fits: "unat padding + unat bytes \<le> unat (ar_bytes_remaining arena)" and pos: "0 < bytes"
    and cut: "AllocateFromCurrentBlock arena bytes padding = (address, arena')"
  shows "wf_arena arena' ((address, bytes) # given)"
    and "unat address = unat (ar_allocation_pointer arena) + unat padding"
proof -
  let ?p = "ar_allocation_pointer arena" and ?r = "ar_bytes_remaining arena"
  have bound: "unat ?p + unat ?r < 2 ^ 64" and dvd: "8 dvd unat ?p + unat ?r"
    and given: "\<forall>r \<in> set given. \<exists>b \<in> set (ar_blocks arena). range_of r \<subseteq> range_of b"
      "\<forall>r \<in> set given. range_of r \<inter> free_range arena = {}"
      "sorted_wrt (\<lambda>r s. range_of r \<inter> range_of s = {}) given"
    and block: "free_range arena \<noteq> {} \<longrightarrow> (\<exists>b \<in> set (ar_blocks arena). free_range arena \<subseteq> range_of b)"
    and usage: "ar_memory_usage arena = sum_list (map (\<lambda>b. snd b + 8) (ar_blocks arena))"
    and nonnull: "?p = 0 \<longrightarrow> ?r = 0"
    using wf unfolding wf_arena_def by auto
  have sums: "unat (padding + bytes) = unat padding + unat bytes"
    using fits bound by (intro unat_plus_small) simp
  have address: "unat address = unat ?p + unat padding"
    using cut fits bound by (auto simp: AllocateFromCurrentBlock_def unat_plus_small)
  show "unat address = unat ?p + unat padding" by (rule address)
  have p': "unat (ar_allocation_pointer arena') = unat ?p + unat padding + unat bytes"
    using cut fits bound sums
    by (auto simp: AllocateFromCurrentBlock_def) (subst unat_plus_small, auto)
  have r': "unat (ar_bytes_remaining arena') = unat ?r - (unat padding + unat bytes)"
    using cut fits sums by (auto simp: AllocateFromCurrentBlock_def unat_sub word_le_nat_alt)
  have blocks': "ar_blocks arena' = ar_blocks arena" "ar_memory_usage arena' = ar_memory_usage arena"
    using cut by (auto simp: AllocateFromCurrentBlock_def)
  have pos': "0 < unat bytes" using pos by (simp add: unat_gt_0 word_neq_0_conv)
  have given_range: "range_of (address, bytes) \<subseteq> free_range arena"
    using address fits by (auto simp: range_of_def free_range_def)
  have free': "free_range arena' \<subseteq> free_range arena" "range_of (address, bytes) \<inter> free_range arena' = {}"
    using address fits p' r' by (auto simp: range_of_def free_range_def)
  have "free_range arena \<noteq> {}" using fits pos' by (auto simp: free_range_def range_of_def)
  then obtain b where b: "b \<in> set (ar_blocks arena)" "free_range arena \<subseteq> range_of b" using block by blast
  have nonnull': "ar_allocation_pointer arena' \<noteq> 0" using p' pos' by auto
  have inside: "\<forall>r \<in> set ((address, bytes) # given). \<exists>b \<in> set (ar_blocks arena). range_of r \<subseteq> range_of b"
    using given(1) given_range b by (simp, blast)
  have apart: "\<forall>r \<in> set ((address, bytes) # given). range_of r \<inter> free_range arena' = {}"
    using given(2) free' by (simp, blast)
  have distinct: "sorted_wrt (\<lambda>r s. range_of r \<inter> range_of s = {}) ((address, bytes) # given)"
    using given(2,3) given_range by (simp, blast)
  have "\<exists>b \<in> set (ar_blocks arena). free_range arena' \<subseteq> range_of b" using b free'(1) by blast
  then show "wf_arena arena' ((address, bytes) # given)"
    unfolding wf_arena_def blocks'
    using bound dvd inside apart distinct usage p' r' fits nonnull' by (intro conjI) simp_all
qed

text \<open>A block of its own, or a new current block.\<close>

lemma AllocateBlock_sound:
  assumes sound: "sound_new new" and wf: "wf_arena arena given"
    and alloc: "AllocateBlock new arena bytes = Some (address, arena')"
  shows "address \<noteq> 0" "8 dvd unat address" "unat address + unat bytes < 2 ^ 64"
    and "ar_blocks arena' = (address, bytes) # ar_blocks arena"
    and "ar_memory_usage arena' = sum_list (map (\<lambda>b. snd b + 8) (ar_blocks arena'))"
    and "ar_allocation_pointer arena' = ar_allocation_pointer arena"
    and "ar_bytes_remaining arena' = ar_bytes_remaining arena"
    and "\<forall>r \<in> set given. range_of r \<inter> range_of (address, bytes) = {}"
    and "free_range arena \<inter> range_of (address, bytes) = {}"
proof -
  from alloc have new: "new (ar_blocks arena) bytes = Some address"
    and arena': "arena' = arena\<lparr>ar_blocks := (address, bytes) # ar_blocks arena,
      ar_memory_usage := ar_memory_usage arena + (bytes + 8)\<rparr>"
    by (auto simp: AllocateBlock_def)
  show "address \<noteq> 0" "8 dvd unat address" "unat address + unat bytes < 2 ^ 64"
    using sound new unfolding sound_new_def by blast+
  have disjoint: "\<forall>b \<in> set (ar_blocks arena). range_of b \<inter> range_of (address, bytes) = {}"
    using sound new unfolding sound_new_def by blast
  show "ar_memory_usage arena' = sum_list (map (\<lambda>b. snd b + 8) (ar_blocks arena'))"
    using wf by (simp add: arena' wf_arena_def)
  show "\<forall>r \<in> set given. range_of r \<inter> range_of (address, bytes) = {}"
    using wf disjoint unfolding wf_arena_def by blast
  show "free_range arena \<inter> range_of (address, bytes) = {}"
    using wf disjoint unfolding wf_arena_def by blast
qed (use alloc in \<open>auto simp: AllocateBlock_def\<close>)

lemma AllocateFallback_wf:
  assumes sound: "sound_new new" and wf: "wf_arena arena given" and pos: "0 < bytes"
    and alloc: "AllocateFallback new arena bytes = Some (address, arena')"
  shows "wf_arena arena' ((address, bytes) # given)" "8 dvd unat address"
proof -
  have "wf_arena arena' ((address, bytes) # given) \<and> 8 dvd unat address"
  proof (cases "ShouldAllocateDedicated bytes")
    case True
    with alloc have block: "AllocateBlock new arena bytes = Some (address, arena')"
      by (simp add: AllocateFallback_def)
    note facts = AllocateBlock_sound [OF sound wf block]
    have free: "free_range arena' = free_range arena" by (simp add: free_range_def facts(6,7))
    show ?thesis
      using wf facts(2,8,9) unfolding wf_arena_def free facts(4-7) by auto
  next
    case False
    with alloc obtain base arena1 where block: "AllocateBlock new arena BlockSize = Some (base, arena1)"
      and cut: "AllocateFromCurrentBlock
          (arena1\<lparr>ar_allocation_pointer := base, ar_bytes_remaining := BlockSize\<rparr>) bytes 0 = (address, arena')"
      by (auto simp: AllocateFallback_def RefillCurrentBlock_def)
    note facts = AllocateBlock_sound [OF sound wf block]
    let ?arena = "arena1\<lparr>ar_allocation_pointer := base, ar_bytes_remaining := BlockSize\<rparr>"
    have "wf_arena ?arena given"
      using wf facts(1-5,8) unfolding wf_arena_def
      by (auto simp: free_range_def BlockSize_def)
    moreover have "unat (0 :: u64) + unat bytes \<le> unat (ar_bytes_remaining ?arena)"
      using False by (simp add: ShouldAllocateDedicated_def DedicatedAllocationThreshold_def BlockSize_def word_less_nat_alt)
    ultimately show ?thesis
      using AllocateFromCurrentBlock_wf [OF _ _ pos cut] facts(2) by simp
  qed
  then show "wf_arena arena' ((address, bytes) # given)" "8 dvd unat address" by blast+
qed


lemma Allocate_wf:
  assumes "sound_new new" "wf_arena arena given" "0 < bytes" "Allocate new arena bytes = Some (address, arena')"
  shows "wf_arena arena' ((address, bytes) # given)"
proof (cases "bytes \<le> ar_bytes_remaining arena")
  case True
  with assms(4) have "AllocateFromCurrentBlock arena bytes 0 = (address, arena')" by (simp add: Allocate_def)
  from AllocateFromCurrentBlock_wf(1) [OF assms(2) _ assms(3) this] True show ?thesis
    by (simp add: word_le_nat_alt)
next
  case False
  with assms show ?thesis by (auto simp: Allocate_def dest: AllocateFallback_wf(1))
qed

lemma AllocateAligned_wf:
  assumes "sound_new new" "wf_arena arena given" "0 < bytes"
    and alloc: "AllocateAligned new arena bytes = Some (address, arena')"
  shows "wf_arena arena' ((address, bytes) # given)" "8 dvd unat address"
proof -
  let ?padding = "AlignmentPadding (ar_allocation_pointer arena)"
  have "wf_arena arena' ((address, bytes) # given) \<and> 8 dvd unat address"
  proof (cases "CanAllocateFromCurrentBlock arena bytes ?padding")
    case True
    have "unat ?padding + unat bytes \<le> unat (ar_bytes_remaining arena)"
      using True padding_le_remaining [OF assms(2)]
      by (simp add: CanAllocateFromCurrentBlock_def word_le_nat_alt unat_sub)
    moreover from True alloc have "AllocateFromCurrentBlock arena bytes ?padding = (address, arena')"
      by (simp add: AllocateAligned_def)
    ultimately show ?thesis
      using AllocateFromCurrentBlock_wf [OF assms(2) _ assms(3)] padding_aligns by metis
  next
    case False
    with alloc have "AllocateFallback new arena bytes = Some (address, arena')" by (simp add: AllocateAligned_def Let_def)
    with AllocateFallback_wf assms(1-3) show ?thesis by blast
  qed
  then show "wf_arena arena' ((address, bytes) # given)" "8 dvd unat address" by blast+
qed

text \<open>A request fails only when the allocator refuses the one block it asks for.\<close>

definition requested_block :: "u64 \<Rightarrow> u64" where
  "requested_block bytes = (if ShouldAllocateDedicated bytes then bytes else BlockSize)"

lemma AllocateFallback_None:
  "AllocateFallback new arena bytes = None \<longleftrightarrow> new (ar_blocks arena) (requested_block bytes) = None"
  by (simp add: AllocateFallback_def RefillCurrentBlock_def AllocateBlock_def requested_block_def)

lemma Allocate_None:
  "Allocate new arena bytes = None \<Longrightarrow> new (ar_blocks arena) (requested_block bytes) = None"
  "AllocateAligned new arena bytes = None \<Longrightarrow> new (ar_blocks arena) (requested_block bytes) = None"
  by (simp_all add: Allocate_def AllocateAligned_def AllocateFallback_None Let_def split: if_splits)

definition served :: "bool \<times> u64 \<Rightarrow> u64 \<times> u64 \<Rightarrow> bool" where
  "served request r \<longleftrightarrow> snd r = snd request \<and> (fst request \<longrightarrow> 8 dvd unat (fst r))"

lemma serve_wf:
  assumes "sound_new new" "wf_arena arena given" "\<forall>request \<in> set requests. 0 < snd request"
    and "serve new arena requests given = Some (given', arena')"
  shows "wf_arena arena' given' \<and> (\<exists>fresh. given' = rev fresh @ given \<and> list_all2 served requests fresh)"
  using assms(2-)
proof (induction requests arbitrary: arena given)
  case (Cons request requests)
  obtain aligned bytes where request: "request = (aligned, bytes)" by (cases request)
  from Cons.prems(3) obtain address arena1
    where alloc: "(if aligned then AllocateAligned new arena bytes else Allocate new arena bytes) = Some (address, arena1)"
      and rest: "serve new arena1 requests ((address, bytes) # given) = Some (given', arena')"
    by (auto simp: request split: option.splits)
  have "wf_arena arena1 ((address, bytes) # given) \<and> served request (address, bytes)"
    using alloc assms(1) Cons.prems(1,2) Allocate_wf [of new arena given bytes]
      AllocateAligned_wf [of new arena given bytes]
    by (auto simp: request served_def split: if_splits)
  with Cons.IH [OF _ _ rest] Cons.prems(2) obtain fresh
    where "wf_arena arena' given'" "given' = rev fresh @ (address, bytes) # given"
      "list_all2 served requests fresh" "served request (address, bytes)"
    by auto
  then show ?case by (intro conjI exI [of _ "(address, bytes) # fresh"]) simp_all
qed simp

text \<open>C26: The arena hands out sound storage.  From an empty arena, any requests of positive size that are
  served get ranges of the requested sizes that lie inside blocks the arena owns and never overlap, and
  every aligned request gets an aligned address.  The accounting is the sum over the blocks.  The size
  arithmetic of the source, which subtracts the padding before comparing, never wraps on the way.\<close>

theorem arena_allocations_sound:
  assumes "sound_new new" "\<forall>request \<in> set requests. 0 < snd request"
    and "serve new Arena_New requests [] = Some (given, arena)"
  shows "list_all2 served requests (rev given) \<and>
    (\<forall>r \<in> set given. \<exists>b \<in> set (ar_blocks arena). range_of r \<subseteq> range_of b) \<and>
    sorted_wrt (\<lambda>r s. range_of r \<inter> range_of s = {}) given \<and>
    ar_memory_usage arena = sum_list (map (\<lambda>b. snd b + 8) (ar_blocks arena)) \<and>
    unat (AlignmentPadding (ar_allocation_pointer arena)) \<le> unat (ar_bytes_remaining arena)"
proof (intro conjI)
  have "wf_arena Arena_New []"
    by (simp add: wf_arena_def Arena_New_def free_range_def range_of_def)
  from serve_wf [OF assms(1) this assms(2,3)]
  have wf: "wf_arena arena given" and "list_all2 served requests (rev given)" by auto
  then show "list_all2 served requests (rev given)" by blast
  show "unat (AlignmentPadding (ar_allocation_pointer arena)) \<le> unat (ar_bytes_remaining arena)"
    by (rule padding_le_remaining [OF wf])
  show "\<forall>r \<in> set given. \<exists>b \<in> set (ar_blocks arena). range_of r \<subseteq> range_of b"
    "sorted_wrt (\<lambda>r s. range_of r \<inter> range_of s = {}) given"
    "ar_memory_usage arena = sum_list (map (\<lambda>b. snd b + 8) (ar_blocks arena))"
    using wf unfolding wf_arena_def by blast+
qed

definition demo_new :: new_array where
  "demo_new blocks bytes =
     (if bytes \<le> 4096 then
        (if blocks = [] then Some 4096 else if blocks = [(4096, 4096)] then Some 8192 else None)
      else None)"

lemma sound_demo_new: "sound_new demo_new"
  unfolding sound_new_def
proof (intro allI impI)
  fix blocks bytes base
  assume "demo_new blocks bytes = Some base"
  then have "unat bytes \<le> 4096" and "blocks = [] \<and> base = 4096 \<or> blocks = [(4096, 4096)] \<and> base = 8192"
    by (auto simp: demo_new_def word_le_nat_alt split: if_splits)
  then show "base \<noteq> 0 \<and> 8 dvd unat base \<and> unat base + unat bytes < 2 ^ 64 \<and>
      (\<forall>b \<in> set blocks. range_of b \<inter> range_of (base, bytes) = {})"
    by (auto simp: range_of_def)
qed

theorem arena_allocations_sound_witness:
  "\<exists>given arena. serve demo_new Arena_New [(False, 3), (True, 16), (True, 4096)] [] = Some (given, arena) \<and>
     given = [(8192, 4096), (4104, 16), (4096, 3)] \<and>
     sorted_wrt (\<lambda>r s. range_of r \<inter> range_of s = {}) given"
proof -
  let ?requests = "[(False, 3), (True, 16), (True, 4096)] :: (bool \<times> u64) list"
  let ?given = "[(8192, 4096), (4104, 16), (4096, 3)] :: (u64 \<times> u64) list"
  have "map_option fst (serve demo_new Arena_New ?requests []) = Some ?given"
    by (simp add: Arena_New_def Allocate_def AllocateAligned_def AllocateFallback_def AllocateBlock_def
        RefillCurrentBlock_def AllocateFromCurrentBlock_def CanAllocateFromCurrentBlock_def
        ShouldAllocateDedicated_def DedicatedAllocationThreshold_def BlockSize_def AlignmentPadding_def
        Alignment_def demo_new_def Let_def)
  then obtain arena where run: "serve demo_new Arena_New ?requests [] = Some (?given, arena)" by auto
  from arena_allocations_sound [OF sound_demo_new _ run] have
    "sorted_wrt (\<lambda>r s. range_of r \<inter> range_of s = {}) ?given"
    by simp
  with run show ?thesis by blast
qed

end
