(* ===== verification/Skip_List.thy ===== *)
theory Skip_List
  imports Prelude "HOL-Library.Monad_Syntax"
begin

text \<open>
  The ordered index under the memtable (\<^verbatim>\<open>src/memory/skiplist.h\<close>), at the level of its nodes and links.  A node
  address is an index into the list of allocated nodes, and address 0 is the head.  \<open>None\<close> as the result of an
  operation is undefined behaviour, such as a link above a node's height or a null dereference, or a loop
  that does not return.  One iteration of a search reads one link, so a search may be interleaved with the
  stores of a concurrent writer (theory \<open>Skip_List_Readers\<close>).
\<close>

section \<open>Nodes and links\<close>

record 'e Node =
  sn_entry :: 'e
  sn_links :: "nat option list"

record 'e SkipList =
  sl_nodes :: "'e Node list"
  sl_max_height :: nat
  sl_random_seed :: u32

definition MaxHeight :: nat where
  "MaxHeight = 12"

definition LinkAt :: "'e SkipList \<Rightarrow> nat \<Rightarrow> nat \<Rightarrow> nat option option" where
  "LinkAt list node level =
     (if node < length (sl_nodes list) \<and> level < length (sn_links (sl_nodes list ! node))
      then Some (sn_links (sl_nodes list ! node) ! level) else None)"

definition SetNext :: "'e SkipList \<Rightarrow> nat \<Rightarrow> nat \<Rightarrow> nat option \<Rightarrow> 'e SkipList option" where
  "SetNext list node level target =
     (if node < length (sl_nodes list) \<and> level < length (sn_links (sl_nodes list ! node))
      then Some (list\<lparr>sl_nodes := (sl_nodes list)[node := (sl_nodes list ! node)
             \<lparr>sn_links := (sn_links (sl_nodes list ! node))[level := target]\<rparr>]\<rparr>)
      else None)"

definition entry_at :: "'e SkipList \<Rightarrow> nat \<Rightarrow> 'e" where
  "entry_at list node = sn_entry (sl_nodes list ! node)"

text \<open>\<open>replicate height None\<close> is the effect of \<^verbatim>\<open>InitializeLinks\<close>.\<close>

definition NewNode :: "'e SkipList \<Rightarrow> 'e \<Rightarrow> nat \<Rightarrow> nat \<times> 'e SkipList" where
  "NewNode list entry height =
     (length (sl_nodes list),
      list\<lparr>sl_nodes := sl_nodes list @ [\<lparr>sn_entry = entry, sn_links = replicate height None\<rparr>]\<rparr>)"

definition SkipList_New :: "'e \<Rightarrow> 'e SkipList" where
  "SkipList_New empty_entry =
     snd (NewNode \<lparr>sl_nodes = [], sl_max_height = 1, sl_random_seed = 0xdeadbeef AND 0x7fffffff\<rparr>
            empty_entry MaxHeight)"

section \<open>Random heights\<close>

definition Branching :: u32 where
  "Branching = 4"

definition RandomModulus :: u32 where
  "RandomModulus = 2147483647"

definition RandomMultiplier :: u64 where
  "RandomMultiplier = 16807"

definition NextRandom :: "u32 \<Rightarrow> u32" where
  "NextRandom random_seed =
     (let product = (ucast random_seed :: u64) * RandomMultiplier;
          seed = (ucast (drop_bit 31 product + (product AND ucast RandomModulus)) :: u32)
      in if seed > RandomModulus then seed - RandomModulus else seed)"

function RandomHeightLoop :: "u32 \<Rightarrow> nat \<Rightarrow> nat \<times> u32" where
  "RandomHeightLoop random_seed height =
     (if height < MaxHeight then
        let seed = NextRandom random_seed
        in if seed mod Branching = 0 then RandomHeightLoop seed (Suc height) else (height, seed)
      else (height, random_seed))"
  by pat_completeness auto
termination
  by (relation "measure (\<lambda>(_, height). MaxHeight - height)") auto

declare RandomHeightLoop.simps [simp del]

definition RandomHeight :: "'e SkipList \<Rightarrow> nat \<times> 'e SkipList" where
  "RandomHeight list =
     (let (height, seed) = RandomHeightLoop (sl_random_seed list) 1
      in (height, list\<lparr>sl_random_seed := seed\<rparr>))"

section \<open>Searches\<close>

text \<open>The local state of a search: the node, the last link found not to be less, and the level.\<close>

record Search =
  se_node :: nat
  se_last_not_less :: "nat option"
  se_level :: nat

text \<open>One iteration of the loop of \<^verbatim>\<open>FindGreaterOrEqual\<close>.  A predecessor slot is written only after the link of
  the same level was read, so the level is in range.\<close>

definition advances :: "('e \<Rightarrow> 't \<Rightarrow> int) \<Rightarrow> 'e SkipList \<Rightarrow> 't \<Rightarrow> nat option \<Rightarrow> nat option \<Rightarrow> bool" where
  "advances compare list target last_not_less next \<longleftrightarrow>
     (case next of None \<Rightarrow> False
      | Some n \<Rightarrow> next \<noteq> last_not_less \<and> compare (entry_at list n) target < 0)"

definition SearchStep ::
    "('e \<Rightarrow> 't \<Rightarrow> int) \<Rightarrow> 'e SkipList \<Rightarrow> 't \<Rightarrow> Search \<times> nat option list option \<Rightarrow>
      (nat option \<times> nat option list option + Search \<times> nat option list option) option" where
  "SearchStep compare list target = (\<lambda>(search, predecessors). do {
     next \<leftarrow> LinkAt list (se_node search) (se_level search);
     Some (if advances compare list target (se_last_not_less search) next
       then Inr (search\<lparr>se_node := the next\<rparr>, predecessors)
       else let predecessors' = map_option (\<lambda>p. p[se_level search := Some (se_node search)]) predecessors
            in if se_level search = 0 then Inl (next, predecessors')
               else Inr (search\<lparr>se_last_not_less := next, se_level := se_level search - 1\<rparr>, predecessors'))
   })"

partial_function (option) SearchLoop ::
    "('e \<Rightarrow> 't \<Rightarrow> int) \<Rightarrow> 'e SkipList \<Rightarrow> 't \<Rightarrow> Search \<times> nat option list option \<Rightarrow>
      (nat option \<times> nat option list option) option" where
  "SearchLoop compare list target state = do {
     step \<leftarrow> SearchStep compare list target state;
     (case step of Inl found \<Rightarrow> Some found | Inr state' \<Rightarrow> SearchLoop compare list target state')
   }"

definition FindGreaterOrEqual ::
    "('e \<Rightarrow> 't \<Rightarrow> int) \<Rightarrow> 'e SkipList \<Rightarrow> 't \<Rightarrow> nat option list option \<Rightarrow>
      (nat option \<times> nat option list option) option" where
  "FindGreaterOrEqual compare list target predecessors =
     SearchLoop compare list target
       (\<lparr>se_node = 0, se_last_not_less = None, se_level = sl_max_height list - 1\<rparr>, predecessors)"

definition ReachedUpperBound :: "('e \<Rightarrow> 'e \<Rightarrow> int) \<Rightarrow> 'e SkipList \<Rightarrow> nat option \<Rightarrow> 'e option \<Rightarrow> bool" where
  "ReachedUpperBound compare list next upper_bound \<longleftrightarrow>
     (case next of None \<Rightarrow> True
      | Some n \<Rightarrow> (case upper_bound of None \<Rightarrow> False | Some bound \<Rightarrow> compare (entry_at list n) bound \<ge> 0))"

partial_function (option) FindLastBeforeLoop ::
    "('e \<Rightarrow> 'e \<Rightarrow> int) \<Rightarrow> 'e SkipList \<Rightarrow> 'e option \<Rightarrow> nat \<Rightarrow> nat \<Rightarrow> nat option" where
  "FindLastBeforeLoop compare list upper_bound node level = do {
     next \<leftarrow> LinkAt list node level;
     (if ReachedUpperBound compare list next upper_bound
      then if level = 0 then Some node else FindLastBeforeLoop compare list upper_bound node (level - 1)
      else FindLastBeforeLoop compare list upper_bound (the next) level)
   }"

declare SearchLoop.simps [code] FindLastBeforeLoop.simps [code]

definition FindLastBefore :: "('e \<Rightarrow> 'e \<Rightarrow> int) \<Rightarrow> 'e SkipList \<Rightarrow> 'e option \<Rightarrow> nat option" where
  "FindLastBefore compare list upper_bound =
     FindLastBeforeLoop compare list upper_bound 0 (sl_max_height list - 1)"

definition FindLessThan :: "('e \<Rightarrow> 'e \<Rightarrow> int) \<Rightarrow> 'e SkipList \<Rightarrow> 'e \<Rightarrow> nat option" where
  "FindLessThan compare list entry = FindLastBefore compare list (Some entry)"

definition FindLast :: "('e \<Rightarrow> 'e \<Rightarrow> int) \<Rightarrow> 'e SkipList \<Rightarrow> nat option" where
  "FindLast compare list = FindLastBefore compare list None"

definition SkipList_Equal :: "('e \<Rightarrow> 'e \<Rightarrow> int) \<Rightarrow> 'e \<Rightarrow> 'e \<Rightarrow> bool" where
  "SkipList_Equal compare left right \<longleftrightarrow> compare left right = 0"

definition SkipList_Contains :: "('e \<Rightarrow> 'e \<Rightarrow> int) \<Rightarrow> 'e SkipList \<Rightarrow> 'e \<Rightarrow> bool option" where
  "SkipList_Contains compare list entry = do {
     (node, _) \<leftarrow> FindGreaterOrEqual compare list entry None;
     Some (case node of None \<Rightarrow> False | Some n \<Rightarrow> SkipList_Equal compare (entry_at list n) entry)
   }"

section \<open>Insertion\<close>

definition PreparePredecessorsForHeight :: "nat option list \<Rightarrow> nat \<Rightarrow> nat \<Rightarrow> nat option list" where
  "PreparePredecessorsForHeight predecessors current_height height =
     fold (\<lambda>level p. p[level := Some 0]) [current_height..<height] predecessors"

definition PublishHeightIfNeeded :: "'e SkipList \<Rightarrow> nat \<Rightarrow> nat \<Rightarrow> 'e SkipList" where
  "PublishHeightIfNeeded list height current_height =
     (if height > current_height then list\<lparr>sl_max_height := height\<rparr> else list)"

definition LinkNodeAtLevel :: "'e SkipList \<Rightarrow> nat \<Rightarrow> nat \<Rightarrow> nat \<Rightarrow> 'e SkipList option" where
  "LinkNodeAtLevel list node predecessor level = do {
     next \<leftarrow> LinkAt list predecessor level;
     list1 \<leftarrow> SetNext list node level next;
     SetNext list1 predecessor level (Some node)
   }"

fun LinkLevels :: "'e SkipList \<Rightarrow> nat \<Rightarrow> nat option list \<Rightarrow> nat list \<Rightarrow> 'e SkipList option" where
  "LinkLevels list node predecessors [] = Some list"
| "LinkLevels list node predecessors (level # levels) = do {
     predecessor \<leftarrow> predecessors ! level;
     list1 \<leftarrow> LinkNodeAtLevel list node predecessor level;
     LinkLevels list1 node predecessors levels
   }"

definition InsertAfterSearch :: "'e SkipList \<Rightarrow> 'e \<Rightarrow> nat option list \<Rightarrow> 'e SkipList option" where
  "InsertAfterSearch list entry predecessors =
     (let (height, list1) = RandomHeight list;
          current_height = sl_max_height list1;
          predecessors' = PreparePredecessorsForHeight predecessors current_height height;
          (node, list2) = NewNode list1 entry height;
          list3 = PublishHeightIfNeeded list2 height current_height
      in LinkLevels list3 node predecessors' [0..<height])"

definition SkipList_Insert :: "('e \<Rightarrow> 'e \<Rightarrow> int) \<Rightarrow> 'e SkipList \<Rightarrow> 'e \<Rightarrow> 'e SkipList option" where
  "SkipList_Insert compare list entry = do {
     (_, predecessors) \<leftarrow> FindGreaterOrEqual compare list entry (Some (replicate MaxHeight None));
     predecessors' \<leftarrow> predecessors;
     InsertAfterSearch list entry predecessors'
   }"

section \<open>Iterators\<close>

text \<open>An iterator is its node; the list it borrows is an argument.\<close>

type_synonym SkipIterator = "nat option"

definition SkipIterator_valid :: "SkipIterator \<Rightarrow> bool" where
  "SkipIterator_valid node \<longleftrightarrow> node \<noteq> None"

definition SkipIterator_entry :: "'e SkipList \<Rightarrow> SkipIterator \<Rightarrow> 'e option" where
  "SkipIterator_entry list node = map_option (entry_at list) node"

definition SkipIterator_Next :: "'e SkipList \<Rightarrow> SkipIterator \<Rightarrow> SkipIterator option" where
  "SkipIterator_Next list node = do { n \<leftarrow> node; LinkAt list n 0 }"

definition SetPosition :: "nat \<Rightarrow> SkipIterator" where
  "SetPosition node = (if node = 0 then None else Some node)"

definition SkipIterator_Prev :: "('e \<Rightarrow> 'e \<Rightarrow> int) \<Rightarrow> 'e SkipList \<Rightarrow> SkipIterator \<Rightarrow> SkipIterator option" where
  "SkipIterator_Prev compare list node = do {
     n \<leftarrow> node;
     before \<leftarrow> FindLessThan compare list (entry_at list n);
     Some (SetPosition before)
   }"

definition SkipIterator_Seek :: "('e \<Rightarrow> 't \<Rightarrow> int) \<Rightarrow> 'e SkipList \<Rightarrow> 't \<Rightarrow> SkipIterator option" where
  "SkipIterator_Seek compare list target = map_option fst (FindGreaterOrEqual compare list target None)"

definition SkipIterator_SeekToFirst :: "'e SkipList \<Rightarrow> SkipIterator option" where
  "SkipIterator_SeekToFirst list = LinkAt list 0 0"

definition SkipIterator_SeekToLast :: "('e \<Rightarrow> 'e \<Rightarrow> int) \<Rightarrow> 'e SkipList \<Rightarrow> SkipIterator option" where
  "SkipIterator_SeekToLast compare list = map_option SetPosition (FindLast compare list)"


section \<open>Structure\<close>

lemma subseq_set: "subseq xs ys \<Longrightarrow> set xs \<subseteq> set ys"
  by (auto dest: list_emb_set)

lemma subseq_distinct: "subseq xs ys \<Longrightarrow> distinct ys \<Longrightarrow> distinct xs"
  by (induction rule: list_emb.induct) (auto dest: subseq_set)

lemma subseq_sorted_wrt: "subseq xs ys \<Longrightarrow> sorted_wrt P ys \<Longrightarrow> sorted_wrt P xs"
  by (induction rule: list_emb.induct) (auto dest: subseq_set)

lemma LinkAt_SetNext:
  assumes "SetNext list node level target = Some list'"
  shows "LinkAt list' m l = (if m = node \<and> l = level then Some target else LinkAt list m l)"
  using assms by (auto simp: SetNext_def LinkAt_def nth_list_update split: if_splits)

lemma SetNext_total: "LinkAt list node level \<noteq> None \<Longrightarrow> \<exists>list'. SetNext list node level target = Some list'"
  by (auto simp: LinkAt_def SetNext_def split: if_splits)

lemma SetNext_frame:
  assumes "SetNext list node level target = Some list'"
  shows "sl_max_height list' = sl_max_height list" "entry_at list' = entry_at list"
    "length (sl_nodes list') = length (sl_nodes list)" "sl_random_seed list' = sl_random_seed list"
  using assms by (auto simp: SetNext_def entry_at_def nth_list_update split: if_splits)

text \<open>\<open>linked list level p ns\<close>: following the links of the level from \<open>p\<close> visits \<open>ns\<close> and ends.\<close>

fun linked :: "'e SkipList \<Rightarrow> nat \<Rightarrow> nat \<Rightarrow> nat list \<Rightarrow> bool" where
  "linked list level p [] \<longleftrightarrow> LinkAt list p level = Some None"
| "linked list level p (n # ns) \<longleftrightarrow> LinkAt list p level = Some (Some n) \<and> linked list level n ns"

lemma linked_append:
  "linked list level p (xs @ ys) \<Longrightarrow> linked list level (last (p # xs)) ys"
  by (induction xs arbitrary: p) auto

lemma linked_cong:
  assumes "\<And>n. n \<in> set (p # ns) \<Longrightarrow> LinkAt list' n level = LinkAt list n level"
  shows "linked list' level p ns = linked list level p ns"
  using assms by (induction ns arbitrary: p) auto

lemma linked_link: "linked list level p ns \<Longrightarrow> n \<in> set (p # ns) \<Longrightarrow> LinkAt list n level \<noteq> None"
  by (induction ns arbitrary: p) auto

lemma linked_first: "linked list level p ns \<Longrightarrow> LinkAt list p level = Some (case ns of [] \<Rightarrow> None | n # _ \<Rightarrow> Some n)"
  by (cases ns) auto

text \<open>The invariant: \<open>rows l\<close> are the nodes of level \<open>l\<close>.  Every level is a subsequence of the one below.  Levels
  from the published height on are empty.\<close>

definition wf_list :: "'e SkipList \<Rightarrow> (nat \<Rightarrow> nat list) \<Rightarrow> bool" where
  "wf_list list rows \<longleftrightarrow>
     1 \<le> sl_max_height list \<and> sl_max_height list \<le> MaxHeight \<and>
     (\<forall>l < MaxHeight. linked list l 0 (rows l)) \<and>
     (\<forall>l. subseq (rows (Suc l)) (rows l)) \<and>
     (\<forall>l \<ge> sl_max_height list. rows l = []) \<and>
     distinct (0 # rows 0) \<and> set (rows 0) \<subseteq> {0..<length (sl_nodes list)}"

lemma wf_list_subseq:
  assumes "wf_list list rows" "k \<le> l"
  shows "subseq (rows l) (rows k)"
  using assms(2)
proof (induction l rule: dec_induct)
  case (step n)
  have "subseq (rows (Suc n)) (rows n)" using assms(1) unfolding wf_list_def by blast
  with step.IH show ?case using subseq_order.order_trans by blast
qed simp

lemma wf_list_distinct: "wf_list list rows \<Longrightarrow> distinct (0 # rows l)"
  using wf_list_subseq [of list rows 0 l] subseq_distinct [of "rows l" "rows 0"]
    subseq_set [of "rows l" "rows 0"]
  by (auto simp: wf_list_def)

lemma wf_list_linked: "wf_list list rows \<Longrightarrow> l < MaxHeight \<Longrightarrow> linked list l 0 (rows l)"
  by (simp add: wf_list_def)


section \<open>Searches find the cut\<close>

definition list_first :: "'a list \<Rightarrow> 'a option" where
  "list_first xs = (case xs of [] \<Rightarrow> None | x # _ \<Rightarrow> Some x)"

lemma list_first_simps [simp]: "list_first [] = None" "list_first (x # xs) = Some x"
  by (simp_all add: list_first_def)

lemma list_first_map: "list_first (map f xs) = map_option f (list_first xs)"
  by (cases xs) simp_all

text \<open>A predicate that holds of a beginning of the bottom row, as being less than a target does.\<close>

definition cuts :: "(nat \<Rightarrow> bool) \<Rightarrow> (nat \<Rightarrow> nat list) \<Rightarrow> bool" where
  "cuts lt rows \<longleftrightarrow> sorted_wrt (\<lambda>a b. lt b \<longrightarrow> lt a) (rows 0)"

lemma row_cut:
  assumes wf: "wf_list list rows" and cut: "cuts lt rows" and l: "l < MaxHeight"
    and node: "node = 0 \<or> node \<in> set (rows l) \<and> lt node"
  obtains pre post where "rows l = pre @ post" "node = last (0 # pre)" "\<forall>n \<in> set pre. lt n"
    "LinkAt list node l = Some (list_first post)"
proof -
  have "\<exists>pre post. rows l = pre @ post \<and> node = last (0 # pre) \<and> (\<forall>n \<in> set pre. lt n)"
    using node
  proof
    assume "node = 0"
    then show ?thesis by (intro exI [of _ "[]"] exI [of _ "rows l"]) simp
  next
    assume "node \<in> set (rows l) \<and> lt node"
    moreover then obtain xs ys where row: "rows l = xs @ node # ys" using split_list by metis
    moreover have "sorted_wrt (\<lambda>a b. lt b \<longrightarrow> lt a) (rows l)"
      using subseq_sorted_wrt [OF wf_list_subseq [OF wf, of 0 l]] cut by (simp add: cuts_def)
    ultimately show ?thesis
      by (intro exI [of _ "xs @ [node]"] exI [of _ ys]) (auto simp: sorted_wrt_append)
  qed
  then obtain pre post where row: "rows l = pre @ post" "node = last (0 # pre)" "\<forall>n \<in> set pre. lt n" by blast
  have "linked list l node post"
    using linked_append [of list l 0 pre post] wf_list_linked [OF wf l] row by simp
  then have "LinkAt list node l = Some (list_first post)" by (simp add: linked_first list_first_def)
  with row show ?thesis by (rule that)
qed

lemma cut_at:
  assumes "row = pre @ post" "\<forall>n \<in> set pre. lt n" "\<And>n. list_first post = Some n \<Longrightarrow> \<not> lt n"
  shows "takeWhile lt row = pre" "dropWhile lt row = post"
  using assms by (cases post; simp add: takeWhile_append2 dropWhile_append2)+

definition cut_node :: "(nat \<Rightarrow> bool) \<Rightarrow> (nat \<Rightarrow> nat list) \<Rightarrow> nat \<Rightarrow> nat" where
  "cut_node lt rows l = last (0 # takeWhile lt (rows l))"

text \<open>What a search knows of the list.  It stays true when nodes are added.\<close>

definition search_ok :: "(nat \<Rightarrow> bool) \<Rightarrow> (nat \<Rightarrow> nat list) \<Rightarrow> Search \<Rightarrow> bool" where
  "search_ok lt rows search \<longleftrightarrow>
     se_level search < MaxHeight \<and>
     (se_node search = 0 \<or> se_node search \<in> set (rows (se_level search)) \<and> lt (se_node search)) \<and>
     (\<forall>m. se_last_not_less search = Some m \<longrightarrow> m \<in> set (rows 0) \<and> \<not> lt m)"

abbreviation below :: "('e \<Rightarrow> 't \<Rightarrow> int) \<Rightarrow> 'e SkipList \<Rightarrow> 't \<Rightarrow> nat \<Rightarrow> bool" where
  "below compare list target n \<equiv> compare (entry_at list n) target < 0"

text \<open>How much of a row lies from a node on; it decreases along the row.\<close>

definition after_node :: "nat list \<Rightarrow> nat \<Rightarrow> nat" where
  "after_node row node = length (dropWhile (\<lambda>n. n \<noteq> node) (0 # row))"

lemma after_node_split:
  assumes "0 # row = xs @ node # ys" "node \<notin> set xs"
  shows "after_node row node = Suc (length ys)"
proof -
  have "dropWhile (\<lambda>n. n \<noteq> node) (xs @ node # ys) = node # ys"
    using assms(2) by (subst dropWhile_append2) auto
  then show ?thesis by (simp add: after_node_def assms(1))
qed

lemma after_node_forward:
  assumes "distinct (0 # row)" "row = pre @ n # ys"
  shows "after_node row n < after_node row (last (0 # pre))"
proof -
  have "after_node row n = Suc (length ys)"
    using assms by (intro after_node_split [of _ "0 # pre"]) auto
  moreover have "after_node row (last (0 # pre)) = Suc (Suc (length ys))"
  proof (cases pre rule: rev_cases)
    case Nil
    then show ?thesis using assms after_node_split [of row "[]" 0 "n # ys"] by simp
  next
    case (snoc zs z)
    then show ?thesis using assms after_node_split [of row "0 # zs" z "n # ys"] by simp
  qed
  ultimately show ?thesis by simp
qed

lemma SearchStep_cases:
  assumes wf: "wf_list list rows" and cut: "cuts lt rows" and ok: "search_ok lt rows search"
    and lt: "lt = below compare list target"
  obtains (found) "se_level search = 0"
      "SearchStep compare list target (search, predecessors) =
         Some (Inl (list_first (dropWhile lt (rows 0)), map_option (\<lambda>p. p[0 := Some (cut_node lt rows 0)]) predecessors))"
    | (down) l search' where "se_level search = Suc l" "se_level search' = l" "search_ok lt rows search'"
      "SearchStep compare list target (search, predecessors) =
         Some (Inr (search', map_option (\<lambda>p. p[Suc l := Some (cut_node lt rows (Suc l))]) predecessors))"
    | (forward) search' where "se_level search' = se_level search" "search_ok lt rows search'"
      "after_node (rows (se_level search)) (se_node search') < after_node (rows (se_level search)) (se_node search)"
      "SearchStep compare list target (search, predecessors) = Some (Inr (search', predecessors))"
proof -
  let ?l = "se_level search" and ?node = "se_node search"
  have l: "?l < MaxHeight" and node: "?node = 0 \<or> ?node \<in> set (rows ?l) \<and> lt ?node"
    using ok by (auto simp: search_ok_def)
  obtain pre post where row: "rows ?l = pre @ post" "?node = last (0 # pre)" "\<forall>n \<in> set pre. lt n"
    and link: "LinkAt list ?node ?l = Some (list_first post)"
    using row_cut [OF wf cut l node] .
  show ?thesis
  proof (cases "advances compare list target (se_last_not_less search) (list_first post)")
    case True
    then obtain n ys where post: "post = n # ys" "lt n" by (cases post) (auto simp: advances_def lt)
    let ?search = "search\<lparr>se_node := n\<rparr>"
    have "after_node (rows ?l) n < after_node (rows ?l) ?node"
      unfolding row(2) by (rule after_node_forward [OF wf_list_distinct [OF wf]]) (simp add: row(1) post)
    then show ?thesis
      using True link ok row post by (intro forward [of ?search]) (auto simp: SearchStep_def search_ok_def)
  next
    case False
    then have "\<not> lt n" if "list_first post = Some n" for n
      using that ok by (auto simp: advances_def search_ok_def lt)
    note cut_row = cut_at [OF row(1,3) this]
    have cut_node: "cut_node lt rows ?l = ?node" using cut_row row by (simp add: cut_node_def)
    show ?thesis
    proof (cases ?l)
      case 0
      then show ?thesis
        using False link cut_row cut_node by (intro found) (simp_all add: SearchStep_def)
    next
      case (Suc k)
      let ?search = "search\<lparr>se_last_not_less := list_first post, se_level := k\<rparr>"
      have "set (rows ?l) \<subseteq> set (rows k)" using Suc by (intro subseq_set wf_list_subseq [OF wf]) simp
      moreover have "m \<in> set (rows 0)" if "list_first post = Some m" for m
        using that row(1) subseq_set [OF wf_list_subseq [OF wf, of 0 ?l]] by (cases post) auto
      ultimately have "search_ok lt rows ?search"
        using ok Suc \<open>\<And>n. list_first post = Some n \<Longrightarrow> \<not> lt n\<close> by (auto simp: search_ok_def)
      then show ?thesis
        using False link cut_node Suc by (intro down [of k ?search]) (simp_all add: SearchStep_def)
    qed
  qed
qed


primrec note_cut :: "(nat \<Rightarrow> bool) \<Rightarrow> (nat \<Rightarrow> nat list) \<Rightarrow> nat \<Rightarrow> nat option list \<Rightarrow> nat option list" where
  "note_cut lt rows 0 p = p[0 := Some (cut_node lt rows 0)]"
| "note_cut lt rows (Suc l) p = note_cut lt rows l (p[Suc l := Some (cut_node lt rows (Suc l))])"

lemma length_note_cut [simp]: "length (note_cut lt rows l p) = length p"
  by (induction l arbitrary: p) auto

lemma nth_note_cut:
  "k < length p \<Longrightarrow> note_cut lt rows l p ! k = (if k \<le> l then Some (cut_node lt rows k) else p ! k)"
  by (induction l arbitrary: p) (auto simp: nth_list_update le_Suc_eq)

lemma SearchLoop_correct:
  assumes wf: "wf_list list rows" and cut: "cuts lt rows" and lt: "lt = below compare list target"
    and ok: "search_ok lt rows search"
  shows "SearchLoop compare list target (search, predecessors) =
     Some (list_first (dropWhile lt (rows 0)), map_option (note_cut lt rows (se_level search)) predecessors)"
  using ok
proof (induction "(se_level search, after_node (rows (se_level search)) (se_node search))" arbitrary: search predecessors
    rule: wf_induct_rule [OF wf_lex_prod [OF wf_less_than wf_less_than]])
  case less: (1 search)
  from wf cut less.prems lt show ?case
  proof (cases rule: SearchStep_cases [where predecessors = predecessors])
    case found
    then show ?thesis by (subst SearchLoop.simps) (cases predecessors; simp)
  next
    case (down l search')
    then show ?thesis
      using less.hyps [of search'] by (subst SearchLoop.simps) (cases predecessors; simp)
  next
    case (forward search')
    then show ?thesis using less.hyps [of search'] by (subst SearchLoop.simps) simp
  qed
qed

lemma FindGreaterOrEqual_correct:
  assumes "wf_list list rows" "cuts lt rows" "lt = below compare list target"
  shows "FindGreaterOrEqual compare list target predecessors =
     Some (list_first (dropWhile lt (rows 0)), map_option (note_cut lt rows (sl_max_height list - 1)) predecessors)"
  using assms unfolding FindGreaterOrEqual_def
  by (subst SearchLoop_correct) (auto simp: search_ok_def wf_list_def)

lemma FindLastBeforeLoop_correct:
  assumes wf: "wf_list list rows" and cut: "cuts lt rows"
    and lt: "lt = (\<lambda>n. case upper_bound of None \<Rightarrow> True | Some bound \<Rightarrow> below compare list bound n)"
    and l: "level < MaxHeight" and node: "node = 0 \<or> node \<in> set (rows level) \<and> lt node"
  shows "FindLastBeforeLoop compare list upper_bound node level = Some (cut_node lt rows 0)"
  using l node
proof (induction "(level, after_node (rows level) node)" arbitrary: node level
    rule: wf_induct_rule [OF wf_lex_prod [OF wf_less_than wf_less_than]])
  case less: (1 node level)
  obtain pre post where row: "rows level = pre @ post" "node = last (0 # pre)" "\<forall>n \<in> set pre. lt n"
    and link: "LinkAt list node level = Some (list_first post)"
    using row_cut [OF wf cut less.prems] .
  have reached: "ReachedUpperBound compare list (list_first post) upper_bound \<longleftrightarrow>
      (\<forall>n. list_first post = Some n \<longrightarrow> \<not> lt n)"
    by (auto simp: ReachedUpperBound_def lt not_less split: option.splits)
  have down: "set (rows (Suc k)) \<subseteq> set (rows k)" for k by (intro subseq_set wf_list_subseq [OF wf]) simp
  show ?case
  proof (cases "\<forall>n. list_first post = Some n \<longrightarrow> \<not> lt n")
    case True
    show ?thesis
    proof (cases level)
      case 0
      have "cut_node lt rows 0 = node"
        using cut_at(1) [OF row(1,3)] True row 0 by (simp add: cut_node_def)
      then show ?thesis using True 0 link reached by (subst FindLastBeforeLoop.simps) simp
    next
      case (Suc k)
      then have "FindLastBeforeLoop compare list upper_bound node k = Some (cut_node lt rows 0)"
        using less.prems down [of k] by (intro less.hyps) auto
      then show ?thesis using True Suc link reached by (subst FindLastBeforeLoop.simps) simp
    qed
  next
    case False
    then obtain n ys where post: "post = n # ys" "lt n" by (cases post) auto
    have "after_node (rows level) n < after_node (rows level) node"
      unfolding row(2) by (rule after_node_forward [OF wf_list_distinct [OF wf]]) (simp add: row(1) post)
    then have "FindLastBeforeLoop compare list upper_bound n level = Some (cut_node lt rows 0)"
      using less.prems row post by (intro less.hyps) auto
    then show ?thesis using False link reached post by (subst FindLastBeforeLoop.simps) simp
  qed
qed

lemma FindLastBefore_correct:
  assumes "wf_list list rows" "cuts lt rows"
    and "lt = (\<lambda>n. case upper_bound of None \<Rightarrow> True | Some bound \<Rightarrow> below compare list bound n)"
  shows "FindLastBefore compare list upper_bound = Some (cut_node lt rows 0)"
  using assms unfolding FindLastBefore_def
  by (intro FindLastBeforeLoop_correct) (auto simp: wf_list_def)


section \<open>Insertion\<close>

lemma linked_insert:
  assumes "linked list l p (xs @ ys)" "distinct (p # xs @ ys)" "node \<notin> set (p # xs @ ys)"
    and "LinkAt list' (last (p # xs)) l = Some (Some node)" "LinkAt list' node l = LinkAt list (last (p # xs)) l"
    and "\<And>n. n \<noteq> node \<Longrightarrow> n \<noteq> last (p # xs) \<Longrightarrow> LinkAt list' n l = LinkAt list n l"
  shows "linked list' l p (xs @ node # ys)"
  using assms
proof (induction xs arbitrary: p)
  case Nil
  have "linked list' l node ys"
  proof (cases ys)
    case (Cons y zs)
    then have "linked list' l y zs = linked list l y zs" using Nil.prems by (intro linked_cong Nil.prems(6)) auto
    with Cons Nil.prems show ?thesis by simp
  qed (use Nil.prems in simp)
  with Nil.prems show ?case by simp
next
  case (Cons x xs)
  have "last (x # xs) \<noteq> p" using Cons.prems(2) last_in_set [of "x # xs"] by auto
  with Cons.prems have "LinkAt list' p l = Some (Some x)" by (cases "node = p") auto
  moreover have "linked list' l x (xs @ node # ys)" using Cons.prems by (intro Cons.IH) auto
  ultimately show ?case by simp
qed

definition same_shape :: "'e SkipList \<Rightarrow> 'e SkipList \<Rightarrow> bool" where
  "same_shape list list' \<longleftrightarrow>
     sl_max_height list' = sl_max_height list \<and> entry_at list' = entry_at list \<and>
     length (sl_nodes list') = length (sl_nodes list) \<and> sl_random_seed list' = sl_random_seed list \<and>
     (\<forall>m k. LinkAt list' m k = None \<longleftrightarrow> LinkAt list m k = None)"

lemma SetNext_same_shape: "SetNext list node level target = Some list' \<Longrightarrow> same_shape list list'"
  unfolding same_shape_def
  by (auto simp: LinkAt_SetNext SetNext_frame) (auto simp: SetNext_def LinkAt_def split: if_splits)

lemma same_shape_trans: "same_shape a b \<Longrightarrow> same_shape b c \<Longrightarrow> same_shape a c"
  by (simp add: same_shape_def)

lemma LinkNodeAtLevel_links:
  assumes "LinkAt list pred l = Some next" "LinkAt list node l \<noteq> None" "node \<noteq> pred"
  obtains list1 list2 where "SetNext list node l next = Some list1" "SetNext list1 pred l (Some node) = Some list2"
    "LinkNodeAtLevel list node pred l = Some list2"
    "\<And>m k. LinkAt list2 m k =
       (if k = l \<and> m = pred then Some (Some node) else if k = l \<and> m = node then Some next else LinkAt list m k)"
    "same_shape list list2"
proof -
  obtain list1 where set1: "SetNext list node l next = Some list1" using SetNext_total [OF assms(2)] by blast
  have "LinkAt list1 pred l \<noteq> None" using LinkAt_SetNext [OF set1] assms by simp
  then obtain list2 where set2: "SetNext list1 pred l (Some node) = Some list2" using SetNext_total by blast
  show ?thesis
  proof (rule that [OF set1 set2])
    show "LinkNodeAtLevel list node pred l = Some list2" by (simp add: LinkNodeAtLevel_def assms set1 set2)
    show "LinkAt list2 m k =
        (if k = l \<and> m = pred then Some (Some node) else if k = l \<and> m = node then Some next else LinkAt list m k)" for m k
      using LinkAt_SetNext [OF set1] LinkAt_SetNext [OF set2] by simp
    show "same_shape list list2" using SetNext_same_shape [OF set1] SetNext_same_shape [OF set2] same_shape_trans by blast
  qed
qed

text \<open>A row with the node spliced in at the cut, and the rows once the levels below \<open>k\<close> have been linked.\<close>

definition splice_row :: "(nat \<Rightarrow> bool) \<Rightarrow> nat \<Rightarrow> nat list \<Rightarrow> nat list" where
  "splice_row lt node row = filter lt row @ node # filter (\<lambda>n. \<not> lt n) row"

definition rows_upto :: "(nat \<Rightarrow> bool) \<Rightarrow> nat \<Rightarrow> (nat \<Rightarrow> nat list) \<Rightarrow> nat \<Rightarrow> nat \<Rightarrow> nat list" where
  "rows_upto lt node rows k = (\<lambda>l. if l < k then splice_row lt node (rows l) else rows l)"

lemma cut_filter:
  "sorted_wrt (\<lambda>a b. lt b \<longrightarrow> lt a) xs \<Longrightarrow> takeWhile lt xs = filter lt xs \<and> dropWhile lt xs = filter (\<lambda>n. \<not> lt n) xs"
  by (induction xs) (auto simp: filter_empty_conv filter_id_conv)

lemma row_filter:
  assumes "wf_list list rows" "cuts lt rows"
  shows "takeWhile lt (rows l) = filter lt (rows l)" "dropWhile lt (rows l) = filter (\<lambda>n. \<not> lt n) (rows l)"
    and "rows l = filter lt (rows l) @ filter (\<lambda>n. \<not> lt n) (rows l)"
proof -
  have "sorted_wrt (\<lambda>a b. lt b \<longrightarrow> lt a) (rows l)"
    using subseq_sorted_wrt [OF wf_list_subseq [OF assms(1), of 0 l]] assms(2) by (simp add: cuts_def)
  from cut_filter [OF this] show *: "takeWhile lt (rows l) = filter lt (rows l)"
    "dropWhile lt (rows l) = filter (\<lambda>n. \<not> lt n) (rows l)" by blast+
  show "rows l = filter lt (rows l) @ filter (\<lambda>n. \<not> lt n) (rows l)"
    using takeWhile_dropWhile_id [of lt "rows l"] by (simp add: *)
qed


lemma subseq_splice:
  assumes "subseq xs ys"
  shows "subseq (splice_row lt node xs) (splice_row lt node ys)"
  using assms unfolding splice_row_def by (intro list_emb_append_mono) (auto intro: subseq_filter)

lemma splice_row_parts: "set (splice_row lt node row) = insert node (set row)"
  "distinct row \<Longrightarrow> node \<notin> set row \<Longrightarrow> distinct (splice_row lt node row)"
  by (auto simp: splice_row_def)

lemma subseq_splice_row:
  assumes "wf_list list rows" "cuts lt rows"
  shows "subseq (rows l) (splice_row lt node (rows l))"
proof -
  have "subseq (filter lt (rows l) @ filter (\<lambda>n. \<not> lt n) (rows l)) (splice_row lt node (rows l))"
    unfolding splice_row_def by (intro list_emb_append_mono) auto
  then show ?thesis using row_filter(3) [OF assms, of l] by simp
qed

text \<open>What the writer knows between two levels: the levels below \<open>k\<close> are linked.\<close>

definition linking :: "'e SkipList \<Rightarrow> (nat \<Rightarrow> bool) \<Rightarrow> (nat \<Rightarrow> nat list) \<Rightarrow> nat \<Rightarrow> nat \<Rightarrow> nat \<Rightarrow> bool" where
  "linking list lt rows node height k \<longleftrightarrow>
     wf_list list (rows_upto lt node rows k) \<and> cuts lt rows \<and> k \<le> height \<and> height \<le> MaxHeight \<and>
     height \<le> sl_max_height list \<and> node < length (sl_nodes list) \<and> node \<notin> set (0 # rows 0) \<and>
     distinct (0 # rows 0) \<and> set (rows 0) \<subseteq> {0..<length (sl_nodes list)} \<and>
     (\<forall>l. subseq (rows (Suc l)) (rows l)) \<and> (\<forall>l < height. LinkAt list node l \<noteq> None)"

lemma rows_subseq:
  assumes "\<forall>l. subseq (rows (Suc l)) (rows l)" "k \<le> l"
  shows "subseq (rows l :: 'a list) (rows k)"
  using assms(2)
proof (induction l rule: dec_induct)
  case (step n)
  with assms(1) subseq_order.order_trans show ?case by blast
qed simp

lemma linking_row:
  assumes "linking list lt rows node height k" "k \<le> l"
  shows "rows_upto lt node rows k l = rows l" "distinct (0 # rows l)" "node \<notin> set (0 # rows l)"
    "sorted_wrt (\<lambda>a b. lt b \<longrightarrow> lt a) (rows l)"
proof -
  show row: "rows_upto lt node rows k l = rows l" using assms(2) by (simp add: rows_upto_def)
  show "distinct (0 # rows l)" using wf_list_distinct [of list _ l] assms(1) row by (metis linking_def)
  have sub: "subseq (rows l) (rows 0)" using assms(1) by (intro rows_subseq) (simp_all add: linking_def)
  then show "node \<notin> set (0 # rows l)" using assms(1) subseq_set by (fastforce simp: linking_def)
  show "sorted_wrt (\<lambda>a b. lt b \<longrightarrow> lt a) (rows l)"
    using assms(1) subseq_sorted_wrt [OF sub] by (simp add: linking_def cuts_def)
qed

lemma linking_wf:
  assumes lk: "linking list lt rows node height k" and k: "k < height"
    and shape: "same_shape list list'"
    and links: "\<And>l. l < MaxHeight \<Longrightarrow> linked list' l 0 (rows_upto lt node rows (Suc k) l)"
  shows "linking list' lt rows node height (Suc k)"
proof -
  have wf: "wf_list list (rows_upto lt node rows k)" and mono: "\<And>l. subseq (rows (Suc l)) (rows l)"
    using lk by (auto simp: linking_def)
  have "rows k = filter lt (rows k) @ filter (\<lambda>n. \<not> lt n) (rows k)"
    using cut_filter [OF linking_row(4) [OF lk le_refl]] takeWhile_dropWhile_id [of lt "rows k"] by simp
  then have "subseq (rows k) (splice_row lt node (rows k))"
    unfolding splice_row_def by (metis list_emb_append_mono subseq_Cons' subseq_order.order_refl)
  then have "subseq (rows (Suc k)) (splice_row lt node (rows k))"
    using mono [of k] subseq_order.order_trans by blast
  then have subseq: "subseq (rows_upto lt node rows (Suc k) (Suc l)) (rows_upto lt node rows (Suc k) l)" for l
    using mono [of l] subseq_splice [OF mono [of l]] by (cases "l = k") (auto simp: rows_upto_def)
  have empty: "rows_upto lt node rows (Suc k) l = []" if "sl_max_height list \<le> l" for l
  proof -
    have "rows_upto lt node rows k l = []" using wf that by (simp add: wf_list_def)
    then show ?thesis using that lk k by (auto simp: rows_upto_def linking_def split: if_splits)
  qed
  have bottom: "rows_upto lt node rows (Suc k) 0 = splice_row lt node (rows 0)" by (simp add: rows_upto_def)
  have "distinct (0 # rows 0) \<and> set (rows 0) \<subseteq> {0..<length (sl_nodes list)}"
    using lk unfolding linking_def by blast
  then have "distinct (0 # rows_upto lt node rows (Suc k) 0) \<and>
      set (rows_upto lt node rows (Suc k) 0) \<subseteq> {0..<length (sl_nodes list)}"
    using lk unfolding bottom by (auto simp: splice_row_parts linking_def)
  then have "wf_list list' (rows_upto lt node rows (Suc k))"
    using wf shape links subseq empty by (simp add: wf_list_def same_shape_def)
  then show ?thesis using lk k shape by (simp add: linking_def same_shape_def)
qed

lemma linking_step:
  assumes lk: "linking list lt rows node height k" and k: "k < height"
  obtains succ list1 list' where "LinkAt list (cut_node lt rows k) k = Some succ"
    "SetNext list node k succ = Some list1" "SetNext list1 (cut_node lt rows k) k (Some node) = Some list'"
    "LinkNodeAtLevel list node (cut_node lt rows k) k = Some list'"
    "linking list' lt rows node height (Suc k)" "same_shape list list'"
proof -
  let ?xs = "filter lt (rows k)" and ?ys = "filter (\<lambda>n. \<not> lt n) (rows k)"
  let ?pred = "cut_node lt rows k"
  note row = linking_row [OF lk le_refl]
  have split: "rows k = ?xs @ ?ys" and pred: "?pred = last (0 # ?xs)"
    using cut_filter [OF row(4)] takeWhile_dropWhile_id [of lt "rows k"] by (simp_all add: cut_node_def)
  have old: "linked list l 0 (rows_upto lt node rows k l)" if "l < MaxHeight" for l
    using lk that by (simp add: linking_def wf_list_def)
  have kmax: "k < MaxHeight" using lk k by (simp add: linking_def)
  have linked_k: "linked list k 0 (?xs @ ?ys)" using old [OF kmax] row(1) split by simp
  then have "linked list k ?pred ?ys" unfolding pred by (rule linked_append)
  then obtain succ where succ: "LinkAt list ?pred k = Some succ" by (simp add: linked_first)
  have "?pred \<in> set (0 # ?xs)" unfolding pred by (rule last_in_set) simp
  then have "?pred \<in> set (0 # rows k)" by auto
  then have "node \<noteq> ?pred" using row(3) by metis
  moreover have "LinkAt list node k \<noteq> None" using lk k by (simp add: linking_def)
  ultimately obtain list1 list2 where sets: "SetNext list node k succ = Some list1"
      "SetNext list1 ?pred k (Some node) = Some list2" "LinkNodeAtLevel list node ?pred k = Some list2"
    and link: "\<And>m l. LinkAt list2 m l =
       (if l = k \<and> m = ?pred then Some (Some node) else if l = k \<and> m = node then Some succ else LinkAt list m l)"
    and shape: "same_shape list list2"
    using LinkNodeAtLevel_links [OF succ] by metis
  have "linked list2 l 0 (rows_upto lt node rows (Suc k) l)" if "l < MaxHeight" for l
  proof (cases "l = k")
    case True
    have "linked list2 k 0 (?xs @ node # ?ys)"
    proof (rule linked_insert [OF linked_k])
      show "distinct (0 # ?xs @ ?ys)" using row(2) split by metis
      show "node \<notin> set (0 # ?xs @ ?ys)" using row(3) split by metis
      show "LinkAt list2 (last (0 # ?xs)) k = Some (Some node)" unfolding pred [symmetric] by (simp add: link)
      show "LinkAt list2 node k = LinkAt list (last (0 # ?xs)) k" unfolding pred [symmetric] using succ \<open>node \<noteq> ?pred\<close> by (simp add: link)
      show "LinkAt list2 n k = LinkAt list n k" if "n \<noteq> node" "n \<noteq> last (0 # ?xs)" for n
        using that unfolding pred [symmetric] by (simp add: link)
    qed
    then show ?thesis using True by (simp add: rows_upto_def splice_row_def)
  next
    case False
    then have "rows_upto lt node rows (Suc k) l = rows_upto lt node rows k l" by (auto simp: rows_upto_def)
    then show ?thesis using old [OF that] False linked_cong [of 0 _ list2 l list] by (simp add: link)
  qed
  from linking_wf [OF lk k shape this] that [OF succ sets _ shape] show ?thesis by blast
qed


lemma LinkLevels_linking:
  assumes "linking list lt rows node height k" "\<And>l. l < height \<Longrightarrow> predecessors ! l = Some (cut_node lt rows l)"
  shows "\<exists>list'. LinkLevels list node predecessors [k..<height] = Some list' \<and>
     linking list' lt rows node height height \<and> same_shape list list'"
  using assms(1)
proof (induction "height - k" arbitrary: k list)
  case 0
  then have "k = height" by (simp add: linking_def)
  with 0 show ?case by (simp add: same_shape_def)
next
  case (Suc n)
  then have k: "k < height" by simp
  from linking_step [OF Suc.prems k] obtain list1
    where step: "LinkNodeAtLevel list node (cut_node lt rows k) k = Some list1"
      "linking list1 lt rows node height (Suc k)" "same_shape list list1" by metis
  moreover have "n = height - Suc k" using Suc.hyps(2) by simp
  ultimately obtain list'
    where "LinkLevels list1 node predecessors [Suc k..<height] = Some list'"
      "linking list' lt rows node height height" "same_shape list list'"
    using Suc.hyps(1) [of "Suc k" list1] same_shape_trans by blast
  moreover have "[k..<height] = k # [Suc k..<height]" using k by (rule upt_conv_Cons)
  ultimately show ?case using step(1) assms(2) [OF k] by simp
qed

lemma RandomHeightLoop_bounds:
  "1 \<le> height \<Longrightarrow> height \<le> MaxHeight \<Longrightarrow> height \<le> fst (RandomHeightLoop seed height) \<and> fst (RandomHeightLoop seed height) \<le> MaxHeight"
proof (induction seed height rule: RandomHeightLoop.induct)
  case (1 seed height)
  show ?case
  proof (cases "height < MaxHeight \<and> NextRandom seed mod Branching = 0")
    case True
    then have "RandomHeightLoop seed height = RandomHeightLoop (NextRandom seed) (Suc height)"
      by (subst RandomHeightLoop.simps) (simp only: Let_def refl if_True)
    with True "1.IH" [OF _ refl] show ?thesis by (metis Suc_leD Suc_leI le_add1 plus_1_eq_Suc)
  next
    case False
    then have "fst (RandomHeightLoop seed height) = height"
      by (subst RandomHeightLoop.simps) (auto simp only: Let_def fst_conv split: if_split)
    with "1.prems" show ?thesis by simp
  qed
qed

lemma RandomHeight_bounds:
  assumes "RandomHeight list = (height, list')"
  shows "1 \<le> height" "height \<le> MaxHeight" "sl_nodes list' = sl_nodes list" "sl_max_height list' = sl_max_height list"
  using assms RandomHeightLoop_bounds [of 1 "sl_random_seed list"]
  by (auto simp: RandomHeight_def MaxHeight_def Let_def split: prod.splits)

lemma nth_PreparePredecessors:
  assumes "k < length p"
  shows "PreparePredecessorsForHeight p current height ! k = (if current \<le> k \<and> k < height then Some 0 else p ! k)"
proof -
  have "length (fold (\<lambda>level p. p[level := Some 0]) ls p) = length p \<and>
      fold (\<lambda>level p. p[level := Some 0]) ls p ! k = (if k \<in> set ls then Some 0 else p ! k)" for ls
    using assms by (induction ls arbitrary: p) (auto simp: nth_list_update)
  then show ?thesis by (simp add: PreparePredecessorsForHeight_def)
qed

lemma LinkAt_NewNode:
  assumes "NewNode list entry height = (node, list')"
  shows "LinkAt list' m l = (if m = length (sl_nodes list) then (if l < height then Some None else None) else LinkAt list m l)"
  using assms by (auto simp: NewNode_def LinkAt_def nth_append less_Suc_eq)

text \<open>A node that was allocated and whose height was published, but not linked: readers see the old rows.\<close>

definition allocate :: "'e SkipList \<Rightarrow> 'e \<Rightarrow> nat \<Rightarrow> 'e SkipList" where
  "allocate list entry height = PublishHeightIfNeeded (snd (NewNode list entry height)) height (sl_max_height list)"

lemma allocate_sel:
  "length (sl_nodes (allocate list entry height)) = Suc (length (sl_nodes list))"
  "sl_max_height (allocate list entry height) = max height (sl_max_height list)"
  "n < length (sl_nodes list) \<Longrightarrow> entry_at (allocate list entry height) n = entry_at list n"
  "entry_at (allocate list entry height) (length (sl_nodes list)) = entry"
  "LinkAt (allocate list entry height) m l =
     (if m = length (sl_nodes list) then (if l < height then Some None else None) else LinkAt list m l)"
proof -
  show "LinkAt (allocate list entry height) m l =
      (if m = length (sl_nodes list) then (if l < height then Some None else None) else LinkAt list m l)"
  proof -
    have "LinkAt (allocate list entry height) m l = LinkAt (snd (NewNode list entry height)) m l"
      by (simp add: allocate_def PublishHeightIfNeeded_def LinkAt_def)
    then show ?thesis using LinkAt_NewNode by (metis prod.collapse)
  qed
qed (auto simp: allocate_def PublishHeightIfNeeded_def NewNode_def entry_at_def nth_append)

lemma allocate_linking:
  assumes wf: "wf_list list rows" and cut: "cuts lt rows" and "1 \<le> height" "height \<le> MaxHeight"
  shows "linking (allocate list entry height) lt rows (length (sl_nodes list)) height 0"
proof -
  let ?node = "length (sl_nodes list)"
  have bottom: "distinct (0 # rows 0)" "set (rows 0) \<subseteq> {0..<?node}" using wf by (simp_all add: wf_list_def)
  have "LinkAt list 0 0 \<noteq> None" using linked_link [OF wf_list_linked [OF wf, of 0]] by (simp add: MaxHeight_def)
  then have node: "0 < ?node" by (auto simp: LinkAt_def)
  have "linked (allocate list entry height) l 0 (rows l)" if "l < MaxHeight" for l
  proof -
    have "?node \<notin> set (0 # rows l)"
      using node bottom(2) subseq_set [OF wf_list_subseq [OF wf, of 0 l]] by auto
    then have "linked (allocate list entry height) l 0 (rows l) = linked list l 0 (rows l)"
      by (intro linked_cong) (simp only: allocate_sel, metis)
    then show ?thesis using wf_list_linked [OF wf that] by simp
  qed
  then have "wf_list (allocate list entry height) rows"
    using wf assms(3,4) by (auto simp: wf_list_def allocate_sel)
  moreover have "rows_upto lt ?node rows 0 = rows" by (simp add: rows_upto_def)
  moreover have "\<forall>l. subseq (rows (Suc l)) (rows l)" using wf by (simp add: wf_list_def)
  ultimately show ?thesis
    using cut assms(4) bottom node by (auto simp: linking_def allocate_sel)
qed


lemma prepare_insertion:
  assumes wf: "wf_list list rows" and cut: "cuts lt rows"
    and preds: "length predecessors = MaxHeight"
      "\<And>l. l < sl_max_height list \<Longrightarrow> predecessors ! l = Some (cut_node lt rows l)"
    and random: "RandomHeight list = (height, list1)"
  shows "linking (allocate list1 entry height) lt rows (length (sl_nodes list)) height 0"
    and "\<And>l. l < height \<Longrightarrow>
      PreparePredecessorsForHeight predecessors (sl_max_height list1) height ! l = Some (cut_node lt rows l)"
    and "entry_at (allocate list1 entry height) = entry_at (allocate list entry height)"
proof -
  note h = RandomHeight_bounds [OF random]
  note same = h(3,4)
  have "LinkAt list1 = LinkAt list" by (intro ext) (simp add: LinkAt_def same)
  then have "linked list1 l p ns = linked list l p ns" for l p ns by (intro linked_cong) simp
  then have "wf_list list1 rows" using wf by (simp add: wf_list_def same)
  from allocate_linking [OF this cut h(1,2)]
  show "linking (allocate list1 entry height) lt rows (length (sl_nodes list)) height 0" by (simp add: same)
  show "PreparePredecessorsForHeight predecessors (sl_max_height list1) height ! l = Some (cut_node lt rows l)"
    if "l < height" for l
  proof -
    have "rows l = []" if "sl_max_height list \<le> l" using wf that by (simp add: wf_list_def)
    then show ?thesis
      using that h(2) preds by (subst nth_PreparePredecessors) (auto simp: same cut_node_def)
  qed
  show "entry_at (allocate list1 entry height) = entry_at (allocate list entry height)"
    by (intro ext) (simp add: allocate_def entry_at_def NewNode_def PublishHeightIfNeeded_def same)
qed

lemma InsertAfterSearch_linking:
  assumes wf: "wf_list list rows" and cut: "cuts lt rows"
    and preds: "length predecessors = MaxHeight"
      "\<And>l. l < sl_max_height list \<Longrightarrow> predecessors ! l = Some (cut_node lt rows l)"
  obtains list' height where "InsertAfterSearch list entry predecessors = Some list'" "1 \<le> height"
    "linking list' lt rows (length (sl_nodes list)) height height"
    "entry_at list' = entry_at (allocate list entry height)"
proof -
  obtain height list1 where random: "RandomHeight list = (height, list1)" by fastforce
  note start = prepare_insertion [OF assms random]
  let ?preds = "PreparePredecessorsForHeight predecessors (sl_max_height list1) height"
  obtain list' where list': "LinkLevels (allocate list1 entry height) (length (sl_nodes list)) ?preds [0..<height] = Some list'"
    "linking list' lt rows (length (sl_nodes list)) height height" "same_shape (allocate list1 entry height) list'"
    using LinkLevels_linking [OF start(1,2)] by blast
  show ?thesis
  proof (rule that [of list' height])
    show "InsertAfterSearch list entry predecessors = Some list'"
      using list'(1) RandomHeight_bounds(3) [OF random]
      by (simp add: InsertAfterSearch_def random allocate_def NewNode_def Let_def)
    show "entry_at list' = entry_at (allocate list entry height)"
      using list'(3) start(3) [of entry] by (simp add: same_shape_def)
  qed (use list'(2) RandomHeight_bounds(1) [OF random] in auto)
qed

section \<open>The list as an ordered set\<close>

fun walk :: "'e SkipList \<Rightarrow> nat \<Rightarrow> nat \<Rightarrow> nat list" where
  "walk list 0 p = []"
| "walk list (Suc fuel) p =
     (case LinkAt list p 0 of Some (Some n) \<Rightarrow> n # walk list fuel n | _ \<Rightarrow> [])"

text \<open>The nodes of the bottom row; as many steps as there are nodes reach its end.\<close>

definition Row :: "'e SkipList \<Rightarrow> nat list" where
  "Row list = walk list (length (sl_nodes list)) 0"

definition Entries :: "'e SkipList \<Rightarrow> 'e list" where
  "Entries list = map (entry_at list) (Row list)"

lemma walk_linked: "linked list 0 p ns \<Longrightarrow> length ns \<le> fuel \<Longrightarrow> walk list fuel p = ns"
  by (induction ns arbitrary: p fuel) (case_tac fuel; simp)+

lemma wf_list_Row:
  assumes "wf_list list rows"
  shows "Row list = rows 0"
proof -
  have "length (rows 0) = card (set (rows 0))" using assms by (simp add: wf_list_def distinct_card)
  also have "\<dots> \<le> card {0..<length (sl_nodes list)}" using assms by (intro card_mono) (auto simp: wf_list_def)
  finally show ?thesis
    unfolding Row_def using wf_list_linked [OF assms, of 0] by (intro walk_linked) (simp_all add: MaxHeight_def)
qed

text \<open>What the index relies on: the comparison is a preorder on the entries.\<close>

locale entry_order =
  fixes compare :: "'e \<Rightarrow> 'e \<Rightarrow> int" and D :: "'e set"
  assumes entry_antisym: "x \<in> D \<Longrightarrow> y \<in> D \<Longrightarrow> sgn (compare y x) = - sgn (compare x y)"
    and entry_trans: "x \<in> D \<Longrightarrow> y \<in> D \<Longrightarrow> z \<in> D \<Longrightarrow> compare x y \<le> 0 \<Longrightarrow> compare y z \<le> 0 \<Longrightarrow> compare x z \<le> 0"
begin

definition holds :: "'e SkipList \<Rightarrow> (nat \<Rightarrow> nat list) \<Rightarrow> bool" where
  "holds list rows \<longleftrightarrow>
     wf_list list rows \<and> entry_at list ` set (rows 0) \<subseteq> D \<and>
     sorted_wrt (\<lambda>m n. compare (entry_at list m) (entry_at list n) < 0) (rows 0)"

lemma flip_less: "x \<in> D \<Longrightarrow> y \<in> D \<Longrightarrow> compare y x < 0 \<longleftrightarrow> 0 < compare x y"
  using entry_antisym [of x y] by (auto simp: sgn_if split: if_splits)

lemma less_trans_le: "x \<in> D \<Longrightarrow> y \<in> D \<Longrightarrow> z \<in> D \<Longrightarrow> compare x y < 0 \<Longrightarrow> compare y z \<le> 0 \<Longrightarrow> compare x z < 0"
  using entry_trans [of y z x] flip_less [of z x] flip_less [of y x] by force

lemma holds_cuts:
  assumes "holds list rows" "target \<in> D"
  shows "cuts (below compare list target) rows"
  unfolding cuts_def
proof (rule sorted_wrt_mono_rel)
  show "sorted_wrt (\<lambda>m n. compare (entry_at list m) (entry_at list n) < 0) (rows 0)"
    using assms(1) by (simp add: holds_def)
  fix a b
  assume ab: "a \<in> set (rows 0)" "b \<in> set (rows 0)" "compare (entry_at list a) (entry_at list b) < 0"
  have "entry_at list a \<in> D" "entry_at list b \<in> D" using ab assms(1) by (auto simp: holds_def)
  with ab(3) assms(2) show "below compare list target b \<longrightarrow> below compare list target a"
    using less_trans_le by (metis less_imp_le)
qed

end


context entry_order
begin

lemma holds_New: "holds (SkipList_New empty_entry) (\<lambda>_. [])"
  by (auto simp: holds_def wf_list_def SkipList_New_def NewNode_def LinkAt_def MaxHeight_def)

lemma holds_search:
  assumes "holds list rows" "target \<in> D"
  shows "FindGreaterOrEqual compare list target predecessors =
     Some (list_first (dropWhile (below compare list target) (rows 0)),
           map_option (note_cut (below compare list target) rows (sl_max_height list - 1)) predecessors)"
  using assms holds_cuts by (intro FindGreaterOrEqual_correct) (auto simp: holds_def)

lemma holds_Entries:
  assumes "holds list rows"
  shows "sorted_wrt (\<lambda>x y. compare x y < 0) (Entries list)" "set (Entries list) \<subseteq> D" "Row list = rows 0"
  using assms wf_list_Row [of list rows] by (simp_all add: holds_def Entries_def sorted_wrt_map)

lemma sorted_insert:
  assumes "sorted_wrt (\<lambda>x y. compare x y < 0) es" "set es \<subseteq> D" "entry \<in> D" "\<forall>x \<in> set es. compare x entry \<noteq> 0"
  shows "sorted_wrt (\<lambda>x y. compare x y < 0)
     (filter (\<lambda>x. compare x entry < 0) es @ entry # filter (\<lambda>x. \<not> compare x entry < 0) es)"
proof -
  have above: "compare entry y < 0" if "y \<in> set es" "\<not> compare y entry < 0" for y
  proof -
    have "0 < compare y entry" using assms(4) that by (simp add: order_less_le not_less)
    then show ?thesis using flip_less [of y entry] assms(2,3) that(1) by blast
  qed
  moreover have "compare x y < 0" if "x \<in> set es" "y \<in> set es" "compare x entry < 0" "\<not> compare y entry < 0" for x y
    using that above [OF that(2,4)] less_trans_le [of x entry y] assms(2,3) by (meson less_imp_le subsetD)
  ultimately show ?thesis
    using assms(1) by (auto simp: sorted_wrt_append sorted_wrt_filter)
qed

lemma holds_linking:
  assumes h: "holds list0 rows" and e: "entry \<in> D" and fresh: "\<forall>x \<in> set (Entries list0). compare x entry \<noteq> 0"
    and lk: "linking list (below compare list0 entry) rows node height k"
    and entries: "entry_at list node = entry" "\<And>n. n \<in> set (rows 0) \<Longrightarrow> entry_at list n = entry_at list0 n"
  shows "holds list (rows_upto (below compare list0 entry) node rows k)"
proof -
  let ?lt = "below compare list0 entry"
  have es: "map (entry_at list) (rows 0) = Entries list0"
    using entries(2) holds_Entries(3) [OF h] by (simp add: Entries_def)
  have "map (entry_at list) (splice_row ?lt node (rows 0)) =
      filter (\<lambda>x. compare x entry < 0) (Entries list0) @ entry # filter (\<lambda>x. \<not> compare x entry < 0) (Entries list0)"
    using entries holds_Entries(3) [OF h]
    by (simp add: splice_row_def Entries_def filter_map comp_def)
  then have "map (entry_at list) (rows_upto ?lt node rows k 0) =
      (if k = 0 then Entries list0
       else filter (\<lambda>x. compare x entry < 0) (Entries list0) @ entry # filter (\<lambda>x. \<not> compare x entry < 0) (Entries list0))"
    using es by (simp add: rows_upto_def)
  then have "sorted_wrt (\<lambda>x y. compare x y < 0) (map (entry_at list) (rows_upto ?lt node rows k 0)) \<and>
      set (map (entry_at list) (rows_upto ?lt node rows k 0)) \<subseteq> D"
    using sorted_insert [OF holds_Entries(1,2) [OF h] e fresh] holds_Entries(1,2) [OF h] e by auto
  moreover have "wf_list list (rows_upto ?lt node rows k)" using lk by (simp add: linking_def)
  ultimately show ?thesis by (simp add: holds_def sorted_wrt_map)
qed

lemma writer_predecessors:
  assumes "holds list rows" "entry \<in> D" "l < sl_max_height list"
  shows "note_cut (below compare list entry) rows (sl_max_height list - 1) (replicate MaxHeight None) ! l =
    Some (cut_node (below compare list entry) rows l)"
  using assms by (subst nth_note_cut) (auto simp: holds_def wf_list_def)

lemma holds_Insert:
  assumes h: "holds list rows" and e: "entry \<in> D" and fresh: "\<forall>x \<in> set (Entries list). compare x entry \<noteq> 0"
  obtains list' rows' where "SkipList_Insert compare list entry = Some list'" "holds list' rows'"
    "Entries list' = filter (\<lambda>x. compare x entry < 0) (Entries list) @ entry #
       filter (\<lambda>x. \<not> compare x entry < 0) (Entries list)"
proof -
  let ?lt = "below compare list entry" and ?node = "length (sl_nodes list)"
  have wf: "wf_list list rows" using h by (simp add: holds_def)
  note cut = holds_cuts [OF h e]
  let ?preds = "note_cut ?lt rows (sl_max_height list - 1) (replicate MaxHeight None)"
  note preds = writer_predecessors [OF h e]
  obtain list' height where ins: "InsertAfterSearch list entry ?preds = Some list'" "1 \<le> height"
    and lk: "linking list' ?lt rows ?node height height"
    and entries: "entry_at list' = entry_at (allocate list entry height)"
    using InsertAfterSearch_linking [OF wf cut, of ?preds entry] preds by auto
  let ?rows = "rows_upto ?lt ?node rows height"
  have wf': "wf_list list' ?rows" using lk by (simp add: linking_def)
  have bottom: "?rows 0 = splice_row ?lt ?node (rows 0)" using ins(2) by (simp add: rows_upto_def)
  have node: "entry_at list' ?node = entry" and old: "\<And>n. n \<in> set (rows 0) \<Longrightarrow> entry_at list' n = entry_at list n"
    using wf by (auto simp: entries allocate_sel wf_list_def)
  have rows: "Row list = rows 0" "Row list' = ?rows 0" using wf_list_Row wf wf' by blast+
  have split: "Entries list' = filter (\<lambda>x. compare x entry < 0) (Entries list) @ entry #
       filter (\<lambda>x. \<not> compare x entry < 0) (Entries list)"
    using old node by (simp add: Entries_def rows bottom splice_row_def filter_map comp_def)
  have "holds list' ?rows" using holds_linking [OF h e fresh lk node] old by blast
  then show ?thesis
    using ins(1) split holds_search [OF h e, of "Some (replicate MaxHeight None)"]
    by (intro that) (simp_all add: SkipList_Insert_def)
qed

end


fun InsertAll :: "('e \<Rightarrow> 'e \<Rightarrow> int) \<Rightarrow> 'e SkipList \<Rightarrow> 'e list \<Rightarrow> 'e SkipList option" where
  "InsertAll compare list [] = Some list"
| "InsertAll compare list (entry # entries) = do {
     list' \<leftarrow> SkipList_Insert compare list entry;
     InsertAll compare list' entries
   }"

text \<open>The iterator at the \<open>i\<close>-th entry; past the last one it is invalid.\<close>

definition position :: "'e SkipList \<Rightarrow> nat \<Rightarrow> SkipIterator" where
  "position list i = list_first (drop i (Row list))"

lemma position_eq: "position list i = (if i < length (Row list) then Some (Row list ! i) else None)"
  by (auto simp: position_def list_first_def Cons_nth_drop_Suc [symmetric] split: list.splits)

lemma Seek_first:
  assumes "wf_list list rows" "cuts (below compare list target) rows"
  shows "\<exists>node. SkipIterator_Seek compare list target = Some node \<and>
     SkipIterator_entry list node = list_first (dropWhile (\<lambda>x. compare x target < 0) (Entries list))"
proof -
  let ?node = "list_first (dropWhile (below compare list target) (rows 0))"
  have "SkipIterator_Seek compare list target = Some ?node"
    using FindGreaterOrEqual_correct [OF assms, of compare target None] by (simp add: SkipIterator_Seek_def)
  moreover have "SkipIterator_entry list ?node = list_first (dropWhile (\<lambda>x. compare x target < 0) (Entries list))"
    by (simp add: SkipIterator_entry_def Entries_def wf_list_Row [OF assms(1)] dropWhile_map comp_def list_first_map)
  ultimately show ?thesis by blast
qed

context entry_order
begin

lemma holds_InsertAll:
  assumes "holds list rows" "set es \<subseteq> D" "sorted_wrt (\<lambda>x y. compare x y \<noteq> 0) es"
    and "\<forall>x \<in> set (Entries list). \<forall>e \<in> set es. compare x e \<noteq> 0"
  shows "\<exists>list' rows'. InsertAll compare list es = Some list' \<and> holds list' rows' \<and>
     set (Entries list') = set (Entries list) \<union> set es \<and> length (Entries list') = length (Entries list) + length es"
  using assms
proof (induction es arbitrary: list rows)
  case (Cons e es)
  have e: "e \<in> D" "\<forall>x \<in> set (Entries list). compare x e \<noteq> 0" using Cons.prems by auto
  obtain list1 rows1 where ins: "SkipList_Insert compare list e = Some list1" "holds list1 rows1"
    and es1: "Entries list1 = filter (\<lambda>x. compare x e < 0) (Entries list) @ e #
       filter (\<lambda>x. \<not> compare x e < 0) (Entries list)"
    by (rule holds_Insert [OF Cons.prems(1) e])
  have set1: "set (Entries list1) = insert e (set (Entries list))" unfolding es1 by auto
  have len1: "length (Entries list1) = Suc (length (Entries list))"
    unfolding es1 using sum_length_filter_compl [of "\<lambda>x. compare x e < 0" "Entries list"] by simp
  have "\<exists>list' rows'. InsertAll compare list1 es = Some list' \<and> holds list' rows' \<and>
     set (Entries list') = set (Entries list1) \<union> set es \<and> length (Entries list') = length (Entries list1) + length es"
    using Cons.prems ins(2) by (intro Cons.IH [of list1 rows1]) (auto simp: set1)
  with ins(1) show ?case by (auto simp: set1 len1)
qed auto

lemma holds_Contains:
  assumes h: "holds list rows" and e: "entry \<in> D"
  shows "SkipList_Contains compare list entry = Some (\<exists>x \<in> set (Entries list). compare x entry = 0)"
proof -
  let ?less = "\<lambda>x. compare x entry < 0"
  note entries = holds_Entries [OF h]
  have "(case list_first (dropWhile (below compare list entry) (rows 0)) of
       None \<Rightarrow> False | Some n \<Rightarrow> compare (entry_at list n) entry = 0) =
     (case list_first (dropWhile ?less (Entries list)) of None \<Rightarrow> False | Some x \<Rightarrow> compare x entry = 0)"
    by (simp add: Entries_def entries(3) dropWhile_map comp_def list_first_map split: option.split)
  also have "\<dots> = (\<exists>x \<in> set (Entries list). compare x entry = 0)"
  proof (cases "dropWhile ?less (Entries list)")
    case Nil
    then have "\<forall>x \<in> set (Entries list). compare x entry < 0" by (simp add: dropWhile_eq_Nil_conv)
    then show ?thesis unfolding Nil by force
  next
    case (Cons y ys)
    then have split: "Entries list = takeWhile ?less (Entries list) @ y # ys"
      using takeWhile_dropWhile_id [of ?less "Entries list"] by simp
    have y: "\<not> ?less y" using Cons by (metis hd_dropWhile list.discI list.sel(1))
    have "compare y entry = 0" if z: "z \<in> set (Entries list)" "compare z entry = 0" for z
    proof -
      have "z \<in> set (y # ys)" using z split by (metis Un_iff set_append set_takeWhileD less_irrefl)
      moreover have "sorted_wrt (\<lambda>x y. compare x y < 0) (y # ys)"
        using entries(1) split by (metis sorted_wrt_append)
      ultimately have "z = y \<or> compare y z < 0" by auto
      moreover have "y \<in> D" "z \<in> D" using entries(2) split z(1) by (metis in_set_conv_decomp subsetD)+
      ultimately have "compare y entry \<le> 0" using entry_trans [of y z entry] e z(2) by auto
      with y show ?thesis by simp
    qed
    moreover have "y \<in> set (Entries list)" using split by (metis in_set_conv_decomp)
    ultimately show ?thesis using Cons by auto
  qed
  finally show ?thesis
    using holds_search [OF h e, of None] unfolding SkipList_Contains_def SkipList_Equal_def by simp
qed

end


context entry_order
begin

lemma holds_Prev:
  assumes h: "holds list rows" and i: "i < length (Entries list)"
  shows "SkipIterator_Prev compare list (position list i) = Some (if i = 0 then None else position list (i - 1))"
proof -
  note row = holds_Entries(3) [OF h]
  have len: "i < length (rows 0)" using i by (simp add: Entries_def row)
  let ?e = "entry_at list (rows 0 ! i)" and ?lt = "below compare list (entry_at list (rows 0 ! i))"
  have e: "?e \<in> D" using h len by (auto simp: holds_def)
  have sorted: "sorted_wrt (\<lambda>m n. compare (entry_at list m) (entry_at list n) < 0) (rows 0)"
    using h by (simp add: holds_def)
  have "takeWhile ?lt (rows 0) = take i (rows 0)"
  proof (rule takeWhile_eq_take_P_nth)
    show "?lt (rows 0 ! j)" if "j < i" for j using that len sorted_wrt_nth_less [OF sorted] by blast
    have "sgn (compare ?e ?e) = - sgn (compare ?e ?e)" using entry_antisym e by blast
    then show "\<not> ?lt (rows 0 ! i)" by (simp add: sgn_if split: if_splits)
  qed
  then have cut: "cut_node ?lt rows 0 = (if i = 0 then 0 else rows 0 ! (i - 1))"
    using len by (auto simp: cut_node_def last_conv_nth)
  have "0 \<notin> set (rows 0)" using h by (simp add: holds_def wf_list_def)
  then have "rows 0 ! (i - 1) \<noteq> 0" using len by (metis less_imp_diff_less nth_mem)
  moreover have "FindLessThan compare list ?e = Some (cut_node ?lt rows 0)"
    unfolding FindLessThan_def using h holds_cuts [OF h e] by (intro FindLastBefore_correct) (auto simp: holds_def)
  ultimately show ?thesis
    using len by (auto simp: SkipIterator_Prev_def position_eq row cut SetPosition_def)
qed

lemma holds_SeekToLast:
  assumes h: "holds list rows"
  shows "SkipIterator_SeekToLast compare list =
     Some (if Entries list = [] then None else position list (length (Entries list) - 1))"
proof -
  have row: "Row list = rows 0" and zero: "0 \<notin> set (rows 0)"
    using h holds_Entries(3) by (auto simp: holds_def wf_list_def)
  have "FindLast compare list = Some (cut_node (\<lambda>_. True) rows 0)"
    unfolding FindLast_def using h by (intro FindLastBefore_correct) (auto simp: holds_def cuts_def)
  moreover have "takeWhile (\<lambda>_. True) (rows 0) = rows 0" by simp
  ultimately show ?thesis
    using zero by (cases "rows 0" rule: rev_cases)
      (simp_all add: SkipIterator_SeekToLast_def Entries_def row position_eq cut_node_def SetPosition_def)
qed

lemma holds_Next:
  assumes h: "holds list rows" and i: "i < length (Entries list)"
  shows "SkipIterator_Next list (position list i) = Some (position list (Suc i))"
proof -
  note row = holds_Entries(3) [OF h]
  have len: "i < length (rows 0)" using i by (simp add: Entries_def row)
  have "linked list 0 0 (rows 0)" using h by (simp add: holds_def wf_list_def MaxHeight_def)
  then have "linked list 0 0 (take (Suc i) (rows 0) @ drop (Suc i) (rows 0))" by simp
  from linked_append [OF this] have "linked list 0 (rows 0 ! i) (drop (Suc i) (rows 0))"
    using len by (simp add: take_Suc_conv_app_nth)
  from linked_first [OF this] show ?thesis
    using len by (simp add: SkipIterator_Next_def position_def row Cons_nth_drop_Suc [symmetric] flip: list_first_def)
qed

lemma holds_SeekToFirst:
  assumes h: "holds list rows"
  shows "SkipIterator_SeekToFirst list = Some (position list 0)"
proof -
  have "linked list 0 0 (rows 0)" using h by (simp add: holds_def wf_list_def MaxHeight_def)
  from linked_first [OF this] show ?thesis
    by (simp add: SkipIterator_SeekToFirst_def position_def holds_Entries(3) [OF h] list_first_def)
qed

lemma holds_entry: "i < length (Entries list) \<Longrightarrow> SkipIterator_entry list (position list i) = Some (Entries list ! i)"
  by (simp add: SkipIterator_entry_def position_eq Entries_def)

end


section \<open>Properties\<close>

text \<open>C16: The pointer structure refines an ordered set.  Inserting any entries that are pairwise different under a
  lawful comparison always returns, whatever heights are drawn, and never touches a link that does not
  exist.  The bottom row then holds exactly those entries in order, membership is decided correctly, and
  a seek stops at the first entry that is not below its target.\<close>

theorem skip_list_refinement:
  assumes "entry_order compare D" "set es \<subseteq> D" "sorted_wrt (\<lambda>x y. compare x y \<noteq> 0) es" "target \<in> D"
  shows "\<exists>list. InsertAll compare (SkipList_New empty_entry) es = Some list \<and>
     set (Entries list) = set es \<and> sorted_wrt (\<lambda>x y. compare x y < 0) (Entries list) \<and>
     SkipList_Contains compare list target = Some (\<exists>x \<in> set es. compare x target = 0) \<and>
     (\<exists>node. SkipIterator_Seek compare list target = Some node \<and>
        SkipIterator_entry list node = list_first (dropWhile (\<lambda>x. compare x target < 0) (Entries list)))"
proof -
  note laws = entry_order.holds_New [OF assms(1), of empty_entry]
  have "Entries (SkipList_New empty_entry) = []" using wf_list_Row entry_order.holds_Entries(3) [OF assms(1) laws]
    by (simp add: Entries_def)
  then obtain list rows where list: "InsertAll compare (SkipList_New empty_entry) es = Some list"
      "entry_order.holds compare D list rows" "set (Entries list) = set es"
    using entry_order.holds_InsertAll [OF assms(1) laws assms(2,3)] by auto
  have "wf_list list rows" using list(2) by (simp add: entry_order.holds_def [OF assms(1)])
  with list show ?thesis
    using entry_order.holds_Entries(1) [OF assms(1) list(2)] entry_order.holds_Contains [OF assms(1) list(2) assms(4)]
      Seek_first [of list rows compare target] entry_order.holds_cuts [OF assms(1) list(2) assms(4)]
    by (intro exI [of _ list]) simp
qed

text \<open>C17: Iteration.  On such a list the cursor operations walk the entries in order in both directions, and fall
  off either end into the invalid position.\<close>

theorem skip_list_iteration:
  assumes "entry_order compare D" "set es \<subseteq> D" "sorted_wrt (\<lambda>x y. compare x y \<noteq> 0) es"
    and "InsertAll compare (SkipList_New empty_entry) es = Some list"
  shows "SkipIterator_SeekToFirst list = Some (position list 0) \<and>
    SkipIterator_SeekToLast compare list = Some (if es = [] then None else position list (length es - 1)) \<and>
    (\<forall>i < length es. SkipIterator_entry list (position list i) = Some (Entries list ! i) \<and>
       SkipIterator_Next list (position list i) = Some (position list (Suc i)) \<and>
       SkipIterator_Prev compare list (position list i) = Some (if i = 0 then None else position list (i - 1))) \<and>
    position list (length es) = None"
proof (intro conjI)
  note laws = entry_order.holds_New [OF assms(1), of empty_entry]
  have "Entries (SkipList_New empty_entry) = []" using entry_order.holds_Entries(3) [OF assms(1) laws]
    by (simp add: Entries_def)
  then obtain rows where h: "entry_order.holds compare D list rows" and len: "length (Entries list) = length es"
    using entry_order.holds_InsertAll [OF assms(1) laws assms(2,3)] assms(4) by auto
  show "SkipIterator_SeekToFirst list = Some (position list 0)" by (rule entry_order.holds_SeekToFirst [OF assms(1) h])
  show "SkipIterator_SeekToLast compare list = Some (if es = [] then None else position list (length es - 1))"
    using entry_order.holds_SeekToLast [OF assms(1) h] len by auto
  show "\<forall>i < length es. SkipIterator_entry list (position list i) = Some (Entries list ! i) \<and>
       SkipIterator_Next list (position list i) = Some (position list (Suc i)) \<and>
       SkipIterator_Prev compare list (position list i) = Some (if i = 0 then None else position list (i - 1))"
    using entry_order.holds_entry [OF assms(1), of _ list] entry_order.holds_Next [OF assms(1) h] entry_order.holds_Prev [OF assms(1) h] len
    by simp
  show "position list (length es) = None" using len by (simp add: position_eq Entries_def)
qed


text \<open>Numbers under subtraction are the instance the examples use.\<close>

definition demo_compare :: "int \<Rightarrow> int \<Rightarrow> int" where
  "demo_compare x y = x - y"

interpretation demo: entry_order demo_compare UNIV
  by unfold_locales (auto simp: demo_compare_def sgn_if)

theorem skip_list_refinement_witness:
  "\<exists>list. InsertAll demo_compare (SkipList_New 0) [5, 1, 3] = Some list \<and>
     set (Entries list) = {1, 3, 5} \<and> SkipList_Contains demo_compare list 4 = Some False"
  using skip_list_refinement [OF demo.entry_order_axioms, of "[5, 1, 3]" 4 0] by (auto simp: demo_compare_def)

theorem skip_list_iteration_witness:
  "\<exists>list. InsertAll demo_compare (SkipList_New 0) [5, 1, 3] = Some list \<and>
     SkipIterator_Next list (position list 0) = Some (position list 1) \<and>
     SkipIterator_Prev demo_compare list (position list 0) = Some None"
proof -
  obtain list where list: "InsertAll demo_compare (SkipList_New 0) [5, 1, 3] = Some list"
    using demo.holds_InsertAll [OF demo.holds_New [of 0], of "[5, 1, 3]"] demo.holds_Entries(3) [OF demo.holds_New [of 0]]
    by (auto simp: Entries_def demo_compare_def)
  have "\<forall>i < 3. SkipIterator_Next list (position list i) = Some (position list (Suc i)) \<and>
       SkipIterator_Prev demo_compare list (position list i) = Some (if i = 0 then None else position list (i - 1))"
    using skip_list_iteration [OF demo.entry_order_axioms _ _ list] by (simp add: demo_compare_def)
  with list show ?thesis by force
qed

lemma unat_product:
  assumes "unat seed < 2 ^ 31"
  shows "unat ((ucast seed :: u64) * RandomMultiplier) = unat (seed :: u32) * 16807"
proof -
  have "unat seed * 16807 < 2 ^ 31 * 16807" using assms by simp
  then have "unat seed * 16807 < 2 ^ 64" by simp
  moreover have "unat (ucast seed :: u64) = unat seed"
    using assms by (simp add: unsigned_ucast_eq take_bit_nat_eq_self)
  ultimately show ?thesis
    using unat_mult_lem [of "ucast seed :: u64" RandomMultiplier] by (simp add: RandomMultiplier_def)
qed

lemma multiplier_invertible: "(M :: nat) = 2147483647 \<Longrightarrow> M dvd s * 16807 \<Longrightarrow> M dvd s"
proof -
  assume M: "M = 2147483647" and dvd: "M dvd s * 16807"
  have "s * 16807 * 1407677000 = M * (s * 11017) + s" by (simp add: M)
  then show "M dvd s" using dvd by (metis dvd_add_right_iff dvd_mult2 dvd_triv_left)
qed

text \<open>C27: The height generator is the minimal-standard multiplicative generator.  Its shifts and masks compute
  multiplication by 16807 modulo the Mersenne prime without overflow, so from any nonzero residue it
  stays at nonzero residues and never gets stuck.\<close>

theorem next_random_lehmer:
  assumes "0 < unat seed" "unat seed < 2147483647"
  shows "unat (NextRandom seed) = unat seed * 16807 mod 2147483647 \<and> 0 < unat (NextRandom seed)"
proof -
  define s where "s = unat seed"
  define hi lo where "hi = s * 16807 div 2 ^ 31" and "lo = s * 16807 mod 2 ^ 31"
  let ?M = "2147483647 :: nat"
  have s: "0 < s" "s < ?M" using assms by (simp_all add: s_def)
  have product: "s * 16807 = hi * 2 ^ 31 + lo" by (simp add: hi_def lo_def)
  have hi: "hi < 16807" using s by (simp add: hi_def less_mult_imp_div_less)
  have lo: "lo < 2 ^ 31" by (simp add: lo_def)
  have mod: "s * 16807 mod ?M = (hi + lo) mod ?M"
  proof -
    have "s * 16807 = ?M * hi + (hi + lo)" using product by simp
    then show ?thesis by (metis mod_mult_self4)
  qed
  have nonzero: "hi + lo \<noteq> ?M" "0 < hi + lo"
  proof -
    have "\<not> ?M dvd s" using s by (auto dest: dvd_imp_le)
    then have "\<not> ?M dvd s * 16807" using multiplier_invertible [OF refl] by blast
    then have "(hi + lo) mod ?M \<noteq> 0" using mod by (simp add: dvd_eq_mod_eq_0)
    then show "hi + lo \<noteq> ?M" "0 < hi + lo" by (auto intro: Nat.gr0I)
  qed
  let ?p = "(ucast seed :: u64) * RandomMultiplier"
  have p: "unat ?p = s * 16807" using unat_product [of seed] s by (simp add: s_def)
  have "unat (drop_bit 31 ?p) = hi" by (simp add: unat_drop_bit_div p hi_def)
  moreover have "unat (?p AND ucast RandomModulus) = lo"
  proof -
    have "ucast RandomModulus = (mask 31 :: u64)" by (simp add: RandomModulus_def mask_eq_exp_minus_1)
    then have "unat (?p AND ucast RandomModulus) = take_bit 31 (unat ?p)"
      by (simp only: take_bit_eq_mask [symmetric] unsigned_take_bit_eq)
    then show ?thesis by (simp add: p lo_def take_bit_eq_mod)
  qed
  ultimately have sum: "unat (ucast (drop_bit 31 ?p + (?p AND ucast RandomModulus)) :: u32) = hi + lo"
    using hi lo unat_add_lem [of "drop_bit 31 ?p" "?p AND ucast RandomModulus"]
    by (simp add: unsigned_ucast_eq take_bit_nat_eq_self)
  show ?thesis
  proof (cases "hi + lo > ?M")
    case True
    then have "unat (NextRandom seed) = hi + lo - ?M"
      using sum by (simp add: NextRandom_def Let_def word_less_nat_alt RandomModulus_def unat_sub word_le_nat_alt)
    moreover have "(hi + lo) mod ?M = hi + lo - ?M" using True hi lo by (simp add: mod_if)
    ultimately show ?thesis using True mod by (simp add: s_def)
  next
    case False
    then have "unat (NextRandom seed) = hi + lo"
      using sum by (simp add: NextRandom_def Let_def word_less_nat_alt RandomModulus_def)
    moreover have "(hi + lo) mod ?M = hi + lo" using False nonzero by simp
    ultimately show ?thesis using nonzero mod by (simp add: s_def)
  qed
qed

theorem next_random_lehmer_witness:
  "unat (NextRandom (0xdeadbeef AND 0x7fffffff)) = 1588444911 * 16807 mod 2147483647"
  using next_random_lehmer [of "0xdeadbeef AND 0x7fffffff"] by simp

end
