(* ===== verification/Mem_Table.thy ===== *)
theory Mem_Table
  imports Internal_Key Memory_Arena Skip_List
begin

text \<open>
  The memtable (\<^verbatim>\<open>src/memory/memtable.{h,cc}\<close>): versioned entries, packed into arena storage and ordered by a
  skip list.  An entry pointer is modelled by the packed bytes it points to, which never change.  An operation
  that allocates takes the allocator and returns \<open>None\<close> when it throws.
\<close>

section \<open>Packed entries\<close>

record MemTableEntryView =
  me_internal_key :: bytes
  me_value :: bytes

datatype MemTableLookupKind = LookupMissing | LookupValue | LookupDeletion

record MemTableLookup =
  ml_kind :: MemTableLookupKind
  ml_value :: bytes

definition MatchesMemTableUserKey :: "comparator \<Rightarrow> bytes \<Rightarrow> bytes \<Rightarrow> bool" where
  "MatchesMemTableUserKey comparator internal_key user_key \<longleftrightarrow>
     Compare comparator (first_user_key internal_key) user_key = 0"

definition ClassifyMemTableEntry :: "MemTableEntryView \<Rightarrow> MemTableLookup" where
  "ClassifyMemTableEntry entry =
     (if DecodeInternalKeyValueKind (DecodeInternalKeyTrailer (me_internal_key entry)) = Deletion
      then \<lparr>ml_kind = LookupDeletion, ml_value = []\<rparr>
      else \<lparr>ml_kind = LookupValue, ml_value = me_value entry\<rparr>)"

definition DecodeMemTableInternalKey :: "bytes \<Rightarrow> bytes option" where
  "DecodeMemTableInternalKey entry = map_option fst (ConsumeLengthPrefixedTrusted entry)"

definition DecodeMemTableEntry :: "bytes \<Rightarrow> MemTableEntryView option" where
  "DecodeMemTableEntry entry = do {
     (internal_key, entry1) \<leftarrow> ConsumeLengthPrefixedTrusted entry;
     (val, _) \<leftarrow> ConsumeLengthPrefixedTrusted entry1;
     Some \<lparr>me_internal_key = internal_key, me_value = val\<rparr>
   }"

definition EncodedMemTableEntrySize :: "bytes \<Rightarrow> bytes \<Rightarrow> nat" where
  "EncodedMemTableEntrySize key val =
     (let internal_key_size = length key + InternalKeyTrailerSize
      in VarintLengthTrusted (ucast (of_nat internal_key_size :: u32)) + internal_key_size +
         VarintLengthTrusted (ucast (of_nat (length val) :: u32)) + length val)"

text \<open>The three encoders write into the allocated range, which must hold everything they write.\<close>

definition EncodeMemTableEntry ::
    "new_array \<Rightarrow> Arena \<Rightarrow> SequenceNumber \<Rightarrow> ValueKind \<Rightarrow> bytes \<Rightarrow> bytes \<Rightarrow> nat \<Rightarrow> (bytes \<times> Arena) option" where
  "EncodeMemTableEntry new arena sequence kind key val encoded_size = do {
     (output, arena1) \<leftarrow> Allocate new arena (of_nat encoded_size);
     let internal_key_size = length key + InternalKeyTrailerSize;
     let entry = EncodeVarintTrusted (of_nat internal_key_size :: u32) @
           EncodeInternalKeyTrusted key sequence kind @ EncodeLengthPrefixedTrusted val;
     (if length entry \<le> encoded_size then Some (entry, arena1) else None)
   }"

text \<open>Both overloads of the entry comparator.  Entries of a memtable decode; the value for one that does not
  is never used.\<close>

definition EntryCompareKey :: "comparator \<Rightarrow> bytes \<Rightarrow> bytes \<Rightarrow> int" where
  "EntryCompareKey user_comparator left right =
     (case DecodeMemTableInternalKey left of None \<Rightarrow> 0 | Some key \<Rightarrow> InternalKeyCompare user_comparator key right)"

definition EntryCompare :: "comparator \<Rightarrow> bytes \<Rightarrow> bytes \<Rightarrow> int" where
  "EntryCompare user_comparator left right =
     (case DecodeMemTableInternalKey right of None \<Rightarrow> 0 | Some key \<Rightarrow> EntryCompareKey user_comparator left key)"

section \<open>The table\<close>

record MemTable =
  mt_arena :: Arena
  mt_table :: "bytes SkipList"
  mt_read_pins :: nat

text \<open>Storage of a skip-list node whose entry is a pointer.\<close>

definition LinksOffset :: u64 where
  "LinksOffset = (8 + 8 - 1) AND NOT (8 - 1)"

definition NodeStorageSize :: "nat \<Rightarrow> u64" where
  "NodeStorageSize height = LinksOffset + 8 * of_nat height"

definition MemTable_New :: "new_array \<Rightarrow> MemTable option" where
  "MemTable_New new = do {
     (head, arena) \<leftarrow> AllocateAligned new Arena_New (NodeStorageSize MaxHeight);
     Some \<lparr>mt_arena = arena, mt_table = SkipList_New [], mt_read_pins = 0\<rparr>
   }"

text \<open>The insertion draws the height of the new node and allocates its storage from the same arena.\<close>

definition MemTable_Add ::
    "new_array \<Rightarrow> comparator \<Rightarrow> MemTable \<Rightarrow> SequenceNumber \<Rightarrow> ValueKind \<Rightarrow> bytes \<Rightarrow> bytes \<Rightarrow> MemTable option" where
  "MemTable_Add new user_comparator table sequence kind key val = do {
     (entry, arena1) \<leftarrow> EncodeMemTableEntry new (mt_arena table) sequence kind key val (EncodedMemTableEntrySize key val);
     (node, arena2) \<leftarrow> AllocateAligned new arena1 (NodeStorageSize (fst (RandomHeight (mt_table table))));
     list \<leftarrow> SkipList_Insert (EntryCompare user_comparator) (mt_table table) entry;
     Some (table\<lparr>mt_arena := arena2, mt_table := list\<rparr>)
   }"

definition MemTable_memory_usage :: "MemTable \<Rightarrow> u64" where
  "MemTable_memory_usage table = ar_memory_usage (mt_arena table)"

definition MemTable_Lookup :: "comparator \<Rightarrow> MemTable \<Rightarrow> LookupKey \<Rightarrow> MemTableLookup option" where
  "MemTable_Lookup user_comparator table key = do {
     iterator \<leftarrow> SkipIterator_Seek (EntryCompareKey user_comparator) (mt_table table) (LookupKey_internal_key key);
     (if \<not> SkipIterator_valid iterator then Some \<lparr>ml_kind = LookupMissing, ml_value = []\<rparr>
      else do {
        packed \<leftarrow> SkipIterator_entry (mt_table table) iterator;
        entry \<leftarrow> DecodeMemTableEntry packed;
        Some (if \<not> MatchesMemTableUserKey user_comparator (me_internal_key entry) (LookupKey_user_key key)
              then \<lparr>ml_kind = LookupMissing, ml_value = []\<rparr> else ClassifyMemTableEntry entry)
      })
   }"

section \<open>Iterators and pins\<close>

definition MemTableIterator_key :: "MemTable \<Rightarrow> SkipIterator \<Rightarrow> bytes option" where
  "MemTableIterator_key table iterator = do {
     packed \<leftarrow> SkipIterator_entry (mt_table table) iterator;
     map_option me_internal_key (DecodeMemTableEntry packed)
   }"

definition MemTableIterator_value :: "MemTable \<Rightarrow> SkipIterator \<Rightarrow> bytes option" where
  "MemTableIterator_value table iterator = do {
     packed \<leftarrow> SkipIterator_entry (mt_table table) iterator;
     map_option me_value (DecodeMemTableEntry packed)
   }"

definition MemTableIterator_Next :: "MemTable \<Rightarrow> SkipIterator \<Rightarrow> SkipIterator option" where
  "MemTableIterator_Next table iterator = SkipIterator_Next (mt_table table) iterator"

definition MemTableIterator_Prev :: "comparator \<Rightarrow> MemTable \<Rightarrow> SkipIterator \<Rightarrow> SkipIterator option" where
  "MemTableIterator_Prev user_comparator table iterator =
     SkipIterator_Prev (EntryCompare user_comparator) (mt_table table) iterator"

definition MemTableIterator_Seek :: "comparator \<Rightarrow> MemTable \<Rightarrow> bytes \<Rightarrow> SkipIterator option" where
  "MemTableIterator_Seek user_comparator table internal_key =
     SkipIterator_Seek (EntryCompareKey user_comparator) (mt_table table) internal_key"

definition MemTableIterator_SeekToFirst :: "MemTable \<Rightarrow> SkipIterator option" where
  "MemTableIterator_SeekToFirst table = SkipIterator_SeekToFirst (mt_table table)"

definition MemTableIterator_SeekToLast :: "comparator \<Rightarrow> MemTable \<Rightarrow> SkipIterator option" where
  "MemTableIterator_SeekToLast user_comparator table =
     SkipIterator_SeekToLast (EntryCompare user_comparator) (mt_table table)"

text \<open>A pin is whether it still refers to the table; a moved-from pin does not.\<close>

definition MemTable_PinRead :: "MemTable \<Rightarrow> bool \<times> MemTable" where
  "MemTable_PinRead table = (True, table\<lparr>mt_read_pins := mt_read_pins table + 1\<rparr>)"

definition MemTablePin_move :: "bool \<Rightarrow> bool \<times> bool" where
  "MemTablePin_move source = (source, False)"

definition MemTablePin_destroy :: "bool \<Rightarrow> MemTable \<Rightarrow> MemTable" where
  "MemTablePin_destroy pin table =
     (if pin then table\<lparr>mt_read_pins := mt_read_pins table - 1\<rparr> else table)"

section \<open>Writes\<close>

text \<open>What a table was given: sequence, kind, key and value of each write.\<close>

record Write =
  w_sequence :: SequenceNumber
  w_kind :: ValueKind
  w_key :: bytes
  w_value :: bytes

definition write_fits :: "Write \<Rightarrow> bool" where
  "write_fits w \<longleftrightarrow> w_sequence w \<le> MaxSequenceNumber \<and> IsValidValueKind (w_kind w) \<and>
     length (w_key w) + 8 < 2 ^ 32 \<and> length (w_value w) < 2 ^ 32"

definition write_key :: "Write \<Rightarrow> bytes" where
  "write_key w = EncodeInternalKeyTrusted (w_key w) (w_sequence w) (w_kind w)"

definition packed :: "Write \<Rightarrow> bytes" where
  "packed w = EncodeLengthPrefixedTrusted (write_key w) @ EncodeLengthPrefixedTrusted (w_value w)"

fun AddAll :: "new_array \<Rightarrow> comparator \<Rightarrow> MemTable \<Rightarrow> Write list \<Rightarrow> MemTable option" where
  "AddAll new c table [] = Some table"
| "AddAll new c table (w # ws) = do {
     table' \<leftarrow> MemTable_Add new c table (w_sequence w) (w_kind w) (w_key w) (w_value w);
     AddAll new c table' ws
   }"

text \<open>The allocator refuses a block that adding the write asks for, given the blocks in use at that point: the one for the
  entry, or after the entry was allocated the one for its node.  A sequence of writes stops at the first of them.\<close>

definition allocation_refused :: "new_array \<Rightarrow> MemTable \<Rightarrow> Write \<Rightarrow> bool" where
  "allocation_refused new table w \<longleftrightarrow>
     (let bytes = of_nat (length (packed w))
      in case Allocate new (mt_arena table) bytes of
           None \<Rightarrow> new (ar_blocks (mt_arena table)) (requested_block bytes) = None
         | Some (_, arena) \<Rightarrow> new (ar_blocks arena) BlockSize = None)"

fun refused_in :: "new_array \<Rightarrow> comparator \<Rightarrow> MemTable \<Rightarrow> Write list \<Rightarrow> bool" where
  "refused_in new c table [] = False"
| "refused_in new c table (w # ws) =
     (case MemTable_Add new c table (w_sequence w) (w_kind w) (w_key w) (w_value w) of
        None \<Rightarrow> allocation_refused new table w
      | Some table' \<Rightarrow> refused_in new c table' ws)"

definition visible :: "comparator \<Rightarrow> bytes \<Rightarrow> SequenceNumber \<Rightarrow> Write \<Rightarrow> bool" where
  "visible c user_key sequence w \<longleftrightarrow> Compare c (w_key w) user_key = 0 \<and> w_sequence w \<le> sequence"

definition lookup_of :: "Write \<Rightarrow> MemTableLookup" where
  "lookup_of w =
     (if w_kind w = Deletion then \<lparr>ml_kind = LookupDeletion, ml_value = []\<rparr>
      else \<lparr>ml_kind = LookupValue, ml_value = w_value w\<rparr>)"

lemma packed_decodes:
  assumes "write_fits w"
  shows "DecodeMemTableInternalKey (packed w) = Some (write_key w)"
    and "DecodeMemTableEntry (packed w) = Some \<lparr>me_internal_key = write_key w, me_value = w_value w\<rparr>"
proof -
  have key: "ConsumeLengthPrefixedTrusted (packed w) = Some (write_key w, EncodeLengthPrefixedTrusted (w_value w))"
    using assms unfolding packed_def
    by (intro ConsumeLengthPrefixedTrusted_Encode) (simp add: write_fits_def write_key_def)
  have "ConsumeLengthPrefixedTrusted (EncodeLengthPrefixedTrusted (w_value w) @ []) = Some (w_value w, [])"
    using assms by (intro ConsumeLengthPrefixedTrusted_Encode) (simp add: write_fits_def)
  then show "DecodeMemTableInternalKey (packed w) = Some (write_key w)"
    "DecodeMemTableEntry (packed w) = Some \<lparr>me_internal_key = write_key w, me_value = w_value w\<rparr>"
    by (simp_all add: DecodeMemTableInternalKey_def DecodeMemTableEntry_def key)
qed

lemma EncodedMemTableEntrySize_exact:
  "EncodedMemTableEntrySize (w_key w) (w_value w) = length (packed w)"
  "EncodeVarintTrusted (of_nat (length (w_key w) + InternalKeyTrailerSize) :: u32) @ write_key w @
     EncodeLengthPrefixedTrusted (w_value w) = packed w"
  by (simp_all add: EncodedMemTableEntrySize_def packed_def EncodeLengthPrefixedTrusted_def write_key_def
      VarintLengthTrusted_length InternalKeyTrailerSize_def Let_def)


lemma NodeStorageSize_small:
  assumes "height \<le> MaxHeight"
  shows "requested_block (NodeStorageSize height) = BlockSize"
proof -
  have "NodeStorageSize height \<le> DedicatedAllocationThreshold"
    using assms by (simp add: MaxHeight_def NodeStorageSize_def LinksOffset_def DedicatedAllocationThreshold_def
        BlockSize_def word_le_nat_alt unat_word_ariths unat_of_nat)
  then show ?thesis by (auto simp: requested_block_def ShouldAllocateDedicated_def)
qed

section \<open>The order of entries\<close>

definition decodable :: "bytes set" where
  "decodable = {entry. DecodeMemTableInternalKey entry \<noteq> None}"

lemma packed_decodable: "write_fits w \<Longrightarrow> packed w \<in> decodable"
  by (simp add: decodable_def packed_decodes)

lemma EntryCompare_packed:
  assumes "write_fits w"
  shows "EntryCompareKey c (packed w) key = InternalKeyCompare c (write_key w) key"
    and "write_fits v \<Longrightarrow> EntryCompare c (packed w) (packed v) = InternalKeyCompare c (write_key w) (write_key v)"
  using assms by (simp_all add: EntryCompareKey_def EntryCompare_def packed_decodes)

sublocale user_comparator_laws \<subseteq> entries: entry_order "EntryCompare c" decodable
proof unfold_locales
  fix x y z
  assume "x \<in> decodable" "y \<in> decodable" "z \<in> decodable"
  moreover assume "EntryCompare c x y \<le> 0" "EntryCompare c y z \<le> 0"
  ultimately show "EntryCompare c x z \<le> 0"
    by (auto simp: decodable_def EntryCompare_def EntryCompareKey_def intro: internal_trans)
next
  fix x y
  assume "x \<in> decodable" "y \<in> decodable"
  then show "sgn (EntryCompare c y x) = - sgn (EntryCompare c x y)"
    by (auto simp: decodable_def EntryCompare_def EntryCompareKey_def intro: internal_antisym)
qed

lemma trailer_sequences:
  assumes "s \<le> MaxSequenceNumber" "s' \<le> MaxSequenceNumber" "PackInternalKeyTrailer s k \<le> PackInternalKeyTrailer s' k'"
  shows "s \<le> s'"
  using assms PackInternalKeyTrailer_less [OF assms(2,1), of k' k] by (metis not_le)

context user_comparator_laws
begin

definition contains :: "MemTable \<Rightarrow> Write list \<Rightarrow> bool" where
  "contains table ws \<longleftrightarrow>
     (\<exists>rows. entries.holds (mt_table table) rows) \<and> set (Entries (mt_table table)) = packed ` set ws \<and>
     (\<forall>w \<in> set ws. write_fits w)"

lemma contains_New:
  assumes "MemTable_New new = Some table"
  shows "contains table []"
proof -
  have "mt_table table = SkipList_New []"
    using assms by (cases "AllocateAligned new Arena_New (NodeStorageSize MaxHeight)") (auto simp: MemTable_New_def)
  then show ?thesis
    using entries.holds_New entries.holds_Entries(3) [OF entries.holds_New] by (auto simp: contains_def Entries_def)
qed

lemma distinct_writes_differ:
  assumes "write_fits w" "write_fits v" "w_sequence w \<noteq> w_sequence v"
  shows "EntryCompare c (packed w) (packed v) \<noteq> 0"
proof
  assume "EntryCompare c (packed w) (packed v) = 0"
  then have "PackInternalKeyTrailer (w_sequence w) (w_kind w) = PackInternalKeyTrailer (w_sequence v) (w_kind v)"
    using assms by (simp add: EntryCompare_packed InternalKeyCompare_eq_0 write_key_def)
  then show False
    using assms trailer_sequences by (metis antisym order_refl write_fits_def)
qed

lemma contains_Add:
  assumes table: "contains table ws" and w: "write_fits w" "w_sequence w \<notin> w_sequence ` set ws"
  shows "case MemTable_Add new c table (w_sequence w) (w_kind w) (w_key w) (w_value w) of
      None \<Rightarrow> allocation_refused new table w | Some table' \<Rightarrow> contains table' (ws @ [w])"
proof -
  obtain rows where h: "entries.holds (mt_table table) rows" and set: "set (Entries (mt_table table)) = packed ` set ws"
    and fits: "\<forall>w \<in> set ws. write_fits w" using table unfolding contains_def by blast
  have fresh: "\<forall>x \<in> set (Entries (mt_table table)). EntryCompare c x (packed w) \<noteq> 0"
  proof
    fix x
    assume "x \<in> set (Entries (mt_table table))"
    then obtain v where v: "v \<in> set ws" "x = packed v" using set by blast
    then have "w_sequence v \<noteq> w_sequence w" using w(2) by (metis image_eqI)
    with distinct_writes_differ fits v w(1) show "EntryCompare c x (packed w) \<noteq> 0" by simp
  qed
  obtain list' rows' where ins: "SkipList_Insert (EntryCompare c) (mt_table table) (packed w) = Some list'"
      "entries.holds list' rows'"
      "Entries list' = filter (\<lambda>x. EntryCompare c x (packed w) < 0) (Entries (mt_table table)) @ packed w #
        filter (\<lambda>x. \<not> EntryCompare c x (packed w) < 0) (Entries (mt_table table))"
    by (rule entries.holds_Insert [OF h packed_decodable [OF w(1)] fresh])
  have set': "set (Entries list') = packed ` set (ws @ [w])" unfolding ins(3) using set by auto
  let ?entry = "Allocate new (mt_arena table) (of_nat (length (packed w)))"
  let ?height = "fst (RandomHeight (mt_table table))"
  have enc: "EncodeMemTableEntry new (mt_arena table) (w_sequence w) (w_kind w) (w_key w) (w_value w)
      (EncodedMemTableEntrySize (w_key w) (w_value w)) = map_option (\<lambda>(address, arena1). (packed w, arena1)) ?entry"
    unfolding EncodeMemTableEntry_def Let_def write_key_def [symmetric] EncodedMemTableEntrySize_exact
    by (cases ?entry) auto
  show ?thesis
  proof (cases ?entry)
    case None
    then have "allocation_refused new table w"
      using Allocate_None(1) [OF None] by (simp add: allocation_refused_def)
    with None enc show ?thesis by (simp add: MemTable_Add_def)
  next
    case (Some allocated)
    obtain address arena1 where alloc: "?entry = Some (address, arena1)" using Some by (cases allocated) simp
    show ?thesis
    proof (cases "AllocateAligned new arena1 (NodeStorageSize ?height)")
      case None
      have "requested_block (NodeStorageSize ?height) = BlockSize"
        by (rule NodeStorageSize_small, rule RandomHeight_bounds(2), rule prod.collapse [symmetric])
      then have "allocation_refused new table w"
        using Allocate_None(2) [OF None] alloc by (simp add: allocation_refused_def)
      with None alloc enc show ?thesis by (simp add: MemTable_Add_def)
    next
      case (Some node)
      then have "MemTable_Add new c table (w_sequence w) (w_kind w) (w_key w) (w_value w) =
          Some (table\<lparr>mt_arena := snd node, mt_table := list'\<rparr>)"
        using enc ins(1) alloc by (cases node) (simp add: MemTable_Add_def)
      then show ?thesis using ins(2) set' fits w(1) by (auto simp: contains_def)
    qed
  qed
qed

lemma contains_AddAll:
  assumes "contains table ws" "\<forall>w \<in> set vs. write_fits w" "distinct (map w_sequence (ws @ vs))"
  shows "case AddAll new c table vs of None \<Rightarrow> refused_in new c table vs | Some table' \<Rightarrow> contains table' (ws @ vs)"
  using assms
proof (induction vs arbitrary: table ws)
  case (Cons v vs)
  have v: "write_fits v" "w_sequence v \<notin> w_sequence ` set ws" using Cons.prems by auto
  show ?case
  proof (cases "MemTable_Add new c table (w_sequence v) (w_kind v) (w_key v) (w_value v)")
    case None
    with contains_Add [OF Cons.prems(1) v, of new] show ?thesis by simp
  next
    case (Some table1)
    with contains_Add [OF Cons.prems(1) v, of new] have "contains table1 (ws @ [v])" by simp
    from Cons.IH [OF this] Cons.prems Some show ?thesis by (simp split: option.splits)
  qed
qed simp

end


context user_comparator_laws
begin

lemma write_before_target:
  assumes "write_fits w" "s \<le> MaxSequenceNumber"
  shows "EntryCompareKey c (packed w) (EncodeInternalKeyTrusted user_key s SeekValueKind) < 0 \<longleftrightarrow>
     Compare c (w_key w) user_key < 0 \<or> Compare c (w_key w) user_key = 0 \<and> s < w_sequence w"
  using assms entry_before_seek [of "w_sequence w" s "w_kind w" "w_key w" user_key]
  by (simp add: EntryCompare_packed(1) write_key_def write_fits_def)

lemma contains_seek:
  assumes table: "contains table ws"
  shows "\<exists>node. SkipIterator_Seek (EntryCompareKey c) (mt_table table) target = Some node \<and>
     SkipIterator_entry (mt_table table) node =
       list_first (dropWhile (\<lambda>x. EntryCompareKey c x target < 0) (Entries (mt_table table)))"
proof -
  obtain rows where h: "entries.holds (mt_table table) rows" using table by (auto simp: contains_def)
  have "cuts (below (EntryCompareKey c) (mt_table table) target) rows"
    unfolding cuts_def
  proof (rule sorted_wrt_mono_rel)
    show "sorted_wrt (\<lambda>m n. EntryCompare c (entry_at (mt_table table) m) (entry_at (mt_table table) n) < 0) (rows 0)"
      using h by (simp add: entries.holds_def)
    fix m n
    let ?x = "entry_at (mt_table table) m" and ?y = "entry_at (mt_table table) n"
    assume "m \<in> set (rows 0)" "n \<in> set (rows 0)"
    then have "?x \<in> decodable" "?y \<in> decodable" using h by (auto simp: entries.holds_def)
    then obtain kx ky where "DecodeMemTableInternalKey ?x = Some kx" "DecodeMemTableInternalKey ?y = Some ky"
      by (auto simp: decodable_def)
    moreover assume "EntryCompare c ?x ?y < 0"
    ultimately show "EntryCompareKey c ?y target < 0 \<longrightarrow> EntryCompareKey c ?x target < 0"
      by (auto simp: EntryCompare_def EntryCompareKey_def intro: internal_less_trans)
  qed
  then show ?thesis using h by (intro Seek_first) (auto simp: entries.holds_def)
qed

end


definition newest_visible :: "comparator \<Rightarrow> Write list \<Rightarrow> bytes \<Rightarrow> SequenceNumber \<Rightarrow> MemTableLookup \<Rightarrow> bool" where
  "newest_visible c ws user_key s answer \<longleftrightarrow>
     (if \<exists>w \<in> set ws. visible c user_key s w
      then \<exists>w \<in> set ws. visible c user_key s w \<and> answer = lookup_of w \<and>
             (\<forall>v \<in> set ws. visible c user_key s v \<longrightarrow> w_sequence v \<le> w_sequence w)
      else answer = \<lparr>ml_kind = LookupMissing, ml_value = []\<rparr>)"

lemma Classify_packed:
  "write_fits w \<Longrightarrow> ClassifyMemTableEntry \<lparr>me_internal_key = write_key w, me_value = w_value w\<rparr> = lookup_of w"
  by (simp add: ClassifyMemTableEntry_def lookup_of_def write_key_def write_fits_def)

context user_comparator_laws
begin

text \<open>The entry a seek stops at, and every write that is visible at the target, which cannot lie before it.\<close>

lemma stop_before_visible:
  assumes table: "contains table ws" and s: "s \<le> MaxSequenceNumber"
    and stop: "dropWhile (\<lambda>x. EntryCompareKey c x (EncodeInternalKeyTrusted user_key s SeekValueKind) < 0)
        (Entries (mt_table table)) = packed w # rest" "w \<in> set ws"
    and v: "v \<in> set ws" "visible c user_key s v"
  shows "InternalKeyCompare c (write_key w) (write_key v) \<le> 0"
proof -
  let ?P = "\<lambda>x. EntryCompareKey c x (EncodeInternalKeyTrusted user_key s SeekValueKind) < 0"
  let ?es = "Entries (mt_table table)"
  have fits: "write_fits v" "write_fits w" using table stop(2) v(1) by (auto simp: contains_def)
  have "\<not> ?P (packed v)"
    using write_before_target [OF fits(1) s] v(2) by (auto simp: visible_def)
  moreover have "packed v \<in> set ?es" using table v(1) by (simp add: contains_def)
  moreover have "?es = takeWhile ?P ?es @ packed w # rest" using takeWhile_dropWhile_id [of ?P ?es] stop(1) by simp
  ultimately have "packed v \<in> set (packed w # rest)" by (metis Un_iff set_append set_takeWhileD)
  moreover obtain rows where "entries.holds (mt_table table) rows" using table by (auto simp: contains_def)
  from entries.holds_Entries(1) [OF this] have "sorted_wrt (\<lambda>x y. EntryCompare c x y < 0) (packed w # rest)"
    using \<open>?es = _\<close> by (metis sorted_wrt_append)
  ultimately have "packed v = packed w \<or> EntryCompare c (packed w) (packed v) < 0" by auto
  then show ?thesis
  proof
    assume "packed v = packed w"
    then have "write_key v = write_key w" using packed_decodes(1) fits by (metis option.inject)
    then show ?thesis using internal.compare_refl by (simp add: write_key_def)
  qed (use fits EntryCompare_packed(2) in auto)
qed

lemma contains_lookup:
  assumes table: "contains table ws" and s: "s \<le> MaxSequenceNumber"
  shows "\<exists>answer. MemTable_Lookup c table (LookupKey_CreateTrusted user_key s) = Some answer \<and>
     newest_visible c ws user_key s answer"
proof -
  let ?target = "EncodeInternalKeyTrusted user_key s SeekValueKind"
  let ?stop = "dropWhile (\<lambda>x. EntryCompareKey c x ?target < 0) (Entries (mt_table table))"
  have fits: "write_fits w" if "w \<in> set ws" for w using table that by (simp add: contains_def)
  obtain node where seek: "SkipIterator_Seek (EntryCompareKey c) (mt_table table) ?target = Some node"
    and entry: "SkipIterator_entry (mt_table table) node = list_first ?stop"
    using contains_seek [OF table, of ?target] by blast
  have valid: "SkipIterator_valid node \<longleftrightarrow> ?stop \<noteq> []"
    using entry by (cases ?stop; cases node) (auto simp: SkipIterator_valid_def SkipIterator_entry_def)
  show ?thesis
  proof (cases ?stop)
    case Nil
    have "\<not> visible c user_key s w" if "w \<in> set ws" for w
    proof -
      have "packed w \<in> set (Entries (mt_table table))" using table that by (simp add: contains_def)
      then have "EntryCompareKey c (packed w) ?target < 0" using Nil by (auto simp: dropWhile_eq_Nil_conv)
      then show ?thesis using write_before_target [OF fits [OF that] s] by (auto simp: visible_def)
    qed
    then show ?thesis
      using Nil seek valid by (simp add: MemTable_Lookup_def LookupKey_CreateTrusted_views newest_visible_def)
  next
    case (Cons x rest)
    have "x \<in> set (Entries (mt_table table))" using Cons by (metis list.set_intros(1) set_dropWhileD)
    then obtain w where w: "w \<in> set ws" "x = packed w" using table by (auto simp: contains_def)
    have "\<not> EntryCompareKey c (packed w) ?target < 0" using Cons w(2) by (metis hd_dropWhile list.discI list.sel(1))
    then have at: "\<not> Compare c (w_key w) user_key < 0" "Compare c (w_key w) user_key = 0 \<Longrightarrow> w_sequence w \<le> s"
      using write_before_target [OF fits [OF w(1)] s] by auto
    let ?answer = "if Compare c (w_key w) user_key = 0 then lookup_of w else \<lparr>ml_kind = LookupMissing, ml_value = []\<rparr>"
    have "MemTable_Lookup c table (LookupKey_CreateTrusted user_key s) = Some ?answer"
      using seek entry valid Cons w fits packed_decodes(2) Classify_packed
      by (simp add: MemTable_Lookup_def LookupKey_CreateTrusted_views MatchesMemTableUserKey_def write_key_def)
    moreover have newest: "Compare c (w_key w) user_key = 0 \<and> w_sequence v \<le> w_sequence w" if v: "v \<in> set ws" "visible c user_key s v" for v
    proof -
      have vk: "Compare c (w_key v) user_key = 0" using v(2) by (simp add: visible_def)
      have le: "InternalKeyCompare c (write_key w) (write_key v) \<le> 0"
        using stop_before_visible [OF table s _ w(1) v] Cons w(2) by simp
      then have "\<not> Compare c (w_key w) (w_key v) < 0"
        using at(1) vk compare_less_le_trans [of "w_key w" "w_key v" user_key] by auto
      with le have "Compare c (w_key w) (w_key v) = 0"
        and "PackInternalKeyTrailer (w_sequence v) (w_kind v) \<le> PackInternalKeyTrailer (w_sequence w) (w_kind w)"
        by (auto simp: InternalKeyCompare_le write_key_def)
      moreover have "w_sequence v \<le> MaxSequenceNumber" "w_sequence w \<le> MaxSequenceNumber"
        using fits w(1) v(1) by (auto simp: write_fits_def)
      ultimately show ?thesis
        using vk compare_eq_trans [of "w_key w" "w_key v" user_key] trailer_sequences by blast
    qed
    have "newest_visible c ws user_key s ?answer"
    proof (cases "Compare c (w_key w) user_key = 0")
      case True
      then have "visible c user_key s w" using at(2) by (simp add: visible_def)
      then show ?thesis using True w(1) newest unfolding newest_visible_def by force
    next
      case False
      then show ?thesis using newest unfolding newest_visible_def by force
    qed
    ultimately show ?thesis by blast
  qed
qed

end


section \<open>Properties\<close>

text \<open>C14: A lookup answers with the newest visible version.  After any writes with their own sequence numbers, a
  lookup of a user key at a snapshot returns, and it reports the value or deletion of the write of that key
  with the greatest sequence not above the snapshot, or that there is none.  Keys are the same when the user
  comparator says so.  Nothing is assumed of the allocator: creating the table fails only when the block of the
  head node is refused, and the writes fail only when a block that one of them asks for is refused, so that
  packing always fits the space it computes and linking never follows a missing node.\<close>

theorem memtable_lookup:
  assumes "user_comparator_laws c" "\<forall>w \<in> set ws. write_fits w" "distinct (map w_sequence ws)"
    and "s \<le> MaxSequenceNumber"
  shows "case MemTable_New new of
      None \<Rightarrow> new [] BlockSize = None
    | Some table0 \<Rightarrow>
        (case AddAll new c table0 ws of
           None \<Rightarrow> refused_in new c table0 ws
         | Some table \<Rightarrow> \<exists>answer. MemTable_Lookup c table (LookupKey_CreateTrusted user_key s) = Some answer \<and>
             newest_visible c ws user_key s answer)"
proof (cases "MemTable_New new")
  case None
  then have "AllocateAligned new Arena_New (NodeStorageSize MaxHeight) = None"
    by (auto simp: MemTable_New_def bind_eq_None_conv split: prod.splits)
  from Allocate_None(2) [OF this] None show ?thesis by (simp add: NodeStorageSize_small Arena_New_def)
next
  case (Some table0)
  have "user_comparator_laws.contains c table0 []" by (rule user_comparator_laws.contains_New [OF assms(1) Some])
  from user_comparator_laws.contains_AddAll [OF assms(1) this assms(2), of new] assms(3)
    user_comparator_laws.contains_lookup [OF assms(1) _ assms(4), of _ ws user_key] Some
  show ?thesis by (simp split: option.splits)
qed

definition demo_writes :: "Write list" where
  "demo_writes = [\<lparr>w_sequence = 1, w_kind = Value, w_key = [97], w_value = [5]\<rparr>,
     \<lparr>w_sequence = 2, w_kind = Deletion, w_key = [97], w_value = []\<rparr>]"

lemma demo_writes_run:
  "case MemTable_New demo_new of None \<Rightarrow> False | Some table0 \<Rightarrow> AddAll demo_new BytewiseComparator table0 demo_writes \<noteq> None"
  by code_simp

theorem memtable_lookup_witness:
  "sound_new demo_new \<and>
   (\<exists>table0 table. MemTable_New demo_new = Some table0 \<and> AddAll demo_new BytewiseComparator table0 demo_writes = Some table \<and>
     MemTable_Lookup BytewiseComparator table (LookupKey_CreateTrusted [97] 1) = Some \<lparr>ml_kind = LookupValue, ml_value = [5]\<rparr> \<and>
     MemTable_Lookup BytewiseComparator table (LookupKey_CreateTrusted [97] 2) = Some \<lparr>ml_kind = LookupDeletion, ml_value = []\<rparr>)"
proof -
  obtain table0 table where run: "MemTable_New demo_new = Some table0"
      "AddAll demo_new BytewiseComparator table0 demo_writes = Some table"
    using demo_writes_run by (auto split: option.splits)
  have fits: "\<forall>w \<in> set demo_writes. write_fits w" "distinct (map w_sequence demo_writes)"
    by (simp_all add: demo_writes_def write_fits_def MaxSequenceNumber_def IsValidValueKind_def)
  have s: "1 \<le> MaxSequenceNumber" "2 \<le> MaxSequenceNumber" by (simp_all add: MaxSequenceNumber_def)
  from memtable_lookup [OF bytewise.user_comparator_laws_axioms fits s(1), of demo_new "[97]"] run
  obtain answer1 where a1: "MemTable_Lookup BytewiseComparator table (LookupKey_CreateTrusted [97] 1) = Some answer1"
    "newest_visible BytewiseComparator demo_writes [97] 1 answer1" by auto
  from memtable_lookup [OF bytewise.user_comparator_laws_axioms fits s(2), of demo_new "[97]"] run
  obtain answer2 where a2: "MemTable_Lookup BytewiseComparator table (LookupKey_CreateTrusted [97] 2) = Some answer2"
    "newest_visible BytewiseComparator demo_writes [97] 2 answer2" by auto
  have "answer1 = \<lparr>ml_kind = LookupValue, ml_value = [5]\<rparr>" "answer2 = \<lparr>ml_kind = LookupDeletion, ml_value = []\<rparr>"
    using a1(2) a2(2)
    by (auto simp: demo_writes_def newest_visible_def visible_def lookup_of_def bytewise.compare_refl word_le_nat_alt)
  with run a1(1) a2(1) sound_demo_new show ?thesis by blast
qed

end
