(* ===== verification/Skip_List_Readers.thy ===== *)
theory Skip_List_Readers
  imports Skip_List
begin

text \<open>
  Readers that run beside the single writer of a skip list (\<^verbatim>\<open>src/memory/skiplist.h\<close>).  The writer's insertion is split
  at its stores into shared memory: publishing the height, storing the new node's own link of a level, and
  storing the predecessor's link.  A search is split at its link loads: each iteration of its loop does one.
  Any interleaving of these steps is a run; loads and stores of a link are atomic, and the release and
  acquire order of the source makes a node's entry and link visible with the store that publishes it.
\<close>

section \<open>Runs\<close>

text \<open>The writer between two stores: the new node, the predecessors, its height and the level it is at.
  \<open>Publishing\<close> is the point between the two stores of \<^verbatim>\<open>LinkNodeAtLevel\<close>.\<close>

datatype Writer =
    Idle
  | Linking nat "nat option list" nat nat
  | Publishing nat "nat option list" nat nat

text \<open>Drawing the height and filling the new node touch only memory no reader can reach, so they are one step
  with the store of the height.\<close>

inductive writer_step :: "('e \<Rightarrow> 'e \<Rightarrow> int) \<Rightarrow> 'e set \<Rightarrow> 'e SkipList \<times> Writer \<Rightarrow> 'e SkipList \<times> Writer \<Rightarrow> bool"
  for compare D where
  writer_begin:
    "FindGreaterOrEqual compare list entry (Some (replicate MaxHeight None)) = Some (found, Some predecessors) \<Longrightarrow>
     entry \<in> D \<Longrightarrow> (\<forall>x \<in> set (Entries list). compare x entry \<noteq> 0) \<Longrightarrow>
     RandomHeight list = (height, list1) \<Longrightarrow> NewNode list1 entry height = (node, list2) \<Longrightarrow>
     writer_step compare D (list, Idle)
       (PublishHeightIfNeeded list2 height (sl_max_height list1),
        Linking node (PreparePredecessorsForHeight predecessors (sl_max_height list1) height) height 0)"
| writer_own_link:
    "level < height \<Longrightarrow> predecessors ! level = Some predecessor \<Longrightarrow>
     LinkAt list predecessor level = Some target \<Longrightarrow> SetNext list node level target = Some list1 \<Longrightarrow>
     writer_step compare D (list, Linking node predecessors height level)
       (list1, Publishing node predecessors height level)"
| writer_publish:
    "predecessors ! level = Some predecessor \<Longrightarrow> SetNext list predecessor level (Some node) = Some list1 \<Longrightarrow>
     writer_step compare D (list, Publishing node predecessors height level)
       (list1, Linking node predecessors height (Suc level))"
| writer_end:
    "writer_step compare D (list, Linking node predecessors height height) (list, Idle)"

text \<open>A reader remembers, for the statement below only, the entries when it started and when it did its last load.\<close>

datatype 'e Reader =
    Waiting
  | Searching Search "'e list"
  | Found "nat option" "'e list" "'e list"

inductive system_step ::
    "('e \<Rightarrow> 'e \<Rightarrow> int) \<Rightarrow> 'e set \<Rightarrow> ('e \<Rightarrow> 't \<Rightarrow> int) \<Rightarrow> 't \<Rightarrow>
      'e SkipList \<times> Writer \<times> 'e Reader \<Rightarrow> 'e SkipList \<times> Writer \<times> 'e Reader \<Rightarrow> bool"
  for compare D seek target where
  system_writer:
    "writer_step compare D (list, w) (list', w') \<Longrightarrow>
     system_step compare D seek target (list, w, r) (list', w', r)"
| system_start:
    "system_step compare D seek target (list, w, Waiting)
       (list, w, Searching \<lparr>se_node = 0, se_last_not_less = None, se_level = sl_max_height list - 1\<rparr> (Entries list))"
| system_search:
    "SearchStep seek list target (search, None) = Some (Inr (search', None)) \<Longrightarrow>
     system_step compare D seek target (list, w, Searching search first) (list, w, Searching search' first)"
| system_found:
    "SearchStep seek list target (search, None) = Some (Inl (node, None)) \<Longrightarrow>
     system_step compare D seek target (list, w, Searching search first) (list, w, Found node first (Entries list))"

inductive system_run ::
    "('e \<Rightarrow> 'e \<Rightarrow> int) \<Rightarrow> 'e set \<Rightarrow> ('e \<Rightarrow> 't \<Rightarrow> int) \<Rightarrow> 't \<Rightarrow> 'e \<Rightarrow> 'e SkipList \<times> Writer \<times> 'e Reader \<Rightarrow> bool"
  for compare D seek target empty_entry where
  run_start: "system_run compare D seek target empty_entry (SkipList_New empty_entry, Idle, Waiting)"
| run_step: "system_run compare D seek target empty_entry s \<Longrightarrow> system_step compare D seek target s s' \<Longrightarrow>
    system_run compare D seek target empty_entry s'"

section \<open>The writer's steps keep every row usable\<close>

lemma linking_own_link:
  assumes lk: "linking list lt rows node height k" and k: "k < height"
    and set: "SetNext list node k target = Some list1"
  shows "linking list1 lt rows node height k"
proof -
  have "linked list1 l 0 (rows_upto lt node rows k l)" if "l < MaxHeight" for l
  proof -
    have "linked list l 0 (rows_upto lt node rows k l)" using lk that by (simp add: linking_def wf_list_def)
    moreover have "node \<notin> set (0 # rows_upto lt node rows k l)" if "l = k"
      using linking_row(1,3) [OF lk le_refl] that by simp
    ultimately show ?thesis
      using linked_cong [of 0 "rows_upto lt node rows k l" list1 l list] LinkAt_SetNext [OF set] by metis
  qed
  moreover have "same_shape list list1" by (rule SetNext_same_shape [OF set])
  ultimately show ?thesis using lk by (simp add: linking_def wf_list_def same_shape_def)
qed

context entry_order
begin

text \<open>An insertion in progress: what was there before it, the entry, and the levels linked so far.\<close>

definition inserting :: "'e SkipList \<Rightarrow> nat \<Rightarrow> nat option list \<Rightarrow> nat \<Rightarrow> nat \<Rightarrow> (nat \<Rightarrow> nat list) \<Rightarrow> bool" where
  "inserting list node predecessors height k rows \<longleftrightarrow>
     (\<exists>list0 rows0 entry. holds list0 rows0 \<and> entry \<in> D \<and> (\<forall>x \<in> set (Entries list0). compare x entry \<noteq> 0) \<and>
        rows = rows_upto (below compare list0 entry) node rows0 k \<and>
        linking list (below compare list0 entry) rows0 node height k \<and>
        (\<forall>l < height. predecessors ! l = Some (cut_node (below compare list0 entry) rows0 l)) \<and>
        entry_at list node = entry \<and> (\<forall>n \<in> set (rows0 0). entry_at list n = entry_at list0 n))"

definition writer_ok :: "'e SkipList \<Rightarrow> Writer \<Rightarrow> (nat \<Rightarrow> nat list) \<Rightarrow> bool" where
  "writer_ok list w rows \<longleftrightarrow>
     (case w of Idle \<Rightarrow> holds list rows
      | Linking node predecessors height k \<Rightarrow> inserting list node predecessors height k rows
      | Publishing node predecessors height k \<Rightarrow>
          k < height \<and> (\<exists>list1 pred target. predecessors ! k = Some pred \<and> inserting list1 node predecessors height k rows \<and>
            LinkAt list1 pred k = Some target \<and> SetNext list1 node k target = Some list))"

lemma inserting_holds: "inserting list node predecessors height k rows \<Longrightarrow> holds list rows"
  unfolding inserting_def using holds_linking by blast

lemma inserting_own_link:
  assumes "inserting list node predecessors height k rows" "k < height" "SetNext list node k target = Some list1"
  shows "inserting list1 node predecessors height k rows"
  using assms linking_own_link [OF _ assms(2,3)] SetNext_frame(2) [OF assms(3)] unfolding inserting_def by metis

lemma writer_ok_holds:
  assumes "writer_ok list w rows"
  shows "holds list rows"
  using assms
proof (cases w)
  case (Publishing node predecessors height k)
  with assms obtain list1 target where "inserting list1 node predecessors height k rows" "k < height"
    "SetNext list1 node k target = Some list" by (auto simp: writer_ok_def)
  then show ?thesis using inserting_own_link inserting_holds by blast
qed (auto simp: writer_ok_def intro: inserting_holds)

definition grows :: "'e SkipList \<Rightarrow> (nat \<Rightarrow> nat list) \<Rightarrow> 'e SkipList \<Rightarrow> (nat \<Rightarrow> nat list) \<Rightarrow> bool" where
  "grows list rows list' rows' \<longleftrightarrow>
     (\<forall>l. set (rows l) \<subseteq> set (rows' l)) \<and> (\<forall>n \<in> set (rows 0). entry_at list' n = entry_at list n)"

lemma writer_begin_ok:
  assumes h: "holds list rows" and e: "entry \<in> D" and fresh: "\<forall>x \<in> set (Entries list). compare x entry \<noteq> 0"
    and search: "FindGreaterOrEqual compare list entry (Some (replicate MaxHeight None)) = Some (found, Some predecessors)"
    and random: "RandomHeight list = (height, list1)" and new: "NewNode list1 entry height = (node, list2)"
  defines "list3 \<equiv> PublishHeightIfNeeded list2 height (sl_max_height list1)"
  shows "inserting list3 node (PreparePredecessorsForHeight predecessors (sl_max_height list1) height) height 0 rows"
    and "grows list rows list3 rows"
proof -
  let ?lt = "below compare list entry"
  have wf: "wf_list list rows" using h by (simp add: holds_def)
  have preds: "predecessors = note_cut ?lt rows (sl_max_height list - 1) (replicate MaxHeight None)"
    using search holds_search [OF h e, of "Some (replicate MaxHeight None)"] by simp
  have len: "length predecessors = MaxHeight" by (simp add: preds)
  note start = prepare_insertion [OF wf holds_cuts [OF h e] len writer_predecessors [OF h e, folded preds] random]
  have list3: "list3 = allocate list1 entry height" "node = length (sl_nodes list)"
    using new RandomHeight_bounds(3) [OF random] by (auto simp: list3_def allocate_def NewNode_def)
  have entries: "entry_at list3 node = entry" "\<And>n. n \<in> set (rows 0) \<Longrightarrow> entry_at list3 n = entry_at list n"
    using wf start(3) [of entry] by (auto simp: list3 allocate_sel wf_list_def)
  have "rows_upto ?lt node rows 0 = rows" by (simp add: rows_upto_def)
  then show "inserting list3 node (PreparePredecessorsForHeight predecessors (sl_max_height list1) height) height 0 rows"
    unfolding inserting_def using h e fresh start(1) [of entry] start(2) entries list3 by (intro exI [of _ list] exI [of _ rows] exI [of _ entry]) auto
  show "grows list rows list3 rows" using entries(2) by (simp add: grows_def)
qed

lemma writer_publish_ok:
  assumes ok: "writer_ok list (Publishing node predecessors height k) rows"
    and pred: "predecessors ! k = Some predecessor" "SetNext list predecessor k (Some node) = Some list'"
  obtains rows' where "inserting list' node predecessors height (Suc k) rows'" "grows list rows list' rows'"
proof -
  obtain list1 target where ins: "inserting list1 node predecessors height k rows" and k: "k < height"
    and link: "LinkAt list1 predecessor k = Some target" and own: "SetNext list1 node k target = Some list"
    using ok pred(1) by (auto simp: writer_ok_def)
  obtain list0 rows0 entry where before: "holds list0 rows0" "entry \<in> D" "\<forall>x \<in> set (Entries list0). compare x entry \<noteq> 0"
      "rows = rows_upto (below compare list0 entry) node rows0 k"
    and lk: "linking list1 (below compare list0 entry) rows0 node height k"
    and preds: "\<forall>l < height. predecessors ! l = Some (cut_node (below compare list0 entry) rows0 l)"
    and entries: "entry_at list1 node = entry" "\<forall>n \<in> set (rows0 0). entry_at list1 n = entry_at list0 n"
    using ins unfolding inserting_def by blast
  let ?lt = "below compare list0 entry" and ?rows = "rows_upto (below compare list0 entry) node rows0 (Suc k)"
  have cut: "predecessor = cut_node ?lt rows0 k" using preds k pred(1) by simp
  have lk': "linking list' ?lt rows0 node height (Suc k)"
    using linking_step [OF lk k] link own pred(2) cut by (metis option.sel)
  have shape: "entry_at list' = entry_at list1" using SetNext_frame(2) [OF own] SetNext_frame(2) [OF pred(2)] by simp
  have "inserting list' node predecessors height (Suc k) ?rows"
    unfolding inserting_def using before lk' preds entries shape by (intro exI [of _ list0] exI [of _ rows0] exI [of _ entry]) simp
  moreover have "set (rows l) \<subseteq> set (?rows l)" for l
    by (auto simp: before(4) rows_upto_def splice_row_parts)
  then have "grows list rows list' ?rows" using SetNext_frame(2) [OF pred(2)] by (simp add: grows_def)
  ultimately show ?thesis by (rule that)
qed

lemma writer_step_ok:
  assumes "writer_step compare D (list, w) (list', w')" "writer_ok list w rows"
  shows "\<exists>rows'. writer_ok list' w' rows' \<and> grows list rows list' rows'"
  using assms
proof (cases rule: writer_step.cases)
  case (writer_begin entry found predecessors height list1 node list2)
  then show ?thesis
    using assms(2) writer_begin_ok [of list rows entry found predecessors height list1 node list2] by (auto simp: writer_ok_def)
next
  case (writer_own_link level height predecessors predecessor target node)
  then have "writer_ok list' w' rows" using assms(2) by (auto simp: writer_ok_def)
  then show ?thesis
    using SetNext_frame(2) [of list node level target list'] writer_own_link by (auto simp: grows_def)
next
  case (writer_publish predecessors level predecessor node height)
  then obtain rows' where "inserting list' node predecessors height (Suc level) rows'" "grows list rows list' rows'"
    using writer_publish_ok assms(2) by metis
  then show ?thesis using writer_publish by (auto simp: writer_ok_def)
next
  case (writer_end node predecessors height)
  then have "holds list' rows" using assms(2) inserting_holds by (auto simp: writer_ok_def)
  then show ?thesis using writer_end by (auto simp: writer_ok_def grows_def)
qed

end


section \<open>A search sees the list of its last load\<close>

text \<open>A target that respects the order of the entries.\<close>

definition monotone_seek :: "('e \<Rightarrow> 'e \<Rightarrow> int) \<Rightarrow> 'e set \<Rightarrow> ('e \<Rightarrow> 't \<Rightarrow> int) \<Rightarrow> 't \<Rightarrow> bool" where
  "monotone_seek compare D seek target \<longleftrightarrow>
     (\<forall>x \<in> D. \<forall>y \<in> D. compare x y < 0 \<longrightarrow> seek y target < 0 \<longrightarrow> seek x target < 0)"

context entry_order
begin

lemma seek_cuts:
  assumes "monotone_seek compare D seek target" "holds list rows"
  shows "cuts (below seek list target) rows"
  unfolding cuts_def
proof (rule sorted_wrt_mono_rel)
  show "sorted_wrt (\<lambda>m n. compare (entry_at list m) (entry_at list n) < 0) (rows 0)"
    using assms(2) by (simp add: holds_def)
qed (use assms in \<open>auto simp: monotone_seek_def holds_def image_subset_iff\<close>)

definition reader_ok :: "('e \<Rightarrow> 't \<Rightarrow> int) \<Rightarrow> 't \<Rightarrow> 'e SkipList \<Rightarrow> (nat \<Rightarrow> nat list) \<Rightarrow> 'e Reader \<Rightarrow> bool" where
  "reader_ok seek target list rows r \<longleftrightarrow>
     (case r of Waiting \<Rightarrow> True
      | Searching search before \<Rightarrow> search_ok (below seek list target) rows search \<and> set before \<subseteq> set (Entries list)
      | Found node before after \<Rightarrow>
          SkipIterator_entry list node = list_first (dropWhile (\<lambda>x. seek x target < 0) after) \<and>
          (\<forall>n. node = Some n \<longrightarrow> n \<in> set (rows 0)) \<and>
          sorted_wrt (\<lambda>x y. compare x y < 0) after \<and> set before \<subseteq> set after \<and> set after \<subseteq> set (Entries list))"

lemma reader_ok_grows:
  assumes h: "holds list rows" and h': "holds list' rows'" and g: "grows list rows list' rows'"
    and ok: "reader_ok seek target list rows r"
  shows "reader_ok seek target list' rows' r"
proof -
  have entry: "entry_at list' n = entry_at list n" if "n \<in> set (rows 0)" for n using g that by (simp add: grows_def)
  have rows: "set (rows l) \<subseteq> set (rows' l)" for l using g by (simp add: grows_def)
  have wf: "wf_list list rows" using h by (simp add: holds_def)
  have entries: "set (Entries list) \<subseteq> set (Entries list')"
    using entry rows [of 0] holds_Entries(3) [OF h] holds_Entries(3) [OF h'] by (force simp: Entries_def)
  have level: "n \<in> set (rows 0)" if "n \<in> set (rows l)" for n l
    using that subseq_set [OF wf_list_subseq [OF wf, of 0 l]] by auto
  show ?thesis
  proof (cases r)
    case (Searching search before)
    with ok have "search_ok (below seek list' target) rows' search"
      using entry rows level unfolding reader_ok_def search_ok_def by (auto simp: subset_iff)
    with Searching ok entries show ?thesis by (auto simp: reader_ok_def)
  next
    case (Found node before after)
    with ok have "SkipIterator_entry list' node = SkipIterator_entry list node"
      using entry by (cases node) (auto simp: reader_ok_def SkipIterator_entry_def)
    with Found ok entries rows [of 0] show ?thesis by (auto simp: reader_ok_def)
  qed (simp add: reader_ok_def)
qed

lemma reader_step_ok:
  assumes mono: "monotone_seek compare D seek target" and h: "holds list rows"
    and ok: "search_ok (below seek list target) rows search" and before: "set before \<subseteq> set (Entries list)"
  shows "(\<exists>search'. SearchStep seek list target (search, None) = Some (Inr (search', None)) \<and>
       search_ok (below seek list target) rows search') \<or>
     (\<exists>node. SearchStep seek list target (search, None) = Some (Inl (node, None)) \<and>
       reader_ok seek target list rows (Found node before (Entries list)))"
proof -
  let ?lt = "below seek list target"
  have wf: "wf_list list rows" using h by (simp add: holds_def)
  note row = holds_Entries(3) [OF h]
  from wf seek_cuts [OF mono h] ok refl show ?thesis
  proof (cases rule: SearchStep_cases [where predecessors = None])
    case found
    let ?node = "list_first (dropWhile ?lt (rows 0))"
    have "SkipIterator_entry list ?node = list_first (dropWhile (\<lambda>x. seek x target < 0) (Entries list))"
      by (simp add: SkipIterator_entry_def Entries_def row dropWhile_map comp_def list_first_map)
    moreover have "n \<in> set (rows 0)" if "?node = Some n" for n
    proof -
      have "n \<in> set (dropWhile ?lt (rows 0))" using that by (cases "dropWhile ?lt (rows 0)") auto
      then show ?thesis by (rule set_dropWhileD)
    qed
    ultimately show ?thesis
      using found before holds_Entries(1) [OF h] by (auto simp: reader_ok_def)
  qed auto
qed

lemma system_run_ok:
  assumes mono: "monotone_seek compare D seek target"
    and run: "system_run compare D seek target empty_entry (list, w, r)"
  shows "\<exists>rows. writer_ok list w rows \<and> reader_ok seek target list rows r"
  using run
proof (induction "(list, w, r)" arbitrary: list w r rule: system_run.induct)
  case run_start
  show ?case using holds_New by (auto simp: writer_ok_def reader_ok_def)
next
  case (run_step s)
  obtain list0 w0 r0 where s: "s = (list0, w0, r0)" by (cases s)
  from run_step.hyps(2) [OF s] obtain rows where ok: "writer_ok list0 w0 rows" "reader_ok seek target list0 rows r0" by blast
  note h = writer_ok_holds [OF ok(1)]
  from run_step.hyps(3) [unfolded s] show ?case
  proof (cases rule: system_step.cases)
    case system_writer
    then obtain rows' where rows': "writer_ok list w rows'" "grows list0 rows list rows'"
      using writer_step_ok [OF _ ok(1)] by blast
    have "reader_ok seek target list rows' r0"
      by (rule reader_ok_grows [OF h writer_ok_holds [OF rows'(1)] rows'(2) ok(2)])
    then show ?thesis using rows'(1) system_writer by auto
  next
    case system_start
    have "sl_max_height list - 1 < MaxHeight" using h system_start by (auto simp: holds_def wf_list_def)
    then show ?thesis using ok system_start by (auto simp: reader_ok_def search_ok_def)
  next
    case (system_search search search' before)
    then show ?thesis using ok reader_step_ok [OF mono h, of search before] by (auto simp: reader_ok_def)
  next
    case (system_found search node before)
    then have "search_ok (below seek list0 target) rows search" "set before \<subseteq> set (Entries list0)"
      using ok(2) by (auto simp: reader_ok_def)
    from reader_step_ok [OF mono h this] show ?thesis using system_found ok by auto
  qed
qed

end

text \<open>C15: Searches beside the writer.  In every interleaving of one search with the stores of any insertions, the
  search never reads a link that does not exist, and the node it returns is the first entry not below the
  target in the list as it was at the search's last load.  Every entry that was linked when the search
  began is in that list, and nothing ever leaves it.\<close>

theorem skip_list_concurrent_search:
  assumes "entry_order compare D" "monotone_seek compare D seek target"
    and "system_run compare D seek target empty_entry (list, w, r)"
  shows "(\<forall>search before. r = Searching search before \<longrightarrow> SearchStep seek list target (search, None) \<noteq> None) \<and>
    (\<forall>node before after. r = Found node before after \<longrightarrow>
      SkipIterator_entry list node = list_first (dropWhile (\<lambda>x. seek x target < 0) after) \<and>
      sorted_wrt (\<lambda>x y. compare x y < 0) after \<and> set before \<subseteq> set after \<and> set after \<subseteq> set (Entries list))"
proof (intro conjI allI impI)
  obtain rows where ok: "entry_order.writer_ok compare D list w rows" "entry_order.reader_ok compare seek target list rows r"
    using entry_order.system_run_ok [OF assms] by blast
  note h = entry_order.writer_ok_holds [OF assms(1) ok(1)]
  note reader = entry_order.reader_ok_def [OF assms(1)]
  show "SearchStep seek list target (search, None) \<noteq> None" if "r = Searching search before" for search before
    using entry_order.reader_step_ok [OF assms(1,2) h, of search before] ok(2) that by (auto simp: reader)
  fix node before after
  assume "r = Found node before after"
  with ok(2) show "SkipIterator_entry list node = list_first (dropWhile (\<lambda>x. seek x target < 0) after)"
    "sorted_wrt (\<lambda>x y. compare x y < 0) after" "set before \<subseteq> set after" "set after \<subseteq> set (Entries list)"
    by (auto simp: reader)
qed

text \<open>A search for 4 that begins on an empty list, during which 5 is inserted, and finds it.\<close>

definition demo_list :: "nat option \<Rightarrow> int SkipList" where
  "demo_list first =
     \<lparr>sl_nodes = [\<lparr>sn_entry = 0, sn_links = first # replicate 11 None\<rparr>, \<lparr>sn_entry = 5, sn_links = [None, None]\<rparr>],
      sl_max_height = 2, sl_random_seed = 386994929\<rparr>"

definition demo_preds :: "nat option list" where
  "demo_preds = [Some 0, Some 0] @ replicate 10 None"

lemma demo_begin:
  "FindGreaterOrEqual demo_compare (SkipList_New (0 :: int)) 5 (Some (replicate MaxHeight None)) =
     Some (None, Some (Some 0 # replicate 11 None))"
  "RandomHeight (SkipList_New (0 :: int)) = (2, (SkipList_New (0 :: int))\<lparr>sl_random_seed := 386994929\<rparr>)"
  "Entries (SkipList_New (0 :: int)) = []" "Entries (demo_list (Some 1)) = [5]"
  "NewNode ((SkipList_New (0 :: int))\<lparr>sl_random_seed := 386994929\<rparr>) 5 2 = (1, (demo_list None)\<lparr>sl_max_height := 1\<rparr>)"
  "PublishHeightIfNeeded ((demo_list None)\<lparr>sl_max_height := 1\<rparr>) 2 1 = demo_list None"
  "sl_max_height ((SkipList_New (0 :: int))\<lparr>sl_random_seed := 386994929\<rparr>) = 1"
  "PreparePredecessorsForHeight (Some 0 # replicate 11 None) 1 2 = demo_preds"
  by code_simp+


lemma demo_stores:
  "LinkAt (demo_list None) 0 0 = Some None" "SetNext (demo_list None) 1 0 None = Some (demo_list None)"
  "SetNext (demo_list None) 0 0 (Some 1) = Some (demo_list (Some 1))"
  "SearchStep demo_compare (demo_list (Some 1)) 4 (\<lparr>se_node = 0, se_last_not_less = None, se_level = 0\<rparr>, None) =
     Some (Inl (Some 1, None))"
  by code_simp+

theorem skip_list_concurrent_search_witness:
  "system_run demo_compare UNIV demo_compare 4 0 (demo_list (Some 1), Linking 1 demo_preds 2 1, Found (Some 1) [] [5]) \<and>
     SkipIterator_entry (demo_list (Some 1)) (Some 1) = Some 5"
proof -
  let ?run = "system_run demo_compare UNIV demo_compare 4 0" and ?step = "writer_step demo_compare UNIV"
  let ?search = "\<lparr>se_node = 0, se_last_not_less = None, se_level = 0\<rparr> :: Search"
  have started: "?step (SkipList_New 0, Idle) (demo_list None, Linking 1 demo_preds 2 0)"
    using writer_begin [OF demo_begin(1) UNIV_I _ demo_begin(2) demo_begin(5),
        unfolded demo_begin(3,7), unfolded demo_begin(6,8)] by simp
  have own: "?step (demo_list None, Linking 1 demo_preds 2 0) (demo_list None, Publishing 1 demo_preds 2 0)"
    by (rule writer_own_link [OF _ _ demo_stores(1,2)]) (simp_all add: demo_preds_def)
  have publish: "?step (demo_list None, Publishing 1 demo_preds 2 0) (demo_list (Some 1), Linking 1 demo_preds 2 1)"
    using writer_publish [OF _ demo_stores(3), of demo_preds demo_compare UNIV 2] by (simp add: demo_preds_def)
  have "?run (SkipList_New 0, Idle, Waiting)" by (rule run_start)
  from run_step [OF this system_start] have "?run (SkipList_New 0, Idle, Searching ?search [])"
    by (simp add: demo_begin(3)) (simp add: SkipList_New_def NewNode_def)
  from run_step [OF this system_writer [OF started]] have
    "?run (demo_list None, Linking 1 demo_preds 2 0, Searching ?search [])" .
  from run_step [OF this system_writer [OF own]] have
    "?run (demo_list None, Publishing 1 demo_preds 2 0, Searching ?search [])" .
  from run_step [OF this system_writer [OF publish]] have
    "?run (demo_list (Some 1), Linking 1 demo_preds 2 1, Searching ?search [])" .
  from run_step [OF this system_found [OF demo_stores(4)]] have
    run: "?run (demo_list (Some 1), Linking 1 demo_preds 2 1, Found (Some 1) [] [5])" by (simp only: demo_begin(4))
  have "monotone_seek demo_compare UNIV demo_compare 4" by (simp add: monotone_seek_def demo_compare_def)
  from skip_list_concurrent_search [OF demo.entry_order_axioms this run] run show ?thesis
    by (simp add: demo_compare_def)
qed

end
