(* ===== verification/Filter_Blocks.thy ===== *)
theory Filter_Blocks
  imports Checksum "HOL-Library.Monad_Syntax"
begin

text \<open>
  Bloom filters and the filter block of a table (\<^verbatim>\<open>src/table/bloom_filter.{h,cc}\<close>, \<^verbatim>\<open>src/table/filter_block.{h,cc}\<close>).
  Accesses outside the filter are \<open>None\<close>.  Growing a vector beyond \<open>max_size\<close> bytes throws, which is also \<open>None\<close>.
\<close>

unbundle bit_operations_syntax

section \<open>The filter policy\<close>

definition HashSeed :: u32 where
  "HashSeed = 0xbc9f1d34"

definition MaximumProbes :: u32 where
  "MaximumProbes = 30"

definition MinimumBits :: u64 where
  "MinimumBits = 64"

definition MaximumBits :: u64 where
  "MaximumBits = - 1"

definition BloomHash :: "bytes \<Rightarrow> u32" where
  "BloomHash key = Hash32 key HashSeed"

definition BitMask :: "u64 \<Rightarrow> byte" where
  "BitMask position = push_bit (unat (position mod 8)) 1"

definition BloomHashDelta :: "u32 \<Rightarrow> u32" where
  "BloomHashDelta hash = word_rotr 17 hash"

definition BloomBitPosition :: "u32 \<Rightarrow> u64 \<Rightarrow> u64" where
  "BloomBitPosition hash bits = ucast hash mod bits"

definition SetBloomBit :: "bytes \<Rightarrow> u64 \<Rightarrow> bytes option" where
  "SetBloomBit filt position =
     (let i = unat (position div 8)
      in if i < length filt then Some (filt[i := filt ! i OR BitMask position]) else None)"

definition BloomBitIsSet :: "bytes \<Rightarrow> u64 \<Rightarrow> bool option" where
  "BloomBitIsSet filt position =
     (let i = unat (position div 8)
      in if i < length filt then Some (filt ! i AND BitMask position \<noteq> 0) else None)"

record BloomFilterPolicy =
  bf_bits_per_key :: u32
  bf_probes :: u32

definition BloomFilterPolicy_New :: "u32 \<Rightarrow> BloomFilterPolicy" where
  "BloomFilterPolicy_New bits_per_key =
     \<lparr>bf_bits_per_key = bits_per_key,
      bf_probes = ucast (max 1 (min (ucast bits_per_key * 69 div 100 :: u64) (ucast MaximumProbes)))\<rparr>"

definition FilterSize :: "BloomFilterPolicy \<Rightarrow> nat \<Rightarrow> u64" where
  "FilterSize policy key_count =
     (let count = of_nat key_count :: u64;
          bits_per_key = ucast (bf_bits_per_key policy) :: u64;
          bits = (if bits_per_key \<noteq> 0 \<and> count > MaximumBits div bits_per_key then MaximumBits
                  else max MinimumBits (count * bits_per_key))
      in (bits - 1) div 8 + 2)"

fun SetProbes :: "nat \<Rightarrow> u32 \<Rightarrow> u32 \<Rightarrow> u64 \<Rightarrow> bytes \<Rightarrow> bytes option" where
  "SetProbes 0 hash delta bits filt = Some filt"
| "SetProbes (Suc n) hash delta bits filt = do {
     filt1 \<leftarrow> SetBloomBit filt (BloomBitPosition hash bits);
     SetProbes n (hash + delta) delta bits filt1
   }"

fun SetKeys :: "nat \<Rightarrow> u64 \<Rightarrow> bytes list \<Rightarrow> bytes \<Rightarrow> bytes option" where
  "SetKeys probes bits [] filt = Some filt"
| "SetKeys probes bits (key # keys) filt = do {
     filt1 \<leftarrow> SetProbes probes (BloomHash key) (BloomHashDelta (BloomHash key)) bits filt;
     SetKeys probes bits keys filt1
   }"

definition CreateFilter :: "nat \<Rightarrow> BloomFilterPolicy \<Rightarrow> bytes list \<Rightarrow> bytes \<Rightarrow> bytes option" where
  "CreateFilter max_size policy keys out =
     (let bytes = FilterSize policy (length keys) - 1
      in if length out + unat bytes + 1 > max_size then None
         else do {
           filt \<leftarrow> SetKeys (unat (bf_probes policy)) (bytes * 8) keys (replicate (unat bytes) 0);
           Some (out @ filt @ [ucast (bf_probes policy)])
         })"

fun TestProbes :: "nat \<Rightarrow> u32 \<Rightarrow> u32 \<Rightarrow> u64 \<Rightarrow> bytes \<Rightarrow> bool option" where
  "TestProbes 0 hash delta bits filt = Some True"
| "TestProbes (Suc n) hash delta bits filt = do {
     set \<leftarrow> BloomBitIsSet filt (BloomBitPosition hash bits);
     if \<not> set then Some False else TestProbes n (hash + delta) delta bits filt
   }"

definition Bloom_KeyMayMatch :: "bytes \<Rightarrow> bytes \<Rightarrow> bool option" where
  "Bloom_KeyMayMatch key filt =
     (if length filt < 2 then Some False
      else let bits = of_nat (length filt - 1) * 8 :: u64;
               probes = ucast (last filt) :: u32
           in if probes > MaximumProbes then Some True
              else TestProbes (unat probes) (BloomHash key) (BloomHashDelta (BloomHash key)) bits filt)"

section \<open>The filter block\<close>

definition FilterRangeShift :: nat where
  "FilterRangeShift = 11"

definition Fixed32Size :: nat where
  "Fixed32Size = 4"

definition FilterTrailerSize :: nat where
  "FilterTrailerSize = Fixed32Size + 1"

definition FilterMaximumBlockSize :: u64 where
  "FilterMaximumBlockSize = 2 ^ 32 - 1"

definition FilterBlockTooLarge :: Error where
  "FilterBlockTooLarge = Error InvalidArgument ''filter block would exceed uint32 size''"

record FilterBlockBuilder =
  fb_policy :: BloomFilterPolicy
  fb_keys :: bytes
  fb_key_starts :: "nat list"
  fb_result :: bytes
  fb_filter_offsets :: "u32 list"

definition FilterBlockBuilder_New :: "BloomFilterPolicy \<Rightarrow> FilterBlockBuilder" where
  "FilterBlockBuilder_New policy =
     \<lparr>fb_policy = policy, fb_keys = [], fb_key_starts = [], fb_result = [], fb_filter_offsets = []\<rparr>"

text \<open>The keys between consecutive starts.\<close>

fun SliceKeys :: "bytes \<Rightarrow> nat list \<Rightarrow> bytes list" where
  "SliceKeys flattened (s # e # starts) = take (e - s) (drop s flattened) # SliceKeys flattened (e # starts)"
| "SliceKeys flattened starts = []"

definition GenerateFilter :: "nat \<Rightarrow> FilterBlockBuilder \<Rightarrow> FilterBlockBuilder option" where
  "GenerateFilter max_size b =
     (let b1 = b\<lparr>fb_filter_offsets := fb_filter_offsets b @ [of_nat (length (fb_result b))]\<rparr>
      in if fb_key_starts b1 = [] then Some b1
         else do {
           result \<leftarrow> CreateFilter max_size (fb_policy b1) (SliceKeys (fb_keys b1) (fb_key_starts b1 @ [length (fb_keys b1)]))
             (fb_result b1);
           Some (b1\<lparr>fb_result := result, fb_keys := [], fb_key_starts := []\<rparr>)
         })"

text \<open>The loop of \<open>StartBlock\<close>: one filter per missing range.\<close>

fun GenerateFilters :: "nat \<Rightarrow> nat \<Rightarrow> FilterBlockBuilder \<Rightarrow> FilterBlockBuilder option" where
  "GenerateFilters max_size 0 b = Some b"
| "GenerateFilters max_size (Suc n) b = do { b1 \<leftarrow> GenerateFilter max_size b; GenerateFilters max_size n b1 }"

definition StartBlock :: "nat \<Rightarrow> FilterBlockBuilder \<Rightarrow> u64 \<Rightarrow> (status \<times> FilterBlockBuilder) option" where
  "StartBlock max_size b block_offset =
     (let filter_index = drop_bit FilterRangeShift block_offset;
          pending_size = (if fb_key_starts b = [] then 0 else FilterSize (fb_policy b) (length (fb_key_starts b)));
          finished_size = pending_size + of_nat (length (fb_result b)) + of_nat Fixed32Size * filter_index + of_nat FilterTrailerSize
      in if filter_index = of_nat (length (fb_filter_offsets b)) then Some (Inr (), b)
         else if finished_size > FilterMaximumBlockSize then Some (Inl FilterBlockTooLarge, b)
         else map_option (Pair (Inr ())) (GenerateFilters max_size (unat filter_index - length (fb_filter_offsets b)) b))"

definition AddKey :: "FilterBlockBuilder \<Rightarrow> bytes \<Rightarrow> status \<times> FilterBlockBuilder" where
  "AddKey b key =
     (let finished_size = FilterSize (fb_policy b) (length (fb_key_starts b) + 1) + of_nat (length (fb_result b)) +
            of_nat Fixed32Size * of_nat (length (fb_filter_offsets b) + 1) + of_nat FilterTrailerSize
      in if finished_size > FilterMaximumBlockSize then (Inl FilterBlockTooLarge, b)
         else (Inr (), b\<lparr>fb_key_starts := fb_key_starts b @ [length (fb_keys b)], fb_keys := fb_keys b @ key\<rparr>))"

definition FilterBlock_Finish :: "nat \<Rightarrow> FilterBlockBuilder \<Rightarrow> bytes option" where
  "FilterBlock_Finish max_size b = do {
     b1 \<leftarrow> (if fb_key_starts b \<noteq> [] then GenerateFilter max_size b else Some b);
     let array_offset = (of_nat (length (fb_result b1)) :: u32);
     let result = foldl AppendFixed32 (fb_result b1) (fb_filter_offsets b1);
     Some (AppendFixed32 result array_offset @ [of_nat FilterRangeShift])
   }"


datatype FilterLayoutIssue = TooShort | UnsupportedRange | MalformedArray

record FilterBlockLayout =
  fl_array_offset :: nat
  fl_filter_count :: nat

definition DecodeFilterLayout :: "bytes \<Rightarrow> FilterLayoutIssue + FilterBlockLayout" where
  "DecodeFilterLayout data =
     (if length data < FilterTrailerSize then Inl TooShort
      else if last data \<noteq> of_nat FilterRangeShift then Inl UnsupportedRange
      else let offsets_end = length data - FilterTrailerSize;
               array_offset = unat (DecodeFixedTrusted (take Fixed32Size (drop offsets_end data)) :: u32)
           in if array_offset > offsets_end \<or> (offsets_end - array_offset) mod Fixed32Size \<noteq> 0 then Inl MalformedArray
              else Inr \<lparr>fl_array_offset = array_offset, fl_filter_count = (offsets_end - array_offset) div Fixed32Size\<rparr>)"

record FilterBlockReader =
  fr_contents :: bytes
  fr_policy :: BloomFilterPolicy
  fr_array_offset :: nat
  fr_filter_count :: nat

definition FilterOffset :: "FilterBlockReader \<Rightarrow> nat \<Rightarrow> u32 option" where
  "FilterOffset reader index =
     (let start = fr_array_offset reader + Fixed32Size * index
      in if start + Fixed32Size \<le> length (fr_contents reader)
         then Some (DecodeFixedTrusted (take Fixed32Size (drop start (fr_contents reader)))) else None)"

fun OffsetsLoop :: "FilterBlockReader \<Rightarrow> nat list \<Rightarrow> u32 \<Rightarrow> bool option" where
  "OffsetsLoop reader [] previous = Some True"
| "OffsetsLoop reader (index # indices) previous = do {
     offset \<leftarrow> FilterOffset reader index;
     if index = 0 \<and> offset \<noteq> 0 \<or> offset < previous then Some False else OffsetsLoop reader indices offset
   }"

definition OffsetsAreValid :: "FilterBlockReader \<Rightarrow> bool option" where
  "OffsetsAreValid reader = OffsetsLoop reader [0..<Suc (fr_filter_count reader)] 0"

definition FilterBlockReader_Create :: "bytes \<Rightarrow> BloomFilterPolicy \<Rightarrow> FilterBlockReader result option" where
  "FilterBlockReader_Create contents policy =
     (case DecodeFilterLayout contents of
        Inl TooShort \<Rightarrow> Some (Inl (Error Corruption ''filter block is too short''))
      | Inl UnsupportedRange \<Rightarrow> Some (Inl (Error Corruption ''filter block has an unsupported range size''))
      | Inl MalformedArray \<Rightarrow> Some (Inl (Error Corruption ''filter block offset array is malformed''))
      | Inr layout \<Rightarrow>
          (let reader = \<lparr>fr_contents = contents, fr_policy = policy, fr_array_offset = fl_array_offset layout,
                 fr_filter_count = fl_filter_count layout\<rparr>
           in map_option (\<lambda>valid. if \<not> valid then Inl (Error Corruption ''filter block offsets are invalid'') else Inr reader)
                (OffsetsAreValid reader)))"

definition FilterBlock_KeyMayMatch :: "FilterBlockReader \<Rightarrow> u64 \<Rightarrow> bytes \<Rightarrow> bool option" where
  "FilterBlock_KeyMayMatch reader block_offset key =
     (let index = drop_bit FilterRangeShift block_offset
      in if index \<ge> of_nat (fr_filter_count reader) then Some True
         else do {
           start \<leftarrow> FilterOffset reader (unat index);
           limit \<leftarrow> FilterOffset reader (unat index + 1);
           if unat start + unat (limit - start) > length (fr_contents reader) then None
           else Bloom_KeyMayMatch key (take (unat (limit - start)) (drop (unat start) (fr_contents reader)))
         })"

section \<open>Bits\<close>

definition bit_set :: "bytes \<Rightarrow> u64 \<Rightarrow> bool" where
  "bit_set filt p \<longleftrightarrow> bit (filt ! (unat p div 8)) (unat p mod 8)"

lemma position_parts: "unat (p div 8 :: u64) = unat p div 8" "unat (p mod 8 :: u64) = unat p mod 8"
  by (simp_all add: unat_div_distrib unat_mod_distrib)

lemma BloomBitIsSet_eq:
  "unat p div 8 < length filt \<Longrightarrow> BloomBitIsSet filt p = Some (bit_set filt p)"
  by (simp add: BloomBitIsSet_def Let_def position_parts bit_set_def BitMask_def bit_iff_and_push_bit_not_eq_0)

lemma SetBloomBit_eq:
  assumes "unat p div 8 < length filt"
  obtains filt' where "SetBloomBit filt p = Some filt'" "length filt' = length filt"
    "\<And>q. unat q div 8 < length filt \<Longrightarrow> bit_set filt' q \<longleftrightarrow> bit_set filt q \<or> q = p"
proof
  let ?f = "filt[unat p div 8 := filt ! (unat p div 8) OR BitMask p]"
  show "SetBloomBit filt p = Some ?f" using assms by (simp add: SetBloomBit_def Let_def position_parts)
  show "length ?f = length filt" by simp
  fix q :: u64
  assume q: "unat q div 8 < length filt"
  have eq: "q = p \<longleftrightarrow> unat q div 8 = unat p div 8 \<and> unat q mod 8 = unat p mod 8"
    by (metis div_mult_mod_eq word_unat_eq_iff)
  have mask: "bit (BitMask p) n \<longleftrightarrow> n = unat p mod 8" for n
    by (auto simp: BitMask_def position_parts bit_simps)
  show "bit_set ?f q \<longleftrightarrow> bit_set filt q \<or> q = p"
    using assms q by (auto simp: bit_set_def nth_list_update bit_or_iff mask eq)
qed


section \<open>Probes\<close>

text \<open>The bits of the first \<open>k\<close> bytes that are set in \<open>filt\<close> are set in \<open>filt'\<close>.\<close>

definition covers :: "nat \<Rightarrow> bytes \<Rightarrow> bytes \<Rightarrow> bool" where
  "covers k filt filt' \<longleftrightarrow> k \<le> length filt' \<and> (\<forall>q. unat q div 8 < k \<longrightarrow> bit_set filt q \<longrightarrow> bit_set filt' q)"

lemma covers_trans: "covers k f g \<Longrightarrow> covers k g h \<Longrightarrow> covers k f h"
  by (simp add: covers_def)

lemma BloomBitPosition_bound:
  assumes "0 < k" "k < 2 ^ 61"
  shows "unat (BloomBitPosition hash (of_nat k * 8)) div 8 < k"
proof -
  have bits: "unat (of_nat k * 8 :: u64) = k * 8" using assms by (simp add: unat_word_ariths take_bit_nat_eq_self unsigned_of_nat)
  then have "unat (BloomBitPosition hash (of_nat k * 8)) < k * 8"
    using assms by (simp add: BloomBitPosition_def unat_mod_distrib)
  then show ?thesis by (simp add: less_mult_imp_div_less)
qed

lemma TestProbes_total:
  assumes "0 < k" "k < 2 ^ 61" "k \<le> length filt"
  shows "TestProbes n hash delta (of_nat k * 8) filt \<noteq> None"
  using assms
proof (induction n arbitrary: hash)
  case (Suc n)
  have "unat (BloomBitPosition hash (of_nat k * 8)) div 8 < length filt"
    using BloomBitPosition_bound [OF Suc.prems(1,2), of hash] Suc.prems(3) by simp
  then show ?case using Suc.IH [OF Suc.prems] by (simp add: BloomBitIsSet_eq del: not_None_eq)
qed simp

lemma Bloom_KeyMayMatch_total: "length filt \<le> 2 ^ 61 \<Longrightarrow> \<exists>answer. Bloom_KeyMayMatch key filt = Some answer"
  using TestProbes_total [of "length filt - 1" filt] by (auto simp: Bloom_KeyMayMatch_def Let_def simp flip: not_None_eq)

lemma TestProbes_covers:
  assumes "TestProbes n hash delta (of_nat k * 8) filt = Some True" "covers k filt filt'"
    "0 < k" "k < 2 ^ 61" "k \<le> length filt"
  shows "TestProbes n hash delta (of_nat k * 8) filt' = Some True"
  using assms
proof (induction n arbitrary: hash)
  case (Suc n)
  let ?p = "BloomBitPosition hash (of_nat k * 8)"
  have p: "unat ?p div 8 < k" by (rule BloomBitPosition_bound [OF Suc.prems(3,4)])
  have "bit_set filt ?p" "TestProbes n (hash + delta) delta (of_nat k * 8) filt = Some True"
    using Suc.prems(1,5) p by (auto simp: BloomBitIsSet_eq split: if_splits)
  then show ?case using Suc.IH Suc.prems p by (auto simp: covers_def BloomBitIsSet_eq)
qed simp

lemma SetProbes_ok:
  assumes "0 < k" "k < 2 ^ 61" "length filt = k"
  obtains filt' where "SetProbes n hash delta (of_nat k * 8) filt = Some filt'" "length filt' = k" "covers k filt filt'"
    "TestProbes n hash delta (of_nat k * 8) filt' = Some True"
proof -
  have "\<exists>filt'. SetProbes n hash delta (of_nat k * 8) filt = Some filt' \<and> length filt' = k \<and> covers k filt filt' \<and>
      TestProbes n hash delta (of_nat k * 8) filt' = Some True"
    using assms
  proof (induction n arbitrary: hash filt)
    case 0
    then show ?case by (simp add: covers_def)
  next
    case (Suc n)
    let ?p = "BloomBitPosition hash (of_nat k * 8)"
    have p: "unat ?p div 8 < k" by (rule BloomBitPosition_bound [OF Suc.prems(1,2)])
    from p Suc.prems(3) have "unat ?p div 8 < length filt" by simp
    then obtain f1 where f1: "SetBloomBit filt ?p = Some f1" "length f1 = length filt"
        "\<And>q. unat q div 8 < length filt \<Longrightarrow> bit_set f1 q \<longleftrightarrow> bit_set filt q \<or> q = ?p"
      by (rule SetBloomBit_eq) blast
    from Suc.IH [OF Suc.prems(1,2), of f1 "hash + delta"] f1(2) Suc.prems(3)
    obtain f' where f': "SetProbes n (hash + delta) delta (of_nat k * 8) f1 = Some f'" "length f' = k" "covers k f1 f'"
        "TestProbes n (hash + delta) delta (of_nat k * 8) f' = Some True" by auto
    have "bit_set f' ?p" using f'(3) f1(3) [of ?p] p Suc.prems(3) by (simp add: covers_def)
    moreover have "covers k filt f'" using f'(2,3) f1(3) Suc.prems(3) by (simp add: covers_def)
    ultimately show ?case using f1(1) f' p by (simp add: BloomBitIsSet_eq)
  qed
  then show ?thesis using that by blast
qed

lemma SetKeys_ok:
  assumes "0 < k" "k < 2 ^ 61" "length filt = k"
  obtains filt' where "SetKeys n (of_nat k * 8) keys filt = Some filt'" "length filt' = k" "covers k filt filt'"
    "\<And>key. key \<in> set keys \<Longrightarrow> TestProbes n (BloomHash key) (BloomHashDelta (BloomHash key)) (of_nat k * 8) filt' = Some True"
proof -
  have "\<exists>filt'. SetKeys n (of_nat k * 8) keys filt = Some filt' \<and> length filt' = k \<and> covers k filt filt' \<and>
      (\<forall>key \<in> set keys. TestProbes n (BloomHash key) (BloomHashDelta (BloomHash key)) (of_nat k * 8) filt' = Some True)"
    using assms(3)
  proof (induction keys arbitrary: filt)
    case Nil
    then show ?case by (simp add: covers_def)
  next
    case (Cons key keys)
    obtain f1 where f1: "SetProbes n (BloomHash key) (BloomHashDelta (BloomHash key)) (of_nat k * 8) filt = Some f1"
        "length f1 = k" "covers k filt f1"
        "TestProbes n (BloomHash key) (BloomHashDelta (BloomHash key)) (of_nat k * 8) f1 = Some True"
      by (rule SetProbes_ok [OF assms(1,2) Cons.prems])
    from Cons.IH [OF f1(2)] obtain f' where f': "SetKeys n (of_nat k * 8) keys f1 = Some f'" "length f' = k" "covers k f1 f'"
        "\<forall>key \<in> set keys. TestProbes n (BloomHash key) (BloomHashDelta (BloomHash key)) (of_nat k * 8) f' = Some True" by blast
    have "TestProbes n (BloomHash key) (BloomHashDelta (BloomHash key)) (of_nat k * 8) f' = Some True"
      using TestProbes_covers [OF f1(4) f'(3) assms(1,2)] f1(2) by simp
    then show ?case using f1(1) f' covers_trans [OF f1(3) f'(3)] by auto
  qed
  then show ?thesis using that by blast
qed

lemma FilterSize_bits:
  obtains b where "64 \<le> b" "b < 2 ^ 64" "unat (FilterSize policy n) = (b - 1) div 8 + 2"
proof -
  let ?c = "of_nat n :: u64" and ?k = "ucast (bf_bits_per_key policy) :: u64"
  define bits where "bits = (if ?k \<noteq> 0 \<and> ?c > MaximumBits div ?k then MaximumBits else max MinimumBits (?c * ?k))"
  have "64 \<le> bits" by (simp add: bits_def MaximumBits_def MinimumBits_def)
  then have b: "64 \<le> unat bits" "unat bits < 2 ^ 64" using unsigned_less [of bits] by (simp_all add: word_le_nat_alt)
  then have "unat (bits - 1) = unat bits - 1" by (intro unat_minus_one) auto
  then have "unat ((bits - 1) div 8) = (unat bits - 1) div 8" by (simp add: unat_div_distrib)
  moreover have "(unat bits - 1) div 8 < 2 ^ 61" using b(2) by (simp add: less_mult_imp_div_less)
  ultimately have "unat ((bits - 1) div 8 + 2) = (unat bits - 1) div 8 + 2" by (simp add: unat_word_ariths)
  moreover have "FilterSize policy n = (bits - 1) div 8 + 2" by (simp add: FilterSize_def bits_def Let_def)
  ultimately show ?thesis using that [OF b] by simp
qed

lemma FilterSize_bounds: "9 \<le> unat (FilterSize policy n)" "unat (FilterSize policy n) \<le> 2 ^ 61 + 1"
proof -
  obtain b where b: "64 \<le> b" "b < 2 ^ 64" "unat (FilterSize policy n) = (b - 1) div 8 + 2"
    by (rule FilterSize_bits [of policy n])
  then have "7 \<le> (b - 1) div 8" "(b - 1) div 8 < 2 ^ 61" by (simp_all add: less_mult_imp_div_less)
  then show "9 \<le> unat (FilterSize policy n)" "unat (FilterSize policy n) \<le> 2 ^ 61 + 1" using b(3) by linarith+
qed

lemma CreateFilter_ok:
  assumes probes: "bf_probes policy \<le> MaximumProbes" and small: "unat (FilterSize policy (length keys)) \<le> 2 ^ 61"
    and created: "CreateFilter max_size policy keys out = Some out'"
  obtains filt where "out' = out @ filt" "length filt = unat (FilterSize policy (length keys))"
    "\<And>key. key \<in> set keys \<Longrightarrow> Bloom_KeyMayMatch key filt = Some True"
proof -
  define size_word where "size_word = FilterSize policy (length keys)"
  define k where "k = unat (size_word - 1)"
  have size: "9 \<le> unat size_word" using FilterSize_bounds(1) by (simp add: size_word_def)
  then have k: "k = unat size_word - 1" unfolding k_def by (intro unat_minus_one) auto
  have bound: "0 < k" "k < 2 ^ 61" using k size small by (simp_all add: size_word_def)
  have word: "size_word - 1 = of_nat k" by (simp add: k_def)
  then have unword: "unat (of_nat k :: u64) = k" by (simp add: k_def flip: word)
  obtain filt where filt: "SetKeys (unat (bf_probes policy)) (of_nat k * 8) keys (replicate k 0) = Some filt" "length filt = k"
      "\<And>key. key \<in> set keys \<Longrightarrow> TestProbes (unat (bf_probes policy)) (BloomHash key) (BloomHashDelta (BloomHash key))
         (of_nat k * 8) filt = Some True"
    by (rule SetKeys_ok [OF bound length_replicate]) blast
  let ?filt = "filt @ [ucast (bf_probes policy)]"
  have "out' = out @ ?filt"
    using created filt(1) by (auto simp: CreateFilter_def size_word_def [symmetric] word unword Let_def split: if_splits)
  moreover have "length ?filt = unat size_word" using k size filt(2) by simp
  moreover have "Bloom_KeyMayMatch key ?filt = Some True" if "key \<in> set keys" for key
  proof -
    have "unat (bf_probes policy) \<le> 30" using probes by (simp add: word_le_nat_alt MaximumProbes_def)
    then have "unat (ucast (ucast (bf_probes policy) :: byte) :: u32) = unat (bf_probes policy)"
      by (simp add: unsigned_ucast_eq unsigned_take_bit_eq take_bit_nat_eq_self)
    then have "ucast (ucast (bf_probes policy) :: byte) = bf_probes policy" by (simp only: word_unat_eq_iff)
    moreover have "covers k filt ?filt"
      using filt(2) by (simp add: covers_def bit_set_def nth_append)
    with TestProbes_covers [OF filt(3) [OF that] _ bound] filt(2)
    have "TestProbes (unat (bf_probes policy)) (BloomHash key) (BloomHashDelta (BloomHash key)) (of_nat k * 8) ?filt = Some True"
      by simp
    moreover have "\<not> MaximumProbes < bf_probes policy" using probes by simp
    ultimately show ?thesis using filt(2) bound by (simp add: Bloom_KeyMayMatch_def Let_def)
  qed
  ultimately show ?thesis using that unfolding size_word_def by blast
qed

lemma BloomFilterPolicy_New_probes: "bf_probes (BloomFilterPolicy_New n) \<le> MaximumProbes" "bf_probes (BloomFilterPolicy_New n) \<noteq> 0"
proof -
  define m where "m = max 1 (min (ucast n * 69 div 100 :: u64) (ucast MaximumProbes))"
  have "1 \<le> m" "m \<le> 30" by (simp_all add: m_def MaximumProbes_def)
  then have m: "1 \<le> unat m" "unat m \<le> 30" by (simp_all add: word_le_nat_alt)
  then have "unat (ucast m :: u32) = unat m" by (simp add: unsigned_ucast_eq take_bit_nat_eq_self)
  moreover have "bf_probes (BloomFilterPolicy_New n) = ucast m" by (simp add: BloomFilterPolicy_New_def m_def)
  ultimately have probes: "unat (bf_probes (BloomFilterPolicy_New n)) = unat m" by simp
  show "bf_probes (BloomFilterPolicy_New n) \<le> MaximumProbes"
    using m(2) probes by (simp add: MaximumProbes_def word_le_nat_alt)
  show "bf_probes (BloomFilterPolicy_New n) \<noteq> 0" using m(1) probes by auto
qed

section \<open>The builder\<close>

definition filter_starts :: "'a list list \<Rightarrow> nat list" where
  "filter_starts xss = map (\<lambda>j. length (concat (take j xss))) [0..<length xss]"

lemma length_filter_starts [simp]: "length (filter_starts xss) = length xss"
  by (simp add: filter_starts_def)

lemma filter_starts_snoc: "filter_starts (xss @ [xs]) = filter_starts xss @ [length (concat xss)]"
  by (simp add: filter_starts_def)

lemma filter_starts_Nil [simp]: "filter_starts [] = []" "filter_starts xss = [] \<longleftrightarrow> xss = []"
  by (simp_all add: filter_starts_def)

lemma SliceKeys_starts: "SliceKeys (concat keys) (filter_starts keys @ [length (concat keys)]) = keys"
proof -
  have "SliceKeys (pre @ concat keys) (map (\<lambda>j. length pre + length (concat (take j keys))) [0..<length keys] @
      [length pre + length (concat keys)]) = keys" for pre
  proof (induction keys arbitrary: pre)
    case (Cons key keys)
    have "map (\<lambda>j. length pre + length (concat (take j (key # keys)))) [0..<length (key # keys)] =
        length pre # map (\<lambda>j. length (pre @ key) + length (concat (take j keys))) [0..<length keys]"
      by (simp add: upt_conv_Cons map_Suc_upt [symmetric] del: upt_Suc)
    then show ?case using Cons.IH [of "pre @ key"]
      by (cases keys) (simp_all add: upt_conv_Cons add.assoc del: upt_Suc)
  qed simp
  from this [of "[]"] show ?thesis by (simp add: filter_starts_def)
qed


text \<open>The builder after the ranges with keys \<open>ranges\<close> were finished into the filters \<open>fs\<close>, with \<open>pending\<close> keys of the
  current range.\<close>

definition pending_size :: "BloomFilterPolicy \<Rightarrow> bytes list \<Rightarrow> nat" where
  "pending_size policy pending = (if pending = [] then 0 else unat (FilterSize policy (length pending)))"

definition filter_inv :: "BloomFilterPolicy \<Rightarrow> bytes list list \<Rightarrow> bytes list \<Rightarrow> bytes list \<Rightarrow> FilterBlockBuilder \<Rightarrow> bool" where
  "filter_inv policy ranges pending fs b \<longleftrightarrow>
     fb_policy b = policy \<and> length fs = length ranges \<and> fb_result b = concat fs \<and>
     fb_filter_offsets b = map of_nat (filter_starts fs) \<and>
     (\<forall>j < length fs. \<forall>key \<in> set (ranges ! j). Bloom_KeyMayMatch key (fs ! j) = Some True) \<and>
     fb_keys b = concat pending \<and> fb_key_starts b = filter_starts pending"

definition filter_fits :: "BloomFilterPolicy \<Rightarrow> bytes list \<Rightarrow> bytes list \<Rightarrow> nat \<Rightarrow> bool" where
  "filter_fits policy pending fs n \<longleftrightarrow> length (concat fs) + pending_size policy pending + 4 * n + 5 < 2 ^ 32"

lemma GenerateFilter_inv:
  assumes policy: "bf_probes policy \<le> MaximumProbes" and inv: "filter_inv policy ranges pending fs b"
    and fits: "filter_fits policy pending fs n" and gen: "GenerateFilter max_size b = Some b'"
  obtains f where "filter_inv policy (ranges @ [pending]) [] (fs @ [f]) b'" "filter_fits policy [] (fs @ [f]) n"
proof (cases "pending = []")
  case True
  then have "filter_inv policy (ranges @ [pending]) [] (fs @ [[]]) b'"
    using inv gen by (auto simp: filter_inv_def GenerateFilter_def Let_def nth_append filter_starts_snoc less_Suc_eq)
  moreover have "filter_fits policy [] (fs @ [[]]) n" using fits True by (simp add: filter_fits_def pending_size_def)
  ultimately show ?thesis by (rule that)
next
  case False
  have slices: "SliceKeys (fb_keys b) (fb_key_starts b @ [length (fb_keys b)]) = pending"
    using inv by (simp add: filter_inv_def SliceKeys_starts)
  have small: "unat (FilterSize policy (length pending)) \<le> 2 ^ 61"
    using fits False by (simp add: filter_fits_def pending_size_def)
  obtain result where result: "CreateFilter max_size policy pending (concat fs) = Some result"
      and b': "b' = b\<lparr>fb_filter_offsets := fb_filter_offsets b @ [of_nat (length (fb_result b))], fb_result := result,
        fb_keys := [], fb_key_starts := []\<rparr>"
    using gen inv False slices by (auto simp: GenerateFilter_def Let_def filter_inv_def bind_eq_Some_conv)
  obtain f where f: "result = concat fs @ f" "length f = unat (FilterSize policy (length pending))"
      "\<And>key. key \<in> set pending \<Longrightarrow> Bloom_KeyMayMatch key f = Some True"
    by (rule CreateFilter_ok [OF policy small result]) (rule that)
  show ?thesis
  proof (rule that)
    show "filter_inv policy (ranges @ [pending]) [] (fs @ [f]) b'"
      using inv f(1,3) by (auto simp: filter_inv_def b' nth_append filter_starts_snoc less_Suc_eq)
    show "filter_fits policy [] (fs @ [f]) n" using fits False f(2) by (simp add: filter_fits_def pending_size_def)
  qed
qed

lemma GenerateFilters_inv:
  assumes policy: "bf_probes policy \<le> MaximumProbes"
  shows "filter_inv policy ranges pending fs b \<Longrightarrow> filter_fits policy pending fs n \<Longrightarrow>
    GenerateFilters max_size m b = Some b' \<Longrightarrow>
    \<exists>fs'. filter_inv policy (ranges @ (if m = 0 then [] else pending # replicate (m - 1) [])) (if m = 0 then pending else []) fs' b' \<and>
      filter_fits policy (if m = 0 then pending else []) fs' n"
proof (induction m arbitrary: ranges pending fs b)
  case (Suc m)
  obtain b1 where b1: "GenerateFilter max_size b = Some b1" "GenerateFilters max_size m b1 = Some b'"
    using Suc.prems(3) by (auto split: Option.bind_splits)
  obtain f where f: "filter_inv policy (ranges @ [pending]) [] (fs @ [f]) b1" "filter_fits policy [] (fs @ [f]) n"
    by (rule GenerateFilter_inv [OF policy Suc.prems(1,2) b1(1)])
  from Suc.IH [OF f b1(2)] show ?case by (cases m) simp_all
qed auto

lemma finished_size_unat:
  fixes a i :: u64
  assumes "unat a \<le> 2 ^ 61 + 1" "r < 2 ^ 32" "unat i \<le> 2 ^ 53"
  shows "unat (a + of_nat r + of_nat Fixed32Size * i + of_nat FilterTrailerSize) = unat a + r + 4 * unat i + 5"
  using assms by (simp add: unat_word_ariths unat_of_nat Fixed32Size_def FilterTrailerSize_def take_bit_eq_mod)

lemma FilterMaximumBlockSize_unat [simp]: "unat FilterMaximumBlockSize = 2 ^ 32 - 1"
  by (simp add: FilterMaximumBlockSize_def)

lemma filter_index_bound: "unat (drop_bit FilterRangeShift (off :: u64)) < 2 ^ 53"
  using unsigned_less [of off, where 'a = nat]
  by (simp add: FilterRangeShift_def drop_bit_eq_div unat_div less_mult_imp_div_less)

lemma AddKey_inv:
  assumes inv: "filter_inv policy ranges pending fs b" and fits: "filter_fits policy pending fs (length fs)"
    and add: "AddKey b key = (Inr (), b')"
  shows "filter_inv policy ranges (pending @ [key]) fs b' \<and> filter_fits policy (pending @ [key]) fs (length fs + 1)"
proof
  have result: "length (fb_result b) < 2 ^ 32" "fb_result b = concat fs" and n: "length (fb_filter_offsets b) = length fs"
      and starts: "length (fb_key_starts b) = length pending" and policy: "fb_policy b = policy"
    using inv fits by (simp_all add: filter_inv_def filter_fits_def)
  have len: "length fs + 1 \<le> 2 ^ 32" using fits by (simp add: filter_fits_def)
  then have i: "unat (of_nat (length fs + 1) :: u64) = length fs + 1" by (simp add: unat_of_nat take_bit_eq_mod del: of_nat_add of_nat_Suc)
  define total where "total = FilterSize policy (length pending + 1) + of_nat (length (concat fs)) +
    of_nat Fixed32Size * of_nat (length fs + 1) + of_nat FilterTrailerSize"
  have ok: "\<not> total > FilterMaximumBlockSize"
    and b': "b' = b\<lparr>fb_key_starts := fb_key_starts b @ [length (fb_keys b)], fb_keys := fb_keys b @ key\<rparr>"
    using add unfolding AddKey_def Let_def n starts policy result(2) total_def [symmetric] by (auto split: if_splits)
  have "unat total = unat (FilterSize policy (length pending + 1)) + length (concat fs) + 4 * (length fs + 1) + 5"
    unfolding total_def using finished_size_unat [OF FilterSize_bounds(2), of "length (concat fs)" "of_nat (length fs + 1)"] result len i by simp
  then show "filter_fits policy (pending @ [key]) fs (length fs + 1)"
    using ok by (simp add: filter_fits_def pending_size_def word_less_nat_alt)
  show "filter_inv policy ranges (pending @ [key]) fs b'" using inv by (simp add: filter_inv_def b' filter_starts_snoc)
qed

lemma StartBlock_inv:
  assumes policy: "bf_probes policy \<le> MaximumProbes" and inv: "filter_inv policy ranges pending fs b"
    and fits: "filter_fits policy pending fs (length fs + (if pending = [] then 0 else 1))"
    and start: "StartBlock max_size b off = Some (Inr (), b')"
    and grows: "length fs \<le> unat (drop_bit FilterRangeShift off)"
  obtains ranges' pending' fs' where "filter_inv policy ranges' pending' fs' b'"
    "filter_fits policy pending' fs' (length fs' + (if pending' = [] then 0 else 1))"
    "length fs' = unat (drop_bit FilterRangeShift off)"
    "ranges' = ranges \<and> pending' = pending \<or> (\<exists>m. ranges' = ranges @ pending # replicate m []) \<and> pending' = []"
proof (cases "unat (drop_bit FilterRangeShift off) = length fs")
  case True
  moreover have "length (fb_filter_offsets b) = length fs" using inv by (simp add: filter_inv_def)
  ultimately have "drop_bit FilterRangeShift off = of_nat (length (fb_filter_offsets b))" by (simp flip: True)
  then have "b' = b" using start by (simp add: StartBlock_def)
  then show ?thesis using that [OF _ fits] inv True by simp
next
  case False
  let ?i = "drop_bit FilterRangeShift off"
  have n: "length (fb_filter_offsets b) = length fs" and starts: "length (fb_key_starts b) = length pending"
      "fb_key_starts b = [] \<longleftrightarrow> pending = []" and pol: "fb_policy b = policy"
      and result: "length (concat fs) < 2 ^ 32" "fb_result b = concat fs"
    using inv fits by (simp_all add: filter_inv_def filter_fits_def)
  define size_word where "size_word = (if pending = [] then 0 else FilterSize policy (length pending))"
  have size_word: "unat size_word = pending_size policy pending" "unat size_word \<le> 2 ^ 61 + 1"
    using FilterSize_bounds(2) [of policy "length pending"] by (simp_all add: size_word_def pending_size_def)
  define total where "total = size_word + of_nat (length (concat fs)) + of_nat Fixed32Size * ?i + of_nat FilterTrailerSize"
  have total: "unat total = pending_size policy pending + length (concat fs) + 4 * unat ?i + 5"
    unfolding total_def using finished_size_unat [OF size_word(2) result(1), of ?i] filter_index_bound [of off] size_word(1) by simp
  have "length fs < 2 ^ 32" using fits by (simp add: filter_fits_def)
  then have "?i \<noteq> of_nat (length fs)" using False by (auto simp: unat_of_nat take_bit_eq_mod)
  then have ok: "\<not> total > FilterMaximumBlockSize" and gen: "GenerateFilters max_size (unat ?i - length fs) b = Some b'"
    using start unfolding StartBlock_def Let_def n starts pol result(2) size_word_def [symmetric] total_def [symmetric]
    by (auto split: if_splits)
  have "filter_fits policy pending fs (unat ?i)" using ok total by (simp add: filter_fits_def word_less_nat_alt)
  from GenerateFilters_inv [OF policy inv this gen] False grows
  obtain fs' where fs': "filter_inv policy (ranges @ pending # replicate (unat ?i - length fs - 1) []) [] fs' b'"
      "filter_fits policy [] fs' (unat ?i)" by auto
  have len: "length fs' = unat ?i" using fs'(1) inv False grows by (simp add: filter_inv_def)
  show ?thesis using that [OF fs'(1)] fs'(2) len by auto
qed


subsection \<open>A run of the builder\<close>

text \<open>The calls a table writer makes on a builder: it announces the offset of each data block and adds the keys of that block. The run
  is defined where every call succeeds.\<close>

datatype filter_op = OpStart u64 | OpAdd bytes

fun filter_run :: "nat \<Rightarrow> filter_op list \<Rightarrow> FilterBlockBuilder \<Rightarrow> FilterBlockBuilder option" where
  "filter_run max_size [] b = Some b"
| "filter_run max_size (OpStart off # ops) b =
     (case StartBlock max_size b off of Some (Inr _, b1) \<Rightarrow> filter_run max_size ops b1 | _ \<Rightarrow> None)"
| "filter_run max_size (OpAdd key # ops) b =
     (case AddKey b key of (Inr _, b1) \<Rightarrow> filter_run max_size ops b1 | _ \<Rightarrow> None)"

text \<open>The keys of a run with the offset of their block, and that the offsets do not decrease.\<close>

fun block_keys :: "u64 \<Rightarrow> filter_op list \<Rightarrow> (u64 \<times> bytes) list" where
  "block_keys off [] = []"
| "block_keys off (OpStart off' # ops) = block_keys off' ops"
| "block_keys off (OpAdd key # ops) = (off, key) # block_keys off ops"

fun offsets_grow :: "u64 \<Rightarrow> filter_op list \<Rightarrow> bool" where
  "offsets_grow off [] \<longleftrightarrow> True"
| "offsets_grow off (OpStart off' # ops) \<longleftrightarrow> off \<le> off' \<and> offsets_grow off' ops"
| "offsets_grow off (OpAdd key # ops) \<longleftrightarrow> offsets_grow off ops"

definition placed :: "bytes list list \<Rightarrow> bytes list \<Rightarrow> u64 \<times> bytes \<Rightarrow> bool" where
  "placed ranges pending ok \<longleftrightarrow>
     (let j = unat (drop_bit FilterRangeShift (fst ok))
      in j < length ranges \<and> snd ok \<in> set (ranges ! j) \<or> j = length ranges \<and> snd ok \<in> set pending)"

lemma placed_finish: "placed ranges pending ok \<Longrightarrow> placed (ranges @ pending # rest) [] ok"
  by (auto simp: placed_def Let_def nth_append)

lemma placed_add: "placed ranges pending ok \<Longrightarrow> placed ranges (pending @ [key]) ok"
  by (auto simp: placed_def Let_def)

lemma filter_index_mono: "(off :: u64) \<le> off' \<Longrightarrow> unat (drop_bit FilterRangeShift off) \<le> unat (drop_bit FilterRangeShift off')"
  by (simp add: FilterRangeShift_def drop_bit_eq_div unat_div word_le_nat_alt div_le_mono)

lemma filter_fits_mono: "filter_fits policy pending fs n \<Longrightarrow> m \<le> n \<Longrightarrow> filter_fits policy pending fs m"
  by (simp add: filter_fits_def)

lemma filter_run_inv:
  assumes policy: "bf_probes policy \<le> MaximumProbes"
  shows "filter_run max_size ops b = Some b' \<Longrightarrow> offsets_grow off ops \<Longrightarrow> filter_inv policy ranges pending fs b \<Longrightarrow>
    filter_fits policy pending fs (length fs + (if pending = [] then 0 else 1)) \<Longrightarrow>
    length fs = unat (drop_bit FilterRangeShift off) \<Longrightarrow> \<forall>ok \<in> known. placed ranges pending ok \<Longrightarrow>
    \<exists>ranges' pending' fs'. filter_inv policy ranges' pending' fs' b' \<and>
      filter_fits policy pending' fs' (length fs' + (if pending' = [] then 0 else 1)) \<and>
      (\<forall>ok \<in> known \<union> set (block_keys off ops). placed ranges' pending' ok)"
proof (induction ops arbitrary: b off ranges pending fs known)
  case Nil
  then show ?case by (intro exI [of _ ranges] exI [of _ pending] exI [of _ fs]) simp
next
  case (Cons op ops)
  show ?case
  proof (cases op)
    case (OpStart off')
    obtain b1 where b1: "StartBlock max_size b off' = Some (Inr (), b1)" "filter_run max_size ops b1 = Some b'"
      using Cons.prems(1) OpStart by (auto split: option.splits sum.splits prod.splits)
    have off': "off \<le> off'" "offsets_grow off' ops" using Cons.prems(2) OpStart by simp_all
    have "length fs \<le> unat (drop_bit FilterRangeShift off')" using Cons.prems(5) filter_index_mono [OF off'(1)] by simp
    then obtain ranges1 pending1 fs1 where step: "filter_inv policy ranges1 pending1 fs1 b1"
        "filter_fits policy pending1 fs1 (length fs1 + (if pending1 = [] then 0 else 1))"
        "length fs1 = unat (drop_bit FilterRangeShift off')"
        "ranges1 = ranges \<and> pending1 = pending \<or> (\<exists>m. ranges1 = ranges @ pending # replicate m []) \<and> pending1 = []"
      by (rule StartBlock_inv [OF policy Cons.prems(3,4) b1(1)])
    have "\<forall>ok \<in> known. placed ranges1 pending1 ok" using Cons.prems(6) step(4) placed_finish by auto
    from Cons.IH [OF b1(2) off'(2) step(1-3) this] show ?thesis using OpStart by simp
  next
    case (OpAdd key)
    obtain b1 where b1: "AddKey b key = (Inr (), b1)" "filter_run max_size ops b1 = Some b'"
      using Cons.prems(1) OpAdd by (auto split: sum.splits prod.splits)
    have grow: "offsets_grow off ops" using Cons.prems(2) OpAdd by simp
    have step: "filter_inv policy ranges (pending @ [key]) fs b1 \<and> filter_fits policy (pending @ [key]) fs (length fs + 1)"
      by (rule AddKey_inv [OF Cons.prems(3) filter_fits_mono [OF Cons.prems(4)] b1(1)]) simp
    have "\<forall>ok \<in> insert (off, key) known. placed ranges (pending @ [key]) ok"
      using Cons.prems(3,5,6) placed_add by (auto simp: placed_def [of _ _ "(off, key)"] filter_inv_def)
    from Cons.IH [OF b1(2) grow conjunct1 [OF step] _ Cons.prems(5) this] step show ?thesis using OpAdd by simp
  qed
qed


subsection \<open>The reader\<close>

lemma OffsetsLoop_iff:
  assumes "\<And>i. m \<le> i \<Longrightarrow> i < n \<Longrightarrow> FilterOffset reader i = Some (g i)"
  shows "OffsetsLoop reader [m..<n] previous = Some ((m < n \<longrightarrow> previous \<le> g m \<and> (m = 0 \<longrightarrow> g 0 = 0)) \<and>
    (\<forall>i. m \<le> i \<longrightarrow> Suc i < n \<longrightarrow> g i \<le> g (Suc i)))"
  using assms
proof (induction "n - m" arbitrary: m previous)
  case (Suc k)
  then have "m < n" by simp
  have IH: "OffsetsLoop reader [Suc m..<n] (g m) = Some ((Suc m < n \<longrightarrow> g m \<le> g (Suc m)) \<and>
    (\<forall>i. Suc m \<le> i \<longrightarrow> Suc i < n \<longrightarrow> g i \<le> g (Suc i)))"
    using Suc.hyps(1) [of "Suc m" "g m"] Suc.hyps(2) Suc.prems by simp
  have split: "(\<forall>i. m \<le> i \<longrightarrow> Suc i < n \<longrightarrow> g i \<le> g (Suc i)) \<longleftrightarrow>
      (Suc m < n \<longrightarrow> g m \<le> g (Suc m)) \<and> (\<forall>i. Suc m \<le> i \<longrightarrow> Suc i < n \<longrightarrow> g i \<le> g (Suc i))"
    by (metis Suc_leD Suc_leI le_neq_implies_less le_refl)
  have "OffsetsLoop reader [m..<n] previous =
      (if m = 0 \<and> g m \<noteq> 0 \<or> g m < previous then Some False else OffsetsLoop reader [Suc m..<n] (g m))"
    using \<open>m < n\<close> Suc.prems [of m] by (simp add: upt_conv_Cons)
  then show ?case unfolding IH split using \<open>m < n\<close> by (auto simp: not_less)
qed simp

text \<open>A layout the decoder accepts: the whole offset array, with the array offset as its last entry, lies inside the block.\<close>

definition reader_layout :: "FilterBlockReader \<Rightarrow> (nat \<Rightarrow> u32) \<Rightarrow> bool" where
  "reader_layout reader g \<longleftrightarrow>
     length (fr_contents reader) = fr_array_offset reader + 4 * fr_filter_count reader + 5 \<and>
     (\<forall>i \<le> fr_filter_count reader. FilterOffset reader i = Some (g i)) \<and>
     unat (g (fr_filter_count reader)) = fr_array_offset reader"

lemma DecodeFilterLayout_sound:
  assumes "DecodeFilterLayout contents = Inr layout"
  obtains g where "reader_layout \<lparr>fr_contents = contents, fr_policy = policy, fr_array_offset = fl_array_offset layout,
                 fr_filter_count = fl_filter_count layout\<rparr> g"
proof -
  define a where "a = unat (DecodeFixedTrusted (take 4 (drop (length contents - 5) contents)) :: u32)"
  have a: "5 \<le> length contents \<and> a \<le> length contents - 5 \<and> (length contents - 5 - a) mod 4 = 0 \<and>
      layout = \<lparr>fl_array_offset = a, fl_filter_count = (length contents - 5 - a) div 4\<rparr>"
    using assms unfolding DecodeFilterLayout_def Let_def FilterTrailerSize_def Fixed32Size_def
    by (simp add: a_def not_less split: if_splits)
  define n where "n = (length contents - 5 - a) div 4"
  have "5 \<le> length contents" "a \<le> length contents - 5" "(length contents - 5 - a) mod 4 = 0" using a by blast+
  then have n: "length contents = a + 4 * n + 5"
    using mult_div_mod_eq [of 4 "length contents - 5 - a"] unfolding n_def by linarith
  have layout: "layout = \<lparr>fl_array_offset = a, fl_filter_count = n\<rparr>" unfolding n_def using a by (elim conjE)
  have end_n: "length contents - 5 = a + 4 * n" using n by simp
  let ?g = "\<lambda>i. DecodeFixedTrusted (take 4 (drop (a + 4 * i) contents)) :: u32"
  have "unat (?g n) = a" using a_def unfolding end_n by (rule sym)
  then show ?thesis by (intro that [of ?g]) (simp add: reader_layout_def layout n FilterOffset_def Fixed32Size_def)
qed

lemma OffsetsAreValid_layout:
  assumes "reader_layout reader g"
  shows "OffsetsAreValid reader = Some (g 0 = 0 \<and> (\<forall>i < fr_filter_count reader. g i \<le> g (Suc i)))"
  using assms OffsetsLoop_iff [of 0 "Suc (fr_filter_count reader)" reader g 0]
  by (simp add: OffsetsAreValid_def reader_layout_def less_Suc_eq_le Suc_le_eq)

lemma offsets_le_last:
  assumes "\<forall>i < n. g i \<le> (g (Suc i) :: u32)" "i \<le> n"
  shows "g i \<le> g n"
  using assms by (induction n) (auto simp: le_Suc_eq intro: order_trans)

lemma KeyMayMatch_layout:
  assumes layout: "reader_layout reader g" and valid: "OffsetsAreValid reader = Some True"
    and index: "drop_bit FilterRangeShift off < (of_nat (fr_filter_count reader) :: u64)"
  defines "i \<equiv> unat (drop_bit FilterRangeShift off)"
  shows "i < fr_filter_count reader"
    "FilterBlock_KeyMayMatch reader off key =
       Bloom_KeyMayMatch key (take (unat (g (Suc i)) - unat (g i)) (drop (unat (g i)) (fr_contents reader)))"
proof -
  have "unat (of_nat (fr_filter_count reader) :: u64) \<le> fr_filter_count reader" by (simp add: unat_of_nat take_bit_eq_mod)
  then show i: "i < fr_filter_count reader" using index by (simp add: i_def word_less_nat_alt)
  have mono: "g i \<le> g (Suc i)" "g (Suc i) \<le> g (fr_filter_count reader)"
    using valid OffsetsAreValid_layout [OF layout] i offsets_le_last [of "fr_filter_count reader" g "Suc i"] by simp_all
  have width: "unat (g (Suc i) - g i) = unat (g (Suc i)) - unat (g i)" using mono(1) by (rule unat_sub)
  have "unat (g i) + (unat (g (Suc i)) - unat (g i)) \<le> length (fr_contents reader)"
    using mono layout by (simp add: reader_layout_def word_le_nat_alt)
  then show "FilterBlock_KeyMayMatch reader off key =
       Bloom_KeyMayMatch key (take (unat (g (Suc i)) - unat (g i)) (drop (unat (g i)) (fr_contents reader)))"
    using not_le [THEN iffD2, OF index] i layout width by (auto simp: FilterBlock_KeyMayMatch_def Let_def reader_layout_def i_def [symmetric])
qed


text \<open>C40: Opening a filter block and querying it never reads outside the block, whatever bytes it holds: creating a reader on arbitrary
  contents returns a reader or a corruption error, and on every reader it returns a query for any block offset and any key returns
  an answer. (In the model an access out of bounds is the value None.)\<close>

theorem filter_block_reader_safe:
  "\<exists>result. FilterBlockReader_Create contents policy = Some result \<and>
     (case result of Inl e \<Rightarrow> error_code e = Corruption
      | Inr reader \<Rightarrow> \<exists>answer. FilterBlock_KeyMayMatch reader off key = Some answer)"
proof (cases "DecodeFilterLayout contents")
  case (Inl issue)
  then show ?thesis by (cases issue) (simp_all add: FilterBlockReader_Create_def)
next
  case (Inr layout)
  define reader where "reader = \<lparr>fr_contents = contents, fr_policy = policy, fr_array_offset = fl_array_offset layout,
    fr_filter_count = fl_filter_count layout\<rparr>"
  obtain g where g: "reader_layout reader g" unfolding reader_def by (rule DecodeFilterLayout_sound [OF Inr])
  obtain valid where valid: "OffsetsAreValid reader = Some valid" using OffsetsAreValid_layout [OF g] by blast
  have create: "FilterBlockReader_Create contents policy =
      Some (if \<not> valid then Inl (Error Corruption ''filter block offsets are invalid'') else Inr reader)"
    using Inr valid by (simp add: FilterBlockReader_Create_def reader_def [symmetric] Let_def)
  have "\<exists>answer. FilterBlock_KeyMayMatch reader off key = Some answer" if "valid"
  proof (cases "drop_bit FilterRangeShift off < (of_nat (fr_filter_count reader) :: u64)")
    case True
    let ?i = "unat (drop_bit FilterRangeShift off)"
    have "unat (g (Suc ?i)) < 2 ^ 61" using unsigned_less [of "g (Suc ?i)", where 'a = nat] by simp
    then show ?thesis using KeyMayMatch_layout(2) [OF g _ True, of key] valid that Bloom_KeyMayMatch_total by simp
  next
    case False
    then show ?thesis by (auto simp: FilterBlock_KeyMayMatch_def Let_def not_less)
  qed
  then show ?thesis using create by (cases valid) simp_all
qed


subsection \<open>Reading back a finished block\<close>

lemma foldl_AppendFixed32: "foldl AppendFixed32 out ws = out @ concat (map EncodeFixedTrusted ws)"
  by (induction ws arbitrary: out) (simp_all add: AppendFixed32_def AppendFixed_def)

lemma read_fixed_array:
  "j < length ws \<Longrightarrow> take 4 (drop (4 * j) (concat (map EncodeFixedTrusted (ws :: u32 list)) @ rest)) = EncodeFixedTrusted (ws ! j)"
proof (induction ws arbitrary: j)
  case (Cons w ws)
  then show ?case by (cases j) simp_all
qed simp

lemma length_fixed_array [simp]: "length (concat (map EncodeFixedTrusted (ws :: u32 list))) = 4 * length ws"
  by (induction ws) simp_all

text \<open>The finished block of the filters \<open>fs\<close>.\<close>

definition finished_block :: "bytes list \<Rightarrow> bytes" where
  "finished_block fs = concat fs @
     concat (map EncodeFixedTrusted (map (\<lambda>j. of_nat (length (concat (take j fs))) :: u32) [0..<Suc (length fs)])) @ [11]"

lemma FilterBlock_Finish_inv:
  assumes policy: "bf_probes policy \<le> MaximumProbes" and inv: "filter_inv policy ranges pending fs b"
    and fits: "filter_fits policy pending fs (length fs + (if pending = [] then 0 else 1))"
    and finish: "FilterBlock_Finish max_size b = Some contents"
  obtains ranges' fs' b' where "filter_inv policy ranges' [] fs' b'" "filter_fits policy [] fs' (length fs')"
    "contents = finished_block fs'" "ranges' = ranges \<and> pending = [] \<or> ranges' = ranges @ [pending]"
proof -
  obtain b1 where b1: "(if fb_key_starts b \<noteq> [] then GenerateFilter max_size b else Some b) = Some b1"
      and contents: "contents = AppendFixed32 (foldl AppendFixed32 (fb_result b1) (fb_filter_offsets b1))
        (of_nat (length (fb_result b1))) @ [of_nat FilterRangeShift]"
    using finish by (auto simp: FilterBlock_Finish_def Let_def bind_eq_Some_conv)
  have block: "contents = finished_block fs1" if "filter_inv policy ranges1 pending1 fs1 b1" for ranges1 pending1 fs1
    using that unfolding contents foldl_AppendFixed32
    by (simp add: filter_inv_def finished_block_def filter_starts_def AppendFixed32_def AppendFixed_def FilterRangeShift_def comp_def)
  show ?thesis
  proof (cases "pending = []")
    case True
    then have "b1 = b" using b1 inv by (simp add: filter_inv_def)
    then have inv1: "filter_inv policy ranges [] fs b1" using inv True by simp
    show ?thesis by (rule that [OF inv1 _ block [OF inv1]]) (use fits True in simp_all)
  next
    case False
    then have gen: "GenerateFilter max_size b = Some b1" using b1 inv by (simp add: filter_inv_def)
    have fits1: "filter_fits policy pending fs (length fs + 1)" using fits False by simp
    obtain f where f: "filter_inv policy (ranges @ [pending]) [] (fs @ [f]) b1" "filter_fits policy [] (fs @ [f]) (length fs + 1)"
      by (rule GenerateFilter_inv [OF policy inv fits1 gen])
    show ?thesis by (rule that [OF f(1) _ block [OF f(1)]]) (use f(2) in simp_all)
  qed
qed


lemma length_finished_block: "length (finished_block fs) = length (concat fs) + 4 * length fs + 5"
  unfolding finished_block_def length_append length_fixed_array by simp

lemma finished_block_entry:
  assumes "j \<le> length fs"
  shows "take 4 (drop (length (concat fs) + 4 * j) (finished_block fs)) = EncodeFixedTrusted (of_nat (length (concat (take j fs))) :: u32)"
  using read_fixed_array [of j "map (\<lambda>j. of_nat (length (concat (take j fs))) :: u32) [0..<Suc (length fs)]" "[11]"] assms
  unfolding finished_block_def by (simp add: nth_append less_Suc_eq_le del: upt_Suc map_append map_map)

lemma finished_block_layout:
  assumes "length (concat fs) < 2 ^ 32"
  shows "DecodeFilterLayout (finished_block fs) = Inr \<lparr>fl_array_offset = length (concat fs), fl_filter_count = length fs\<rparr>"
proof -
  let ?c = "finished_block fs"
  have ends: "length ?c - 5 = length (concat fs) + 4 * length fs" by (simp add: length_finished_block)
  have tail: "last ?c = 11" by (simp add: finished_block_def)
  have "unat (DecodeFixedTrusted (take 4 (drop (length ?c - 5) ?c)) :: u32) = length (concat fs)"
    unfolding ends using finished_block_entry [of "length fs" fs] assms by (simp add: unat_of_nat take_bit_eq_mod)
  then show ?thesis
    unfolding DecodeFilterLayout_def Let_def FilterTrailerSize_def Fixed32Size_def FilterRangeShift_def
    by (simp add: tail) (simp add: length_finished_block)
qed

lemma take_concat_le: "i \<le> j \<Longrightarrow> length (concat (take i xss)) \<le> length (concat (take j xss))"
  by (metis le_add1 length_append concat_append take_add le_Suc_ex)

definition block_reader :: "BloomFilterPolicy \<Rightarrow> bytes list \<Rightarrow> FilterBlockReader" where
  "block_reader policy fs = \<lparr>fr_contents = finished_block fs, fr_policy = policy, fr_array_offset = length (concat fs),
     fr_filter_count = length fs\<rparr>"

lemma finished_block_reader:
  assumes small: "length (concat fs) < 2 ^ 32"
  shows "reader_layout (block_reader policy fs) (\<lambda>j. of_nat (length (concat (take j fs))))" "OffsetsAreValid (block_reader policy fs) = Some True"
    "FilterBlockReader_Create (finished_block fs) policy = Some (Inr (block_reader policy fs))"
proof -
  show layout: "reader_layout (block_reader policy fs) (\<lambda>j. of_nat (length (concat (take j fs))))"
    using small by (simp add: reader_layout_def block_reader_def length_finished_block FilterOffset_def Let_def Fixed32Size_def finished_block_entry
        unat_of_nat take_bit_eq_mod)
  have bound: "length (concat (take i fs)) < 2 ^ 32" for i
    using take_concat_le [of i "max i (length fs)" fs] small by simp
  have "(of_nat (length (concat (take i fs))) :: u32) \<le> of_nat (length (concat (take (Suc i) fs)))" for i
    using take_concat_le [of i "Suc i" fs] bound [of i] bound [of "Suc i"]
    by (simp add: word_le_nat_alt unat_of_nat take_bit_eq_mod del: take_Suc)
  then show valid: "OffsetsAreValid (block_reader policy fs) = Some True" unfolding OffsetsAreValid_layout [OF layout] by simp
  show "FilterBlockReader_Create (finished_block fs) policy = Some (Inr (block_reader policy fs))"
    using valid by (simp add: FilterBlockReader_Create_def finished_block_layout [OF small] block_reader_def Let_def)
qed

lemma finished_block_query:
  assumes small: "length (concat fs) < 2 ^ 32" and i: "unat (drop_bit FilterRangeShift off) = i" "i < length fs"
    and created: "FilterBlockReader_Create (finished_block fs) policy = Some (Inr reader)"
  shows "FilterBlock_KeyMayMatch reader off key = Some True \<or>
    FilterBlock_KeyMayMatch reader off key = Bloom_KeyMayMatch key (fs ! i)"
proof (cases "drop_bit FilterRangeShift off < (of_nat (fr_filter_count reader) :: u64)")
  case True
  have reader: "reader = block_reader policy fs" using created unfolding finished_block_reader(3) [OF small] by simp
  have unat: "unat (of_nat (length (concat (take j fs))) :: u32) = length (concat (take j fs))" for j
    using take_concat_le [of j "max j (length fs)" fs] small by (simp add: unat_of_nat take_bit_eq_mod)
  have "take (length (fs ! i)) (drop (length (concat (take i fs))) (concat (take i fs) @ fs ! i @ rest)) = fs ! i" for rest by simp
  moreover have parts: "concat fs = concat (take i fs) @ fs ! i @ concat (drop (Suc i) fs)"
    by (metis concat.simps(2) concat_append id_take_nth_drop [OF i(2)])
  ultimately have slice: "take (length (fs ! i)) (drop (length (concat (take i fs))) (finished_block fs)) = fs ! i"
    unfolding finished_block_def by (subst parts) simp
  have len: "length (concat (take (Suc i) fs)) = length (concat (take i fs)) + length (fs ! i)"
    using i(2) by (simp add: take_Suc_conv_app_nth)
  show ?thesis
    using KeyMayMatch_layout(2) [OF finished_block_reader(1,2) [OF small, of policy] True [unfolded reader], of key] slice len
    unfolding reader i(1) unat by (simp add: block_reader_def)
qed (auto simp: FilterBlock_KeyMayMatch_def Let_def not_less)


text \<open>C39: A filter block has no false negatives. Take any sequence of calls on a new filter block builder that announces blocks at
  nondecreasing offsets and adds keys to them, in which every call succeeds, and finish the block. The finished bytes are accepted by
  the reader, under any policy, and every key that was added to the block at some offset is reported as a possible match at that
  offset. This covers ranges without keys, several blocks in one range, the size checks in 64-bit arithmetic and the 32-bit offsets.\<close>

theorem filter_block_no_false_negatives:
  assumes run: "filter_run max_size ops (FilterBlockBuilder_New (BloomFilterPolicy_New bits_per_key)) = Some b"
    and grow: "offsets_grow 0 ops" and finish: "FilterBlock_Finish max_size b = Some contents"
    and added: "(off, key) \<in> set (block_keys 0 ops)"
  shows "\<exists>reader. FilterBlockReader_Create contents reader_policy = Some (Inr reader) \<and>
    FilterBlock_KeyMayMatch reader off key = Some True"
proof -
  let ?policy = "BloomFilterPolicy_New bits_per_key"
  note probes = BloomFilterPolicy_New_probes(1) [of bits_per_key]
  have inv: "filter_inv ?policy [] [] [] (FilterBlockBuilder_New ?policy)" by (simp add: filter_inv_def FilterBlockBuilder_New_def)
  have fits: "filter_fits ?policy [] [] (length ([] :: bytes list) + (if [] = ([] :: bytes list) then 0 else 1))"
    by (simp add: filter_fits_def pending_size_def)
  from filter_run_inv [OF probes run grow inv fits, of "{}"]
  obtain ranges pending fs where built: "filter_inv ?policy ranges pending fs b"
      "filter_fits ?policy pending fs (length fs + (if pending = [] then 0 else 1))" "placed ranges pending (off, key)"
    using added by (simp add: bex_Un Bex_def) blast
  obtain ranges' fs' b' where fin: "filter_inv ?policy ranges' [] fs' b'" "filter_fits ?policy [] fs' (length fs')"
      "contents = finished_block fs'" "ranges' = ranges \<and> pending = [] \<or> ranges' = ranges @ [pending]"
    by (rule FilterBlock_Finish_inv [OF probes built(1,2) finish])
  let ?i = "unat (drop_bit FilterRangeShift off)"
  have "placed ranges' [] (off, key)" using built(3) fin(4) placed_finish by auto
  then have i: "?i < length fs'" "key \<in> set (ranges' ! ?i)" using fin(1) by (simp_all add: placed_def Let_def filter_inv_def)
  have small: "length (concat fs') < 2 ^ 32" using fin(2) by (simp add: filter_fits_def)
  have "Bloom_KeyMayMatch key (fs' ! ?i) = Some True" using fin(1) i by (simp add: filter_inv_def)
  then show ?thesis
    using finished_block_reader(3) [OF small] finished_block_query [OF small refl i(1) finished_block_reader(3) [OF small]] fin(3) by metis
qed

theorem filter_block_no_false_negatives_witness:
  "\<exists>b contents reader.
     filter_run 100 [OpStart 0, OpAdd [1], OpStart 100, OpAdd [2, 3], OpStart 5000, OpAdd [4]]
       (FilterBlockBuilder_New (BloomFilterPolicy_New 10)) = Some b \<and>
     FilterBlock_Finish 100 b = Some contents \<and>
     FilterBlockReader_Create contents (BloomFilterPolicy_New 10) = Some (Inr reader) \<and>
     FilterBlock_KeyMayMatch reader 100 [2, 3] = Some True"
proof -
  let ?ops = "[OpStart 0, OpAdd [1], OpStart 100, OpAdd [2, 3], OpStart 5000, OpAdd [4]]"
  have "Option.bind (filter_run 100 ?ops (FilterBlockBuilder_New (BloomFilterPolicy_New 10))) (FilterBlock_Finish 100) \<noteq> None"
    by code_simp
  then obtain b contents where run: "filter_run 100 ?ops (FilterBlockBuilder_New (BloomFilterPolicy_New 10)) = Some b"
      "FilterBlock_Finish 100 b = Some contents" by (auto simp: bind_eq_Some_conv)
  have grow: "offsets_grow 0 ?ops" by simp
  have added: "(100, [2, 3]) \<in> set (block_keys 0 ?ops)" by simp
  show ?thesis
    using filter_block_no_false_negatives [OF run(1) grow run(2) added, of "BloomFilterPolicy_New 10"] run by blast
qed

end
