(* ===== verification/Compaction_Picker.thy ===== *)
theory Compaction_Picker
  imports Versions "HOL-Library.Monad_Syntax" "HOL-Library.Log_Nat"
begin

text \<open>
  The choice of compactions (\<^verbatim>\<open>src/engine/compaction_picker.{h,cc}\<close>): scoring the levels, the initial input, its closure over
  overlapping and boundary files of two levels, the optional expansion, and the edit that removes the inputs.
  The loops that a lawless comparator could keep running are partial functions, whose value \<open>None\<close> is not returning; \<open>None\<close> is also
  the first file of an empty list. Floating-point scores are rationals rounded as the double format rounds them.
\<close>

section \<open>Doubles\<close>

definition round_half_even :: "rat \<Rightarrow> int" where
  "round_half_even y =
     (let f = \<lfloor>y\<rfloor>; d = y - of_int f
      in if d < 1 / 2 then f else if d > 1 / 2 then f + 1 else if even f then f else f + 1)"

text \<open>Rounding to 53 significant bits, ties to even. The values that occur are zero or in the normal bounds.\<close>

definition round_double :: "rat \<Rightarrow> rat" where
  "round_double x =
     (if x \<le> 0 then 0
      else let (p, q) = quotient_of x;
               k = bitlen p - bitlen q;
               e = (if x < 2 powi k then k - 1 else k);
               ulp = 2 powi (e - 52)
           in of_int (round_half_even (x / ulp)) * ulp)"

definition u64_to_double :: "u64 \<Rightarrow> rat" where
  "u64_to_double n = round_double (of_int (uint n))"

section \<open>Ranges\<close>

definition ExpandedCompactionFactor :: u64 where
  "ExpandedCompactionFactor = 25"

definition GrandparentOverlapFactor :: u64 where
  "GrandparentOverlapFactor = 10"

fun MaxBytesLoop :: "nat \<Rightarrow> rat \<Rightarrow> rat" where
  "MaxBytesLoop 0 bytes = bytes"
| "MaxBytesLoop (Suc n) bytes = MaxBytesLoop n (round_double (bytes * 10))"

definition MaxBytesForLevel :: "u32 \<Rightarrow> rat" where
  "MaxBytesForLevel level = MaxBytesLoop (unat level - 1) (round_double (10 * 1048576))"

definition TotalFileSize :: "FileMetadata list \<Rightarrow> u64" where
  "TotalFileSize files = foldl (\<lambda>total file. total + fm_file_size file) 0 files"

record KeyRange =
  kr_smallest :: InternalKey
  kr_largest :: InternalKey

definition Widen :: "comparator \<Rightarrow> FileMetadata list \<Rightarrow> KeyRange \<Rightarrow> KeyRange" where
  "Widen c files bounds =
     foldl (\<lambda>bounds file.
       let bounds1 = (if InternalKeyCompare c (ik_encoded (fm_smallest file)) (ik_encoded (kr_smallest bounds)) < 0
                     then bounds\<lparr>kr_smallest := fm_smallest file\<rparr> else bounds)
       in if InternalKeyCompare c (ik_encoded (fm_largest file)) (ik_encoded (kr_largest bounds1)) > 0
          then bounds1\<lparr>kr_largest := fm_largest file\<rparr> else bounds1) bounds files"

fun RangeOf :: "comparator \<Rightarrow> FileMetadata list \<Rightarrow> KeyRange option" where
  "RangeOf c [] = None"
| "RangeOf c (file # files) = Some (Widen c files \<lparr>kr_smallest = fm_smallest file, kr_largest = fm_largest file\<rparr>)"

section \<open>Overlapping files\<close>

partial_function (option) OverlapLoop ::
  "comparator \<Rightarrow> FileMetadata list \<Rightarrow> u32 \<Rightarrow> bytes \<Rightarrow> bytes \<Rightarrow> FileMetadata list \<Rightarrow> nat \<Rightarrow> FileMetadata list option" where
  [code]: "OverlapLoop c files level low high overlapping index =
     (if index \<ge> length files then Some overlapping
      else let file = files ! index;
               file_begin = InternalKey_user_key (fm_smallest file);
               file_end = InternalKey_user_key (fm_largest file)
           in if Compare c file_end low < 0 \<or> Compare c file_begin high > 0
              then OverlapLoop c files level low high overlapping (index + 1)
              else if level \<noteq> 0 then OverlapLoop c files level low high (overlapping @ [file]) (index + 1)
              else if Compare c file_begin low < 0 then OverlapLoop c files level file_begin high [] 0
              else if Compare c file_end high > 0 then OverlapLoop c files level low file_end [] 0
              else OverlapLoop c files level low high (overlapping @ [file]) (index + 1))"

definition OverlappingFiles :: "Version \<Rightarrow> u32 \<Rightarrow> comparator \<Rightarrow> KeyRange \<Rightarrow> FileMetadata list option" where
  "OverlappingFiles version level c bounds =
     OverlapLoop c (Version_files version level) level (InternalKey_user_key (kr_smallest bounds))
       (InternalKey_user_key (kr_largest bounds)) [] 0"

section \<open>Boundary files\<close>

text \<open>\<^verbatim>\<open>std::ranges::partition_point\<close> by bisection.\<close>

function partition_search :: "('a \<Rightarrow> bool) \<Rightarrow> 'a list \<Rightarrow> nat \<Rightarrow> nat \<Rightarrow> nat" where
  "partition_search pred xs first len =
     (if len = 0 then first
      else let half = len div 2; mid = first + half
           in if pred (xs ! mid) then partition_search pred xs (mid + 1) (len - half - 1)
              else partition_search pred xs first half)"
  by pat_completeness auto
termination by (relation "measure (\<lambda>(pred, xs, first, len). len)") auto

declare partition_search.simps [simp del]

definition partition_point :: "('a \<Rightarrow> bool) \<Rightarrow> 'a list \<Rightarrow> nat" where
  "partition_point pred xs = partition_search pred xs 0 (length xs)"

partial_function (option) BoundaryLoop ::
  "comparator \<Rightarrow> FileMetadata list \<Rightarrow> FileMetadata list \<Rightarrow> InternalKey \<Rightarrow> FileMetadata list option" where
  [code]: "BoundaryLoop c level_files files largest =
     (let following = partition_point (\<lambda>file.
            InternalKeyCompare c (ik_encoded (fm_smallest file)) (ik_encoded largest) \<le> 0) level_files
      in if following = length level_files \<or>
            Compare c (InternalKey_user_key (fm_smallest (level_files ! following))) (InternalKey_user_key largest) \<noteq> 0
         then Some files
         else BoundaryLoop c level_files (files @ [level_files ! following]) (fm_largest (level_files ! following)))"

definition AddBoundaryInputs :: "comparator \<Rightarrow> FileMetadata list \<Rightarrow> FileMetadata list \<Rightarrow> FileMetadata list option" where
  "AddBoundaryInputs c level_files files =
     (case RangeOf c files of None \<Rightarrow> Some files | Some bounds \<Rightarrow> BoundaryLoop c level_files files (kr_largest bounds))"

section \<open>Picking\<close>

record InputExpansion =
  ex_inputs :: "FileMetadata list"
  ex_next_inputs :: "FileMetadata list"
  ex_range :: KeyRange

record InitialCompaction =
  ic_level :: u32
  ic_inputs :: "FileMetadata list"

definition Level0CompactionTrigger :: u32 where
  "Level0CompactionTrigger = 4"

record CompactionScore =
  cs_level :: u32
  cs_score :: rat

record SeekCompaction =
  sc_level :: u32
  sc_file :: FileMetadata

record Compaction =
  co_level :: u32
  co_version :: Version
  co_inputs :: "FileMetadata list \<times> FileMetadata list"
  co_grandparents :: "FileMetadata list"
  co_compact_pointer :: InternalKey

definition LevelScore :: "Version \<Rightarrow> u32 \<Rightarrow> rat" where
  "LevelScore version level =
     (if level = 0
      then round_double (u64_to_double (of_nat (length (Version_files version 0))) / u64_to_double (ucast Level0CompactionTrigger))
      else round_double (u64_to_double (TotalFileSize (Version_files version level)) / MaxBytesForLevel level))"

definition ScoreCompaction :: "Version \<Rightarrow> CompactionScore" where
  "ScoreCompaction version =
     foldl (\<lambda>best level. let score = LevelScore version level
         in if score > cs_score best then \<lparr>cs_level = level, cs_score = score\<rparr> else best)
       \<lparr>cs_level = 0, cs_score = -1\<rparr> (map of_nat [0..<levels - 1])"

definition SelectInitialCompaction ::
  "Version \<Rightarrow> comparator \<Rightarrow> InternalKey option list \<Rightarrow> SeekCompaction option \<Rightarrow> InitialCompaction option option" where
  "SelectInitialCompaction version c compact_pointers seek_compaction =
     (let score = ScoreCompaction version
      in if cs_score score \<ge> 1 then
           (let files = Version_files version (cs_level score);
                pointer = compact_pointers ! unat (cs_level score);
                after = find (\<lambda>file. case pointer of None \<Rightarrow> True
                  | Some key \<Rightarrow> InternalKeyCompare c (ik_encoded (fm_largest file)) (ik_encoded key) > 0) files
            in case after of
                 Some file \<Rightarrow> Some (Some \<lparr>ic_level = cs_level score, ic_inputs = [file]\<rparr>)
               | None \<Rightarrow> (if files = [] then None else Some (Some \<lparr>ic_level = cs_level score, ic_inputs = [hd files]\<rparr>)))
         else case seek_compaction of
                None \<Rightarrow> Some None
              | Some seek \<Rightarrow> Some (Some \<lparr>ic_level = sc_level seek, ic_inputs = [sc_file seek]\<rparr>))"

definition CloseLevelZeroInputs :: "Version \<Rightarrow> comparator \<Rightarrow> u32 \<Rightarrow> FileMetadata list \<Rightarrow> FileMetadata list option" where
  "CloseLevelZeroInputs version c level inputs =
     (if level \<noteq> 0 then Some inputs
      else do { start \<leftarrow> RangeOf c inputs; OverlappingFiles version 0 c start })"

definition TryExpandInputs ::
  "Version \<Rightarrow> comparator \<Rightarrow> u32 \<Rightarrow> FileMetadata list \<Rightarrow> FileMetadata list \<Rightarrow> KeyRange \<Rightarrow> u64 \<Rightarrow> InputExpansion option option" where
  "TryExpandInputs version c level inputs next_inputs all target_file_size =
     (if next_inputs = [] then Some None
      else do {
        overlapping \<leftarrow> OverlappingFiles version level c all;
        expanded \<leftarrow> AddBoundaryInputs c (Version_files version level) overlapping;
        if \<not> (length expanded > length inputs \<and>
              TotalFileSize next_inputs + TotalFileSize expanded < ExpandedCompactionFactor * target_file_size)
        then Some None
        else do {
          expanded_range \<leftarrow> RangeOf c expanded;
          overlapping_next \<leftarrow> OverlappingFiles version (level + 1) c expanded_range;
          expanded_next \<leftarrow> AddBoundaryInputs c (Version_files version (level + 1)) overlapping_next;
          if length expanded_next \<noteq> length next_inputs then Some None
          else Some (Some \<lparr>ex_inputs = expanded, ex_next_inputs = expanded_next, ex_range = expanded_range\<rparr>)
        }
      })"

text \<open>The four output arguments are returned as a tuple.\<close>

definition ApplyExpandedInputs ::
  "Version \<Rightarrow> comparator \<Rightarrow> u32 \<Rightarrow> u64 \<Rightarrow> FileMetadata list \<Rightarrow> FileMetadata list \<Rightarrow> KeyRange \<Rightarrow> KeyRange \<Rightarrow>
   (FileMetadata list \<times> FileMetadata list \<times> KeyRange \<times> KeyRange) option" where
  "ApplyExpandedInputs version c level target_file_size inputs next_inputs bounds all = do {
     expansion \<leftarrow> TryExpandInputs version c level inputs next_inputs all target_file_size;
     case expansion of
       None \<Rightarrow> Some (inputs, next_inputs, bounds, all)
     | Some e \<Rightarrow> Some (ex_inputs e, ex_next_inputs e, ex_range e, Widen c (ex_next_inputs e) (ex_range e))
   }"

definition CollectGrandparents :: "Version \<Rightarrow> comparator \<Rightarrow> u32 \<Rightarrow> KeyRange \<Rightarrow> FileMetadata list option" where
  "CollectGrandparents version c level bounds =
     (if level + 2 \<ge> NumLevels then Some [] else OverlappingFiles version (level + 2) c bounds)"

definition SetupInputs :: "Version \<Rightarrow> comparator \<Rightarrow> u32 \<Rightarrow> FileMetadata list \<Rightarrow> u64 \<Rightarrow> Compaction option" where
  "SetupInputs version c level inputs target_file_size = do {
     inputs1 \<leftarrow> AddBoundaryInputs c (Version_files version level) inputs;
     bounds \<leftarrow> RangeOf c inputs1;
     overlapping \<leftarrow> OverlappingFiles version (level + 1) c bounds;
     next_inputs \<leftarrow> AddBoundaryInputs c (Version_files version (level + 1)) overlapping;
     let all = Widen c next_inputs bounds;
     (inputs2, next_inputs2, range2, all2) \<leftarrow> ApplyExpandedInputs version c level target_file_size inputs1 next_inputs bounds all;
     grandparents \<leftarrow> CollectGrandparents version c level all2;
     Some \<lparr>co_level = level, co_version = version, co_inputs = (inputs2, next_inputs2), co_grandparents = grandparents,
       co_compact_pointer = kr_largest range2\<rparr>
   }"

definition PickCompaction ::
  "Version \<Rightarrow> comparator \<Rightarrow> InternalKey option list \<Rightarrow> SeekCompaction option \<Rightarrow> u64 \<Rightarrow> Compaction option option" where
  "PickCompaction version c compact_pointers seek_compaction target_file_size = do {
     initial \<leftarrow> SelectInitialCompaction version c compact_pointers seek_compaction;
     case initial of
       None \<Rightarrow> Some None
     | Some ic \<Rightarrow> do {
         inputs \<leftarrow> CloseLevelZeroInputs version c (ic_level ic) (ic_inputs ic);
         compaction \<leftarrow> SetupInputs version c (ic_level ic) inputs target_file_size;
         Some (Some compaction)
       }
   }"

definition IsTrivialMove :: "Compaction \<Rightarrow> u64 \<Rightarrow> bool" where
  "IsTrivialMove compaction target_file_size \<longleftrightarrow>
     length (fst (co_inputs compaction)) = 1 \<and> snd (co_inputs compaction) = [] \<and>
     TotalFileSize (co_grandparents compaction) \<le> GrandparentOverlapFactor * target_file_size"

text \<open>An edit operation whose result is discarded: a rejected argument leaves the edit as it was.\<close>

definition discard_result :: "VersionEdit \<Rightarrow> VersionEdit result \<Rightarrow> VersionEdit" where
  "discard_result edit r = (case r of Inl _ \<Rightarrow> edit | Inr edit1 \<Rightarrow> edit1)"

definition RemoveInputs :: "u32 \<Rightarrow> FileMetadata list \<Rightarrow> VersionEdit \<Rightarrow> VersionEdit" where
  "RemoveInputs level files edit =
     foldl (\<lambda>edit file. discard_result edit (RemoveFile edit level (fm_number file))) edit files"

definition CompactionEdit :: "Compaction \<Rightarrow> VersionEdit" where
  "CompactionEdit compaction =
     (let edit = discard_result VersionEdit_New
            (AddCompactPointer VersionEdit_New (co_level compaction) (co_compact_pointer compaction))
      in RemoveInputs (co_level compaction + 1) (snd (co_inputs compaction))
           (RemoveInputs (co_level compaction) (fst (co_inputs compaction)) edit))"


section \<open>Scores\<close>

lemma round_double_0 [simp]: "round_double 0 = 0"
  by (simp add: round_double_def)

lemma LevelScore_empty: "Version_files version level = [] \<Longrightarrow> LevelScore version level = 0"
  by (cases "level = 0") (simp_all add: LevelScore_def TotalFileSize_def u64_to_double_def)

lemma ScoreCompaction_full:
  assumes "1 \<le> cs_score (ScoreCompaction version)"
  shows "unat (cs_level (ScoreCompaction version)) < levels - 1 \<and> Version_files version (cs_level (ScoreCompaction version)) \<noteq> []"
proof -
  define step where "step = (\<lambda>best level. let score = LevelScore version level
    in if score > cs_score best then \<lparr>cs_level = level, cs_score = score\<rparr> else best)"
  have "1 \<le> cs_score (foldl step best ls) \<longrightarrow>
      unat (cs_level (foldl step best ls)) < levels - 1 \<and> Version_files version (cs_level (foldl step best ls)) \<noteq> []"
    if "1 \<le> cs_score best \<longrightarrow> unat (cs_level best) < levels - 1 \<and> Version_files version (cs_level best) \<noteq> []"
      "\<forall>l \<in> set ls. unat l < levels - 1" for best ls
    using that
  proof (induction ls arbitrary: best)
    case (Cons l ls)
    have "1 \<le> LevelScore version l \<longrightarrow> Version_files version l \<noteq> []" using LevelScore_empty [of version l] by auto
    then show ?case using Cons.prems Cons.IH [of "step best l"] by (simp add: step_def Let_def)
  qed simp
  from this [of "\<lparr>cs_level = 0, cs_score = -1\<rparr>" "map of_nat [0..<levels - 1]"] assms show ?thesis
    by (simp add: ScoreCompaction_def step_def [symmetric] levels_eq unat_of_nat take_bit_eq_mod)
qed

section \<open>Overlap closure\<close>

abbreviation file_low :: "FileMetadata \<Rightarrow> bytes" where
  "file_low f \<equiv> InternalKey_user_key (fm_smallest f)"

abbreviation file_high :: "FileMetadata \<Rightarrow> bytes" where
  "file_high f \<equiv> InternalKey_user_key (fm_largest f)"

definition overlaps :: "comparator \<Rightarrow> bytes \<Rightarrow> bytes \<Rightarrow> FileMetadata \<Rightarrow> bool" where
  "overlaps c low high f \<longleftrightarrow> 0 \<le> Compare c (file_high f) low \<and> Compare c (file_low f) high \<le> 0"

definition inside :: "comparator \<Rightarrow> bytes \<Rightarrow> bytes \<Rightarrow> FileMetadata \<Rightarrow> bool" where
  "inside c low high f \<longleftrightarrow> 0 \<le> Compare c (file_low f) low \<and> Compare c (file_high f) high \<le> 0"

text \<open>A range of user keys is closed over a list of files when every file that meets it lies in it.\<close>

definition closed_range :: "comparator \<Rightarrow> FileMetadata list \<Rightarrow> bytes \<Rightarrow> bytes \<Rightarrow> bool" where
  "closed_range c files low high \<longleftrightarrow> (\<forall>f \<in> set files. overlaps c low high f \<longrightarrow> inside c low high f)"

text \<open>The closed range a search of a level ends with: the given one in a level of disjoint files, the least closed one around it
  in level zero.\<close>

definition search_range :: "comparator \<Rightarrow> FileMetadata list \<Rightarrow> u32 \<Rightarrow> bytes \<Rightarrow> bytes \<Rightarrow> bytes \<Rightarrow> bytes \<Rightarrow> bool" where
  "search_range c files level low high low' high' \<longleftrightarrow>
     (if level = 0
      then Compare c low' low \<le> 0 \<and> Compare c high high' \<le> 0 \<and> closed_range c files low' high' \<and>
        (\<forall>l h. Compare c l low \<le> 0 \<and> Compare c high h \<le> 0 \<and> closed_range c files l h \<longrightarrow>
           Compare c l low' \<le> 0 \<and> Compare c high' h \<le> 0)
      else low' = low \<and> high' = high)"

lemma OverlapLoop_disjoint:
  assumes "level \<noteq> 0"
  shows "OverlapLoop c files level low high overlapping index = Some (overlapping @ filter (overlaps c low high) (drop index files))"
proof (induction "length files - index" arbitrary: overlapping index)
  case 0
  then show ?case by (simp add: OverlapLoop.simps)
next
  case (Suc n)
  then have i: "index < length files" by simp
  have IH: "OverlapLoop c files level low high ov (index + 1) = Some (ov @ filter (overlaps c low high) (drop (index + 1) files))" for ov
    by (rule Suc.hyps(1)) (use Suc.hyps(2) in simp)
  have "overlaps c low high (files ! index) \<longleftrightarrow>
      \<not> (Compare c (file_high (files ! index)) low < 0 \<or> Compare c (file_low (files ! index)) high > 0)"
    by (auto simp: overlaps_def)
  then show ?case using i assms IH by (subst OverlapLoop.simps) (simp add: Let_def Cons_nth_drop_Suc [OF i, symmetric])
qed

definition wider_files :: "comparator \<Rightarrow> FileMetadata list \<Rightarrow> bytes \<Rightarrow> bytes \<Rightarrow> nat" where
  "wider_files c files low high =
     length (filter (\<lambda>f. Compare c (file_low f) low < 0) files) + length (filter (\<lambda>f. Compare c (file_high f) high > 0) files)"

lemma length_filter_less:
  "x \<in> set xs \<Longrightarrow> Q x \<Longrightarrow> \<not> P x \<Longrightarrow> (\<And>y. P y \<Longrightarrow> Q y) \<Longrightarrow> length (filter P xs) < length (filter Q xs)"
proof (induction xs)
  case (Cons y ys)
  have "length (filter P ys) \<le> length (filter Q ys)" using Cons.prems(4) by (induction ys) auto
  then show ?case using Cons by auto
qed simp

text \<open>The range of a list of files covers them and its ends are keys of the files.\<close>

definition covers_files :: "comparator \<Rightarrow> KeyRange \<Rightarrow> FileMetadata set \<Rightarrow> bool" where
  "covers_files c b fs \<longleftrightarrow> (\<forall>f \<in> fs. InternalKeyCompare c (ik_encoded (kr_smallest b)) (ik_encoded (fm_smallest f)) \<le> 0 \<and>
     InternalKeyCompare c (ik_encoded (fm_largest f)) (ik_encoded (kr_largest b)) \<le> 0)"

definition wf_files :: "comparator \<Rightarrow> FileMetadata list \<Rightarrow> bool" where
  "wf_files c lf \<longleftrightarrow> sorted_wrt (\<lambda>f g. InternalKeyCompare c (ik_encoded (fm_smallest f)) (ik_encoded (fm_smallest g)) \<le> 0) lf \<and>
     (\<forall>f \<in> set lf. file_ordered c f)"

abbreviation key_before :: "comparator \<Rightarrow> InternalKey \<Rightarrow> FileMetadata \<Rightarrow> bool" where
  "key_before c k f \<equiv> InternalKeyCompare c (ik_encoded k) (ik_encoded (fm_smallest f)) < 0"

abbreviation user_before :: "comparator \<Rightarrow> FileMetadata \<Rightarrow> FileMetadata \<Rightarrow> bool" where
  "user_before c f g \<equiv> Compare c (file_high f) (file_low g) < 0"

text \<open>The files of a level left outside a selection: in a level of disjoint files each of them lies before every selected file in the
  internal order, or after every selected file even in the user order; in level zero the user ranges are disjoint.\<close>

definition isolated :: "comparator \<Rightarrow> u32 \<Rightarrow> FileMetadata list \<Rightarrow> FileMetadata list \<Rightarrow> bool" where
  "isolated c level lf S \<longleftrightarrow> (\<forall>f \<in> set lf. f \<in> set S \<or>
     (\<forall>g \<in> set S. if level = 0 then user_before c f g else files_apart c f g) \<or> (\<forall>g \<in> set S. user_before c g f))"

text \<open>What the inputs of a compaction leave behind in their two levels.\<close>

definition picked :: "comparator \<Rightarrow> Version \<Rightarrow> u32 \<Rightarrow> FileMetadata list \<Rightarrow> FileMetadata list \<Rightarrow> bool" where
  "picked c version level S S' \<longleftrightarrow>
     S \<noteq> [] \<and> set S \<subseteq> set (Version_files version level) \<and> set S' \<subseteq> set (Version_files version (level + 1)) \<and>
     isolated c level (Version_files version level) S \<and>
     (\<forall>f \<in> set (Version_files version (level + 1)). f \<in> set S' \<or>
        (\<forall>g \<in> set (S @ S'). files_apart c f g) \<or> (\<forall>g \<in> set (S @ S'). user_before c g f))"

text \<open>A file to compact because of its seeks is live in its level, which is not the last.\<close>

definition seek_live :: "Version \<Rightarrow> SeekCompaction option \<Rightarrow> bool" where
  "seek_live version seek \<longleftrightarrow>
     (case seek of None \<Rightarrow> True
      | Some sk \<Rightarrow> unat (sc_level sk) < levels - 1 \<and> sc_file sk \<in> set (Version_files version (sc_level sk)))"

text \<open>Bisection finds the first element outside the predicate in a partitioned list.\<close>

lemma partition_search_spec:
  assumes "\<forall>i < first. pred (xs ! i)" "\<forall>i. first + len \<le> i \<longrightarrow> i < length xs \<longrightarrow> \<not> pred (xs ! i)" "first + len \<le> length xs"
    and "\<forall>i j. i \<le> j \<longrightarrow> j < length xs \<longrightarrow> pred (xs ! j) \<longrightarrow> pred (xs ! i)"
  shows "partition_search pred xs first len \<le> length xs \<and> (\<forall>i < partition_search pred xs first len. pred (xs ! i)) \<and>
    (\<forall>i. partition_search pred xs first len \<le> i \<longrightarrow> i < length xs \<longrightarrow> \<not> pred (xs ! i))"
  using assms
proof (induction pred xs first len rule: partition_search.induct)
  case (1 pred xs first len)
  show ?case
  proof (cases "len = 0")
    case True
    then have "partition_search pred xs first len = first" by (subst partition_search.simps) simp
    then show ?thesis using "1.prems"(1-3) True by simp
  next
    case False
    define mid where "mid = first + len div 2"
    have mid: "mid < length xs" "mid < first + len" using False "1.prems"(3) by (auto simp: mid_def)
    show ?thesis
    proof (cases "pred (xs ! mid)")
      case True
      have step: "partition_search pred xs first len = partition_search pred xs (mid + 1) (len - len div 2 - 1)"
        using False True by (subst partition_search.simps) (simp add: mid_def Let_def)
      have "mid + 1 + (len - len div 2 - 1) = first + len" using False by (simp add: mid_def)
      then have upper: "\<forall>i. mid + 1 + (len - len div 2 - 1) \<le> i \<longrightarrow> i < length xs \<longrightarrow> \<not> pred (xs ! i)"
          "mid + 1 + (len - len div 2 - 1) \<le> length xs" using "1.prems"(2,3) by simp_all
      have lower: "\<forall>i < mid + 1. pred (xs ! i)"
        using "1.prems"(4) True mid(1) unfolding less_Suc_eq_le Suc_eq_plus1 [symmetric] by blast
      show ?thesis unfolding step by (rule "1.IH"(1) [OF False refl mid_def True lower upper "1.prems"(4)])
    next
      case outside: False
      have step: "partition_search pred xs first len = partition_search pred xs first (len div 2)"
        using False outside by (subst partition_search.simps) (simp add: mid_def Let_def)
      have "\<forall>i. first + len div 2 \<le> i \<longrightarrow> i < length xs \<longrightarrow> \<not> pred (xs ! i)"
        using "1.prems"(4) outside unfolding mid_def by blast
      moreover have "first + len div 2 \<le> length xs" using mid(1) by (simp add: mid_def)
      ultimately show ?thesis unfolding step
        by (intro "1.IH"(2) [OF False refl mid_def outside "1.prems"(1) _ _ "1.prems"(4)])
    qed
  qed
qed

lemma partition_point_spec:
  assumes "\<forall>i j. i \<le> j \<longrightarrow> j < length xs \<longrightarrow> pred (xs ! j) \<longrightarrow> pred (xs ! i)"
  shows "partition_point pred xs \<le> length xs" "i < partition_point pred xs \<Longrightarrow> pred (xs ! i)"
    "partition_point pred xs \<le> i \<Longrightarrow> i < length xs \<Longrightarrow> \<not> pred (xs ! i)"
  using partition_search_spec [of 0 pred xs "length xs"] assms by (simp_all add: partition_point_def)

context user_comparator_laws
begin

lemma user_less_trans: "Compare c x y < 0 \<Longrightarrow> Compare c y z < 0 \<Longrightarrow> Compare c x z < 0"
  by (rule compare_le_less_trans [of x y z]) simp_all

lemma user_greater_trans: "0 < Compare c x y \<Longrightarrow> 0 < Compare c y z \<Longrightarrow> 0 < Compare c x z"
  using user_less_trans [of z y x] by (simp add: compare_flip_less)

lemma user_le_trans: "Compare c x y \<le> 0 \<Longrightarrow> Compare c y z \<le> 0 \<Longrightarrow> Compare c x z \<le> 0"
  by (rule compare_trans [of x y z]) simp_all

lemma user_flip: "Compare c y x < 0 \<longleftrightarrow> 0 < Compare c x y" "Compare c y x \<le> 0 \<longleftrightarrow> 0 \<le> Compare c x y"
    "Compare c y x = 0 \<longleftrightarrow> Compare c x y = 0" and user_refl [simp]: "Compare c x x = 0"
  by (simp_all add: compare_flip_less compare_flip_le compare_flip_eq compare_refl)

lemma wider_files_low:
  assumes "f \<in> set files" "Compare c (file_low f) low < 0"
  shows "wider_files c files (file_low f) high < wider_files c files low high"
proof -
  have "length (filter (\<lambda>g. Compare c (file_low g) (file_low f) < 0) files) < length (filter (\<lambda>g. Compare c (file_low g) low < 0) files)"
    by (rule length_filter_less [of f]) (use assms in \<open>auto simp: compare_refl intro: user_less_trans\<close>)
  then show ?thesis by (simp add: wider_files_def)
qed

lemma wider_files_high:
  assumes "f \<in> set files" "Compare c (file_high f) high > 0"
  shows "wider_files c files low (file_high f) < wider_files c files low high"
proof -
  have "length (filter (\<lambda>g. Compare c (file_high g) (file_high f) > 0) files) < length (filter (\<lambda>g. Compare c (file_high g) high > 0) files)"
    by (rule length_filter_less [of f]) (use assms in \<open>auto simp: compare_refl intro: user_greater_trans\<close>)
  then show ?thesis by (simp add: wider_files_def)
qed

lemma overlaps_mono: "overlaps c low high f \<Longrightarrow> Compare c l low \<le> 0 \<Longrightarrow> Compare c high h \<le> 0 \<Longrightarrow> overlaps c l h f"
  unfolding overlaps_def using user_le_trans [of l low "file_high f"] user_le_trans [of "file_low f" high h]
  by (simp add: user_flip(2) [of low] user_flip(2) [of l])

lemma closed_inside:
  assumes "f \<in> set files" "overlaps c low high f" "Compare c l low \<le> 0" "Compare c high h \<le> 0" "closed_range c files l h"
  shows "Compare c l (file_low f) \<le> 0 \<and> Compare c (file_high f) h \<le> 0"
proof -
  have "inside c l h f" using assms overlaps_mono unfolding closed_range_def by blast
  then show ?thesis by (simp add: inside_def user_flip(2) [of l])
qed

lemma search_range_step:
  assumes "search_range c files 0 low1 high1 low' high'" "Compare c low1 low \<le> 0" "Compare c high high1 \<le> 0"
    and "\<And>l h. Compare c l low \<le> 0 \<Longrightarrow> Compare c high h \<le> 0 \<Longrightarrow> closed_range c files l h \<Longrightarrow>
      Compare c l low1 \<le> 0 \<and> Compare c high1 h \<le> 0"
  shows "search_range c files 0 low high low' high'"
proof -
  have min: "Compare c l low' \<le> 0 \<and> Compare c high' h \<le> 0"
    if "Compare c l low \<le> 0" "Compare c high h \<le> 0" "closed_range c files l h" for l h
    using assms(1) assms(4) [OF that] that(3) unfolding search_range_def by (simp split: if_splits) blast
  have "Compare c low' low \<le> 0" "Compare c high high' \<le> 0"
    using assms(1-3) user_le_trans [of low' low1 low] user_le_trans [of high high1 high'] by (simp_all add: search_range_def)
  moreover have "closed_range c files low' high'" using assms(1) by (simp add: search_range_def)
  ultimately show ?thesis using min unfolding search_range_def by (simp only: refl if_True) blast
qed

lemma OverlapLoop_level0:
  assumes "overlapping = filter (overlaps c low high) (take index files)" "\<forall>f \<in> set overlapping. inside c low high f"
    "index \<le> length files"
  shows "\<exists>low' high'. OverlapLoop c files 0 low high overlapping index = Some (filter (overlaps c low' high') files) \<and>
    search_range c files 0 low high low' high'"
  using assms
proof (induction "wider_files c files low high * Suc (length files) + (length files - index)"
    arbitrary: low high overlapping index rule: less_induct)
  case less
  show ?case
  proof (cases "index = length files")
    case True
    then have "closed_range c files low high" using less.prems by (auto simp: closed_range_def)
    then show ?thesis using less.prems True by (intro exI [of _ low] exI [of _ high]) (simp add: OverlapLoop.simps search_range_def)
  next
    case False
    then have i: "index < length files" using less.prems(3) by simp
    let ?f = "files ! index"
    have f: "?f \<in> set files" using i by simp
    have take: "take (index + 1) files = take index files @ [?f]" using i by (simp add: take_Suc_conv_app_nth)
    have advance: "\<exists>low' high'. OverlapLoop c files 0 low high ov (index + 1) = Some (filter (overlaps c low' high') files) \<and>
        search_range c files 0 low high low' high'"
      if "ov = filter (overlaps c low high) (take (index + 1) files)" "\<forall>f \<in> set ov. inside c low high f" for ov
      by (rule less.hyps [OF _ that]) (use i in simp_all)
    have restart: "\<exists>low' high'. OverlapLoop c files 0 low1 high1 [] 0 = Some (filter (overlaps c low' high') files) \<and>
        search_range c files 0 low1 high1 low' high'" if smaller: "wider_files c files low1 high1 < wider_files c files low high" for low1 high1
    proof (rule less.hyps)
      have "Suc (wider_files c files low1 high1) * Suc (length files) \<le> wider_files c files low high * Suc (length files)"
        using smaller by (intro mult_le_mono1) simp
      then show "wider_files c files low1 high1 * Suc (length files) + (length files - 0)
          < wider_files c files low high * Suc (length files) + (length files - index)" by simp
    qed simp_all
    consider (miss) "\<not> overlaps c low high ?f" | (low) "overlaps c low high ?f" "Compare c (file_low ?f) low < 0"
      | (high) "overlaps c low high ?f" "\<not> Compare c (file_low ?f) low < 0" "Compare c (file_high ?f) high > 0"
      | (hit) "overlaps c low high ?f" "inside c low high ?f" by (fastforce simp: inside_def)
    then show ?thesis
    proof cases
      case miss
      then have "OverlapLoop c files 0 low high overlapping index = OverlapLoop c files 0 low high overlapping (index + 1)"
        using i by (subst OverlapLoop.simps) (auto simp: overlaps_def Let_def)
      then show ?thesis using advance [of overlapping] less.prems miss take by simp
    next
      case low
      then have step: "OverlapLoop c files 0 low high overlapping index = OverlapLoop c files 0 (file_low ?f) high [] 0"
        using i by (subst OverlapLoop.simps) (auto simp: overlaps_def Let_def)
      obtain low' high' where rest: "OverlapLoop c files 0 (file_low ?f) high [] 0 = Some (filter (overlaps c low' high') files)"
          "search_range c files 0 (file_low ?f) high low' high'" using restart [OF wider_files_low [OF f low(2)]] by blast
      have "search_range c files 0 low high low' high'"
        by (rule search_range_step [OF rest(2)]) (use low closed_inside [OF f low(1)] in simp_all)
      then show ?thesis using step rest(1) by auto
    next
      case high
      then have step: "OverlapLoop c files 0 low high overlapping index = OverlapLoop c files 0 low (file_high ?f) [] 0"
        using i by (subst OverlapLoop.simps) (auto simp: overlaps_def Let_def)
      obtain low' high' where rest: "OverlapLoop c files 0 low (file_high ?f) [] 0 = Some (filter (overlaps c low' high') files)"
          "search_range c files 0 low (file_high ?f) low' high'" using restart [OF wider_files_high [OF f high(3)]] by blast
      have "search_range c files 0 low high low' high'"
        by (rule search_range_step [OF rest(2)]) (use high closed_inside [OF f high(1)] user_flip(2) [of high] in simp_all)
      then show ?thesis using step rest(1) by auto
    next
      case hit
      then have "OverlapLoop c files 0 low high overlapping index = OverlapLoop c files 0 low high (overlapping @ [?f]) (index + 1)"
        using i by (subst OverlapLoop.simps) (auto simp: overlaps_def inside_def Let_def)
      moreover have "overlapping @ [?f] = filter (overlaps c low high) (take (index + 1) files)"
        "\<forall>f \<in> set (overlapping @ [?f]). inside c low high f" using less.prems hit take by auto
      ultimately show ?thesis using advance by simp
    qed
  qed
qed

lemma OverlappingFiles_returns:
  "\<exists>low high. OverlappingFiles version level c bounds = Some (filter (overlaps c low high) (Version_files version level)) \<and>
     search_range c (Version_files version level) level (InternalKey_user_key (kr_smallest bounds))
       (InternalKey_user_key (kr_largest bounds)) low high"
proof (cases "level = 0")
  case True
  then show ?thesis unfolding OverlappingFiles_def using OverlapLoop_level0 [of "[]" _ _ 0] by simp
next
  case False
  then show ?thesis by (auto simp: OverlappingFiles_def OverlapLoop_disjoint search_range_def)
qed


text \<open>Internal and user order of keys.\<close>

lemma internal_user_le: "InternalKeyCompare c (ik_encoded k) (ik_encoded l) \<le> 0 \<Longrightarrow> Compare c (InternalKey_user_key k) (InternalKey_user_key l) \<le> 0"
  by (auto simp: InternalKeyCompare_le InternalKey_user_key_def)

lemma user_internal_less: "Compare c (InternalKey_user_key k) (InternalKey_user_key l) < 0 \<Longrightarrow> InternalKeyCompare c (ik_encoded k) (ik_encoded l) < 0"
  by (simp add: InternalKeyCompare_less InternalKey_user_key_def)

lemma file_ordered_user: "file_ordered c f \<Longrightarrow> Compare c (file_low f) (file_high f) \<le> 0"
  by (rule internal_user_le)

lemma internal_refl [simp]: "InternalKeyCompare c x x = 0"
  by (simp add: InternalKeyCompare_eq_0)

lemma Widen_spec:
  "InternalKeyCompare c (ik_encoded (kr_smallest (Widen c fs b))) (ik_encoded (kr_smallest b)) \<le> 0 \<and>
   InternalKeyCompare c (ik_encoded (kr_largest b)) (ik_encoded (kr_largest (Widen c fs b))) \<le> 0 \<and>
   covers_files c (Widen c fs b) (set fs) \<and>
   kr_smallest (Widen c fs b) \<in> insert (kr_smallest b) (fm_smallest ` set fs) \<and>
   kr_largest (Widen c fs b) \<in> insert (kr_largest b) (fm_largest ` set fs)"
proof (induction fs arbitrary: b)
  case Nil
  then show ?case by (simp add: Widen_def covers_files_def)
next
  case (Cons f fs)
  define b1 where "b1 = (if InternalKeyCompare c (ik_encoded (fm_smallest f)) (ik_encoded (kr_smallest b)) < 0 then b\<lparr>kr_smallest := fm_smallest f\<rparr> else b)"
  define b2 where "b2 = (if InternalKeyCompare c (ik_encoded (fm_largest f)) (ik_encoded (kr_largest b1)) > 0 then b1\<lparr>kr_largest := fm_largest f\<rparr> else b1)"
  have step: "Widen c (f # fs) b = Widen c fs b2" by (simp add: Widen_def b1_def b2_def Let_def)
  have small: "InternalKeyCompare c (ik_encoded (kr_smallest b2)) (ik_encoded (kr_smallest b)) \<le> 0 \<and>
      InternalKeyCompare c (ik_encoded (kr_smallest b2)) (ik_encoded (fm_smallest f)) \<le> 0 \<and> kr_smallest b2 \<in> {kr_smallest b, fm_smallest f}"
    using internal_flip [of "ik_encoded (kr_smallest b)" "ik_encoded (fm_smallest f)"] by (auto simp: b1_def b2_def)
  have large: "InternalKeyCompare c (ik_encoded (kr_largest b)) (ik_encoded (kr_largest b2)) \<le> 0 \<and>
      InternalKeyCompare c (ik_encoded (fm_largest f)) (ik_encoded (kr_largest b2)) \<le> 0 \<and> kr_largest b2 \<in> {kr_largest b, fm_largest f}"
    using internal_flip [of "ik_encoded (kr_largest b)" "ik_encoded (fm_largest f)"] by (auto simp: b1_def b2_def)
  show ?case
    unfolding step using Cons.IH [of b2] small large
    by (auto simp: covers_files_def intro: internal_trans)
qed

lemma RangeOf_spec:
  assumes "RangeOf c fs = Some b"
  shows "covers_files c b (set fs)" "\<exists>f \<in> set fs. kr_smallest b = fm_smallest f" "\<exists>f \<in> set fs. kr_largest b = fm_largest f"
proof -
  obtain f gs where fs: "fs = f # gs" using assms by (cases fs) auto
  then have b: "b = Widen c gs \<lparr>kr_smallest = fm_smallest f, kr_largest = fm_largest f\<rparr>" using assms by simp
  note spec = Widen_spec [of gs "\<lparr>kr_smallest = fm_smallest f, kr_largest = fm_largest f\<rparr>", folded b]
  show "covers_files c b (set fs)" "\<exists>f \<in> set fs. kr_smallest b = fm_smallest f" "\<exists>f \<in> set fs. kr_largest b = fm_largest f"
    using spec by (auto simp: fs covers_files_def)
qed

text \<open>The first file after a key.\<close>

lemma following_spec:
  fixes k :: InternalKey
  assumes wf: "wf_files c lf"
  defines "p \<equiv> partition_point (\<lambda>f. InternalKeyCompare c (ik_encoded (fm_smallest f)) (ik_encoded k) \<le> 0) lf"
  shows "p \<le> length lf" "p < length lf \<Longrightarrow> key_before c k (lf ! p)"
    "f \<in> set lf \<Longrightarrow> key_before c k f \<Longrightarrow> p < length lf \<and> (f = lf ! p \<or> f \<in> set (drop (Suc p) lf))"
proof -
  let ?pred = "\<lambda>f. InternalKeyCompare c (ik_encoded (fm_smallest f)) (ik_encoded k) \<le> 0"
  have "?pred (lf ! i)" if "i \<le> j" "j < length lf" "?pred (lf ! j)" for i j
  proof (cases "i = j")
    case False
    then have "InternalKeyCompare c (ik_encoded (fm_smallest (lf ! i))) (ik_encoded (fm_smallest (lf ! j))) \<le> 0"
      using that wf by (simp add: wf_files_def sorted_wrt_iff_nth_less)
    then show ?thesis using that(3) internal_trans by blast
  qed (use that in simp)
  then have part: "\<forall>i j. i \<le> j \<longrightarrow> j < length lf \<longrightarrow> ?pred (lf ! j) \<longrightarrow> ?pred (lf ! i)" by blast
  note point = partition_point_spec [OF part, folded p_def]
  show "p \<le> length lf" by (rule point(1))
  show "key_before c k (lf ! p)" if "p < length lf"
    using point(3) [OF le_refl that] internal_flip(1) [of "ik_encoded k" "ik_encoded (fm_smallest (lf ! p))"] by simp
  show "p < length lf \<and> (f = lf ! p \<or> f \<in> set (drop (Suc p) lf))" if f: "f \<in> set lf" "key_before c k f"
  proof -
    obtain i where i: "i < length lf" "f = lf ! i" using f(1) by (auto simp: in_set_conv_nth)
    have "\<not> i < p" using point(2) [of i] i f(2) internal_flip(1) [of "ik_encoded k" "ik_encoded (fm_smallest f)"] by auto
    moreover have "lf ! i \<in> set (drop (Suc p) lf)" if "p < i"
      using that i(1) nth_mem [of "i - Suc p" "drop (Suc p) lf"] by simp
    ultimately show ?thesis using i by (cases "p = i") auto
  qed
qed

lemma sorted_nth_drop: "sorted_wrt P xs \<Longrightarrow> p < length xs \<Longrightarrow> y \<in> set (drop (Suc p) xs) \<Longrightarrow> P (xs ! p) y"
  using sorted_wrt_nth_less [of P xs p] by (auto simp: in_set_conv_nth)

lemma BoundaryLoop_returns:
  assumes "wf_files c lf"
  shows "\<exists>extra. BoundaryLoop c lf files largest = Some (files @ extra) \<and> set extra \<subseteq> set lf \<and> (\<forall>g \<in> set extra. key_before c largest g) \<and>
    (sorted_wrt (files_apart c) lf \<longrightarrow> (\<forall>f \<in> set lf. key_before c largest f \<longrightarrow> f \<notin> set extra \<longrightarrow>
       Compare c (InternalKey_user_key largest) (file_low f) < 0 \<and> (\<forall>g \<in> set extra. user_before c g f)))"
proof (induction "length (filter (key_before c largest) lf)" arbitrary: files largest rule: less_induct)
  case less
  define p where "p = partition_point (\<lambda>f. InternalKeyCompare c (ik_encoded (fm_smallest f)) (ik_encoded largest) \<le> 0) lf"
  note following = following_spec [OF assms, where k = largest, folded p_def]
  let ?f = "lf ! p"
  show ?case
  proof (cases "p = length lf \<or> Compare c (file_low ?f) (InternalKey_user_key largest) \<noteq> 0")
    case True
    then have stop: "BoundaryLoop c lf files largest = Some files" by (subst BoundaryLoop.simps) (simp add: p_def Let_def)
    have "Compare c (InternalKey_user_key largest) (file_low f) < 0" if f: "f \<in> set lf" "key_before c largest f" for f
    proof -
      have p: "p < length lf" "f = ?f \<or> f \<in> set (drop (Suc p) lf)" using following(3) [OF f] by auto
      have "InternalKeyCompare c (ik_encoded (fm_smallest ?f)) (ik_encoded (fm_smallest f)) \<le> 0"
        using p sorted_nth_drop [of _ lf p f] assms by (auto simp: wf_files_def)
      then have "Compare c (file_low ?f) (file_low f) \<le> 0" by (rule internal_user_le)
      moreover have "Compare c (InternalKey_user_key largest) (file_low ?f) \<le> 0"
        using following(2) [OF p(1)] by (intro internal_user_le) simp
      then have "Compare c (InternalKey_user_key largest) (file_low ?f) < 0"
        using True p(1) user_flip(3) [of "file_low ?f"] by (simp add: less_le)
      ultimately show ?thesis using compare_less_le_trans [of "InternalKey_user_key largest" "file_low ?f" "file_low f"] by simp
    qed
    then show ?thesis using stop by (intro exI [of _ "[]"]) simp
  next
    case False
    then have p: "p < length lf" using following(1) by simp
    have f: "?f \<in> set lf" "file_ordered c ?f" "key_before c largest ?f" using p following(2) assms by (auto simp: wf_files_def)
    have step: "BoundaryLoop c lf files largest = BoundaryLoop c lf (files @ [?f]) (fm_largest ?f)"
      using False by (subst BoundaryLoop.simps) (simp add: p_def Let_def)
    have larger: "InternalKeyCompare c (ik_encoded largest) (ik_encoded (fm_largest ?f)) < 0"
      using f(2,3) internal_less_le_trans by blast
    have "length (filter (key_before c (fm_largest ?f)) lf) < length (filter (key_before c largest) lf)"
    proof (rule length_filter_less [OF f(1)])
      show "key_before c largest ?f" by (rule f(3))
      show "\<not> key_before c (fm_largest ?f) ?f" using f(2) by (simp add: internal_flip(1) [of "ik_encoded (fm_largest ?f)"])
      show "key_before c largest g" if "key_before c (fm_largest ?f) g" for g using larger that by (rule internal_less_trans)
    qed
    from less [OF this, of "files @ [?f]"] obtain extra where extra:
      "BoundaryLoop c lf (files @ [?f]) (fm_largest ?f) = Some ((files @ [?f]) @ extra)" "set extra \<subseteq> set lf"
      "\<forall>g \<in> set extra. key_before c (fm_largest ?f) g"
      "sorted_wrt (files_apart c) lf \<longrightarrow> (\<forall>f \<in> set lf. key_before c (fm_largest ?f) f \<longrightarrow> f \<notin> set extra \<longrightarrow>
         Compare c (file_high ?f) (file_low f) < 0 \<and> (\<forall>g \<in> set extra. user_before c g f))" by auto
    have beyond: "Compare c (InternalKey_user_key largest) (file_low f) < 0 \<and> (\<forall>g \<in> set (?f # extra). user_before c g f)"
      if "sorted_wrt (files_apart c) lf" "f \<in> set lf" "key_before c largest f" "f \<notin> set (?f # extra)" for f
    proof -
      have "f \<in> set (drop (Suc p) lf)" using following(3) [OF that(2,3)] that(4) by auto
      then have "key_before c (fm_largest ?f) f" by (rule sorted_nth_drop [OF that(1) p])
      then have "user_before c ?f f \<and> (\<forall>g \<in> set extra. user_before c g f)" using extra(4) that by auto
      moreover have "Compare c (InternalKey_user_key largest) (file_high ?f) \<le> 0" using larger by (intro internal_user_le) simp
      ultimately show ?thesis using compare_le_less_trans [of "InternalKey_user_key largest" "file_high ?f" "file_low f"] by simp
    qed
    have "\<forall>g \<in> set (?f # extra). key_before c largest g" using extra(3) f(3) larger internal_less_trans by auto
    then show ?thesis using step extra(1,2) f(1) beyond by (intro exI [of _ "?f # extra"]) simp
  qed
qed

lemma apart_total: "sorted_wrt (files_apart c) lf \<Longrightarrow> f \<in> set lf \<Longrightarrow> g \<in> set lf \<Longrightarrow> f \<noteq> g \<Longrightarrow> files_apart c f g \<or> files_apart c g f"
  by (induction lf) auto

lemma user_before_apart: "user_before c f g \<Longrightarrow> files_apart c f g"
  by (rule user_internal_less)

lemma apart_user: "files_apart c f g \<Longrightarrow> Compare c (file_high f) (file_low g) \<le> 0"
  by (rule internal_user_le) simp

lemma AddBoundaryInputs_Nil [simp]: "AddBoundaryInputs c lf [] = Some []"
  by (simp add: AddBoundaryInputs_def)

lemma boundary_run:
  assumes wf: "wf_files c lf" and apart: "sorted_wrt (files_apart c) lf" and S: "S \<noteq> []" "set S \<subseteq> set lf"
    and sides: "\<And>f. f \<in> set lf \<Longrightarrow> f \<notin> set S \<Longrightarrow> (\<forall>g \<in> set S. files_apart c f g) \<or> (\<forall>g \<in> set S. files_apart c g f)"
  shows "\<exists>extra. AddBoundaryInputs c lf S = Some (S @ extra) \<and> set extra \<subseteq> set lf \<and>
    (\<forall>f \<in> set lf. f \<notin> set (S @ extra) \<longrightarrow> (\<forall>g \<in> set (S @ extra). files_apart c f g) \<or> (\<forall>g \<in> set (S @ extra). user_before c g f))"
proof -
  obtain b where b: "RangeOf c S = Some b" using S(1) by (cases S) auto
  obtain last where last: "last \<in> set S" "kr_largest b = fm_largest last" using RangeOf_spec(3) [OF b] by blast
  obtain extra where extra: "BoundaryLoop c lf S (kr_largest b) = Some (S @ extra)" "set extra \<subseteq> set lf"
      "\<forall>g \<in> set extra. key_before c (kr_largest b) g"
      "\<forall>f \<in> set lf. key_before c (kr_largest b) f \<longrightarrow> f \<notin> set extra \<longrightarrow>
         Compare c (InternalKey_user_key (kr_largest b)) (file_low f) < 0 \<and> (\<forall>g \<in> set extra. user_before c g f)"
    using BoundaryLoop_returns [OF wf, of S "kr_largest b"] apart by blast
  have largest: "InternalKeyCompare c (ik_encoded (fm_largest g)) (ik_encoded (kr_largest b)) \<le> 0" if "g \<in> set S" for g
    using RangeOf_spec(1) [OF b] that by (simp add: covers_files_def)
  have "(\<forall>g \<in> set (S @ extra). files_apart c f g) \<or> (\<forall>g \<in> set (S @ extra). user_before c g f)"
    if f: "f \<in> set lf" "f \<notin> set (S @ extra)" for f
  proof -
    have "f \<notin> set S" using f(2) by simp
    then consider (left) "\<forall>g \<in> set S. files_apart c f g" | (right) "\<forall>g \<in> set S. files_apart c g f" using sides [OF f(1)] by blast
    then show ?thesis
    proof cases
      case left
      have "files_apart c f g" if g: "g \<in> set extra" for g
      proof -
        have "InternalKeyCompare c (ik_encoded (fm_largest f)) (ik_encoded (kr_largest b)) \<le> 0"
          using left last S(2) wf internal_less_le_trans [of "ik_encoded (fm_largest f)" "ik_encoded (fm_smallest last)" "ik_encoded (fm_largest last)"]
          by (auto simp: wf_files_def)
        then show ?thesis using extra(3) g internal_le_less_trans by blast
      qed
      then show ?thesis using left by auto
    next
      case right
      then have "key_before c (kr_largest b) f" using last by simp
      then have beyond: "Compare c (InternalKey_user_key (kr_largest b)) (file_low f) < 0" "\<forall>g \<in> set extra. user_before c g f"
        using extra(4) f by auto
      have "user_before c g f" if "g \<in> set S" for g
        using compare_le_less_trans [OF _ _ _ internal_user_le [OF largest [OF that]] beyond(1)] by simp
      then show ?thesis using beyond(2) by auto
    qed
  qed
  then show ?thesis using b extra(1,2) by (intro exI [of _ extra]) (simp add: AddBoundaryInputs_def)
qed

lemma overlap_sides:
  assumes wf: "wf_files c lf" and apart: "sorted_wrt (files_apart c) lf" and f: "f \<in> set lf" and g: "g \<in> set lf" "overlaps c low high g"
  shows "Compare c (file_high f) low < 0 \<Longrightarrow> files_apart c f g" "Compare c high (file_low f) < 0 \<Longrightarrow> files_apart c g f"
proof -
  have order: "Compare c (file_low f) (file_high f) \<le> 0" "Compare c (file_low g) (file_high g) \<le> 0"
    using wf f g(1) by (auto simp: wf_files_def intro!: file_ordered_user)
  have over: "Compare c low (file_high g) \<le> 0" "Compare c (file_low g) high \<le> 0"
    using g(2) by (simp_all add: overlaps_def user_flip(2) [of low])
  show "files_apart c f g" if left: "Compare c (file_high f) low < 0"
  proof (rule ccontr)
    assume "\<not> files_apart c f g"
    moreover have "f \<noteq> g" using left over(1) user_flip(1) [of "file_high f" low] by auto
    ultimately have "files_apart c g f" using apart_total [OF apart f g(1)] by blast
    from user_le_trans [OF user_le_trans [OF over(1) apart_user [OF this]] order(1)]
    show False using left user_flip(1) [of "file_high f" low] by simp
  qed
  show "files_apart c g f" if right: "Compare c high (file_low f) < 0"
  proof (rule ccontr)
    assume "\<not> files_apart c g f"
    moreover have "f \<noteq> g" using right over(2) user_flip(1) [of high "file_low f"] by auto
    ultimately have "files_apart c f g" using apart_total [OF apart f g(1)] by blast
    from user_le_trans [OF user_le_trans [OF order(1) apart_user [OF this]] over(2)]
    show False using right user_flip(1) [of high "file_low f"] by simp
  qed
qed

lemma overlap_boundary:
  assumes wf: "wf_files c lf" and apart: "sorted_wrt (files_apart c) lf"
  shows "\<exists>S. AddBoundaryInputs c lf (filter (overlaps c low high) lf) = Some S \<and> set S \<subseteq> set lf \<and>
    (\<forall>f \<in> set lf. f \<notin> set S \<longrightarrow>
       Compare c (file_high f) low < 0 \<and> (\<forall>g \<in> set S. files_apart c f g) \<or>
       Compare c high (file_low f) < 0 \<and> (\<forall>g \<in> set S. user_before c g f))"
proof -
  let ?S = "filter (overlaps c low high) lf"
  have out: "Compare c (file_high f) low < 0 \<or> Compare c high (file_low f) < 0" if "\<not> overlaps c low high f" for f
    using that by (auto simp: overlaps_def user_flip(1) [of high])
  show ?thesis
  proof (cases "?S = []")
    case True
    then show ?thesis using out by (intro exI [of _ "[]"]) (simp add: filter_empty_conv)
  next
    case False
    then obtain g where g: "g \<in> set lf" "overlaps c low high g" by (auto simp: filter_empty_conv)
    have sides: "(\<forall>g \<in> set ?S. files_apart c f g) \<or> (\<forall>g \<in> set ?S. files_apart c g f)" if "f \<in> set lf" "f \<notin> set ?S" for f
      using out [of f] that overlap_sides [OF wf apart that(1)] by auto
    obtain extra where extra: "AddBoundaryInputs c lf ?S = Some (?S @ extra)" "set extra \<subseteq> set lf"
        "\<forall>f \<in> set lf. f \<notin> set (?S @ extra) \<longrightarrow>
           (\<forall>g \<in> set (?S @ extra). files_apart c f g) \<or> (\<forall>g \<in> set (?S @ extra). user_before c g f)"
      using boundary_run [OF wf apart False _ sides] by auto
    have "Compare c (file_high f) low < 0 \<and> (\<forall>g \<in> set (?S @ extra). files_apart c f g) \<or>
        Compare c high (file_low f) < 0 \<and> (\<forall>g \<in> set (?S @ extra). user_before c g f)"
      if f: "f \<in> set lf" "f \<notin> set (?S @ extra)" for f
    proof -
      have cycle: False if "files_apart c x y" "files_apart c y x" "x \<in> set lf" "y \<in> set lf" for x y
        using internal_less_le_trans [OF internal_less_trans [OF internal_less_le_trans [OF that(1)] that(2)], of "ik_encoded (fm_largest x)"]
          that wf by (auto simp: wf_files_def)
      have gS: "g \<in> set (?S @ extra)" using g by simp
      have "\<not> overlaps c low high f" using f by simp
      then show ?thesis
        using out [of f] extra(3) f gS overlap_sides [OF wf apart f(1) g] cycle [OF _ _ f(1) g(1)] user_before_apart by blast
    qed
    then show ?thesis using extra(1,2) by (intro exI [of _ "?S @ extra"]) auto
  qed
qed

lemma closed_boundary:
  assumes wf: "wf_files c lf" and closed: "closed_range c lf low high"
  defines "S \<equiv> filter (overlaps c low high) lf"
  shows "AddBoundaryInputs c lf S = Some S" "isolated c 0 lf S"
proof -
  have in_range: "Compare c low (file_low g) \<le> 0" "Compare c (file_high g) high \<le> 0" if "g \<in> set S" for g
    using that closed by (auto simp: S_def closed_range_def inside_def user_flip(2) [of low])
  show iso: "isolated c 0 lf S"
    unfolding isolated_def
  proof (intro ballI)
    fix f assume f: "f \<in> set lf"
    show "f \<in> set S \<or> (\<forall>g \<in> set S. if (0 :: u32) = 0 then user_before c f g else files_apart c f g) \<or> (\<forall>g \<in> set S. user_before c g f)"
    proof (cases "f \<in> set S")
      case False
      then consider "Compare c (file_high f) low < 0" | "Compare c high (file_low f) < 0"
        using f by (auto simp: S_def overlaps_def user_flip(1) [of high])
      then show ?thesis
      proof cases
        case 1
        then have "user_before c f g" if "g \<in> set S" for g using compare_less_le_trans [OF _ _ _ 1 in_range(1) [OF that]] by simp
        then show ?thesis by simp
      next
        case 2
        then have "user_before c g f" if "g \<in> set S" for g using compare_le_less_trans [OF _ _ _ in_range(2) [OF that] 2] by simp
        then show ?thesis by simp
      qed
    qed simp
  qed
  show "AddBoundaryInputs c lf S = Some S"
  proof (cases "RangeOf c S")
    case (Some b)
    obtain last where last: "last \<in> set S" "kr_largest b = fm_largest last" using RangeOf_spec(3) [OF Some] by blast
    define p where "p = partition_point (\<lambda>f. InternalKeyCompare c (ik_encoded (fm_smallest f)) (ik_encoded (kr_largest b)) \<le> 0) lf"
    note following = following_spec [OF wf, where k = "kr_largest b", folded p_def]
    have "Compare c (file_low (lf ! p)) (InternalKey_user_key (kr_largest b)) \<noteq> 0" if p: "p < length lf"
    proof -
      let ?f = "lf ! p"
      have f: "?f \<in> set lf" "file_ordered c ?f" "key_before c (kr_largest b) ?f" using p wf following(2) by (auto simp: wf_files_def)
      have "?f \<notin> set S"
        using RangeOf_spec(1) [OF Some] f(2,3) internal_less_le_trans [OF internal_less_le_trans [OF f(3,2)], of "ik_encoded (kr_largest b)"]
        by (auto simp: covers_files_def)
      then consider "user_before c ?f last" | "user_before c last ?f" using iso f(1) last(1) by (auto simp: isolated_def)
      then show ?thesis
      proof cases
        case 1
        have "files_apart c last ?f" using f(3) last(2) by simp
        from user_le_trans [OF apart_user [OF this] file_ordered_user [OF f(2)]]
        have "Compare c (file_high last) (file_high ?f) \<le> 0" .
        moreover have "last \<in> set lf" using last(1) by (simp add: S_def)
        then have "Compare c (file_low last) (file_high last) \<le> 0" using wf by (auto simp: wf_files_def intro: file_ordered_user)
        ultimately have "Compare c (file_low last) (file_high ?f) \<le> 0" by (rule user_le_trans [rotated])
        then show ?thesis using 1 user_flip(1) [of "file_high ?f" "file_low last"] by simp
      next
        case 2
        then show ?thesis using last(2) user_flip(1) [of "file_high last"] by simp
      qed
    qed
    then have "p = length lf \<or> Compare c (file_low (lf ! p)) (InternalKey_user_key (kr_largest b)) \<noteq> 0"
      using following(1) by (cases "p = length lf") auto
    then have "BoundaryLoop c lf S (kr_largest b) = Some S" by (subst BoundaryLoop.simps) (simp add: p_def [symmetric] Let_def)
    then show ?thesis using Some by (simp add: AddBoundaryInputs_def)
  qed (simp add: AddBoundaryInputs_def)
qed

lemma level_files:
  assumes "wf_version c version" "unat level < levels"
  shows "wf_files c (Version_files version level)" "level \<noteq> 0 \<Longrightarrow> sorted_wrt (files_apart c) (Version_files version level)"
proof -
  have "sorted_wrt (FileBefore c) (Version_files version level)" "\<forall>f \<in> set (Version_files version level). file_ordered c f"
    using assms by (simp_all add: wf_version_def Version_files_def)
  note files = this
  have "sorted_wrt (\<lambda>f g. InternalKeyCompare c (ik_encoded (fm_smallest f)) (ik_encoded (fm_smallest g)) \<le> 0) (Version_files version level)"
    by (rule sorted_wrt_mono_rel [OF _ files(1)]) (auto simp: FileBefore_def Let_def split: if_splits)
  then show "wf_files c (Version_files version level)" using files(2) unfolding wf_files_def by blast
  show "sorted_wrt (files_apart c) (Version_files version level)" if "level \<noteq> 0"
    using assms that by (simp add: wf_version_def Version_files_def unat_gt_0)
qed

lemma search_level:
  assumes wf: "wf_version c version" "unat level < levels"
  shows "\<exists>ov S. OverlappingFiles version level c b = Some ov \<and> AddBoundaryInputs c (Version_files version level) ov = Some S \<and>
    set S \<subseteq> set (Version_files version level) \<and> isolated c level (Version_files version level) S"
proof -
  let ?lf = "Version_files version level"
  obtain low high where ov: "OverlappingFiles version level c b = Some (filter (overlaps c low high) ?lf)"
      "search_range c ?lf level (InternalKey_user_key (kr_smallest b)) (InternalKey_user_key (kr_largest b)) low high"
    using OverlappingFiles_returns by blast
  show ?thesis
  proof (cases "level = 0")
    case True
    then have "closed_range c ?lf low high" using ov(2) by (simp add: search_range_def)
    then show ?thesis using ov(1) closed_boundary [OF level_files(1) [OF wf]] True by auto
  next
    case False
    obtain S where S: "AddBoundaryInputs c ?lf (filter (overlaps c low high) ?lf) = Some S" "set S \<subseteq> set ?lf"
        "\<forall>f \<in> set ?lf. f \<notin> set S \<longrightarrow>
           Compare c (file_high f) low < 0 \<and> (\<forall>g \<in> set S. files_apart c f g) \<or>
           Compare c high (file_low f) < 0 \<and> (\<forall>g \<in> set S. user_before c g f)"
      using overlap_boundary [OF level_files(1) [OF wf] level_files(2) [OF wf False]] by blast
    have "isolated c level ?lf S" unfolding isolated_def if_not_P [OF False] using S(3) by blast
    then show ?thesis using ov(1) S(1,2) by blast
  qed
qed

lemma initial_inputs:
  assumes wf: "wf_version c version" "unat level < levels" and f0: "f0 \<in> set (Version_files version level)"
  shows "\<exists>S0 S. CloseLevelZeroInputs version c level [f0] = Some S0 \<and> AddBoundaryInputs c (Version_files version level) S0 = Some S \<and>
    S \<noteq> [] \<and> set S \<subseteq> set (Version_files version level) \<and> isolated c level (Version_files version level) S"
proof (cases "level = 0")
  case False
  let ?lf = "Version_files version level"
  have sides: "(\<forall>g \<in> set [f0]. files_apart c f g) \<or> (\<forall>g \<in> set [f0]. files_apart c g f)" if "f \<in> set ?lf" "f \<notin> set [f0]" for f
    using apart_total [OF level_files(2) [OF wf False] that(1) f0] that(2) by auto
  have f0_in: "[f0] \<noteq> []" "set [f0] \<subseteq> set ?lf" using f0 by simp_all
  obtain extra where extra: "AddBoundaryInputs c ?lf [f0] = Some ([f0] @ extra)" "set extra \<subseteq> set ?lf"
      "\<forall>f \<in> set ?lf. f \<notin> set ([f0] @ extra) \<longrightarrow>
         (\<forall>g \<in> set ([f0] @ extra). files_apart c f g) \<or> (\<forall>g \<in> set ([f0] @ extra). user_before c g f)"
    using boundary_run [OF level_files(1) [OF wf] level_files(2) [OF wf False] f0_in sides] by blast
  have "isolated c level ?lf ([f0] @ extra)" unfolding isolated_def if_not_P [OF False] using extra(3) by blast
  then show ?thesis using extra(1,2) f0 False by (intro exI [of _ "[f0]"] exI [of _ "[f0] @ extra"]) (simp add: CloseLevelZeroInputs_def)
next
  case True
  let ?lf = "Version_files version 0" and ?b = "\<lparr>kr_smallest = fm_smallest f0, kr_largest = fm_largest f0\<rparr>"
  obtain low high where ov: "OverlappingFiles version 0 c ?b = Some (filter (overlaps c low high) ?lf)"
      "search_range c ?lf 0 (file_low f0) (file_high f0) low high"
    using OverlappingFiles_returns [of version 0 ?b] by auto
  have closed: "closed_range c ?lf low high" and le: "Compare c low (file_low f0) \<le> 0" "Compare c (file_high f0) high \<le> 0"
    using ov(2) by (simp_all add: search_range_def)
  have "file_ordered c f0" using level_files(1) [OF wf] f0 by (simp add: wf_files_def)
  then have order: "Compare c (file_low f0) (file_high f0) \<le> 0" by (rule file_ordered_user)
  have "overlaps c low high f0"
    using user_le_trans [OF le(1) order] user_le_trans [OF order le(2)] by (simp add: overlaps_def user_flip(2) [of low])
  then have "filter (overlaps c low high) ?lf \<noteq> []" using f0 True by (auto simp: filter_empty_conv)
  moreover have "CloseLevelZeroInputs version c 0 [f0] = Some (filter (overlaps c low high) ?lf)"
    using ov(1) by (simp add: CloseLevelZeroInputs_def Widen_def)
  ultimately show ?thesis using closed_boundary [OF level_files(1) [OF wf, unfolded True] closed] True by auto
qed

lemma next_inputs:
  assumes wf: "wf_version c version" "unat level < levels" "level \<noteq> 0" and b: "RangeOf c S = Some b"
  shows "\<exists>ov S'. OverlappingFiles version level c b = Some ov \<and> AddBoundaryInputs c (Version_files version level) ov = Some S' \<and>
    set S' \<subseteq> set (Version_files version level) \<and>
    (\<forall>f \<in> set (Version_files version level). f \<in> set S' \<or>
        (\<forall>g \<in> set (S @ S'). files_apart c f g) \<or> (\<forall>g \<in> set (S @ S'). user_before c g f))"
proof -
  let ?lf = "Version_files version level"
  let ?low = "InternalKey_user_key (kr_smallest b)" and ?high = "InternalKey_user_key (kr_largest b)"
  have ov: "OverlappingFiles version level c b = Some (filter (overlaps c ?low ?high) ?lf)"
    using OverlappingFiles_returns [of version level b] wf(3) by (simp add: search_range_def)
  have S: "Compare c ?low (file_low g) \<le> 0" "Compare c (file_high g) ?high \<le> 0" if "g \<in> set S" for g
    using RangeOf_spec(1) [OF b] that by (simp_all add: covers_files_def internal_user_le)
  obtain S' where S': "AddBoundaryInputs c ?lf (filter (overlaps c ?low ?high) ?lf) = Some S'" "set S' \<subseteq> set ?lf"
      "\<forall>f \<in> set ?lf. f \<notin> set S' \<longrightarrow>
         Compare c (file_high f) ?low < 0 \<and> (\<forall>g \<in> set S'. files_apart c f g) \<or>
         Compare c ?high (file_low f) < 0 \<and> (\<forall>g \<in> set S'. user_before c g f)"
    using overlap_boundary [OF level_files(1) [OF wf(1,2)] level_files(2) [OF wf]] by blast
  have left: "files_apart c f g" if "Compare c (file_high f) ?low < 0" "g \<in> set S" for f g
    using compare_less_le_trans [OF _ _ _ that(1) S(1) [OF that(2)]] by (intro user_before_apart) simp
  have right: "user_before c g f" if "Compare c ?high (file_low f) < 0" "g \<in> set S" for f g
    using compare_le_less_trans [OF _ _ _ S(2) [OF that(2)] that(1)] by simp
  show ?thesis using ov S' left right by (intro exI conjI) (assumption+, auto)
qed

lemma next_level: "unat (level :: u32) < levels - 1 \<Longrightarrow> unat (level + 1) < levels \<and> level + 1 \<noteq> 0"
  by (auto simp: levels_eq unat_word_ariths word_neq_0_conv word_less_nat_alt)

lemma TryExpandInputs_returns:
  assumes wf: "wf_version c version" and level: "unat level < levels - 1"
  shows "\<exists>r. TryExpandInputs version c level S S' all target = Some r \<and>
    (\<forall>e. r = Some e \<longrightarrow> picked c version level (ex_inputs e) (ex_next_inputs e) \<and> RangeOf c (ex_inputs e) = Some (ex_range e))"
proof (cases "S' = []")
  case False
  have here: "unat level < levels" using level by simp
  obtain ov T where T: "OverlappingFiles version level c all = Some ov" "AddBoundaryInputs c (Version_files version level) ov = Some T"
      "set T \<subseteq> set (Version_files version level)" "isolated c level (Version_files version level) T"
    using search_level [OF wf here] by blast
  show ?thesis
  proof (cases "length T > length S \<and> TotalFileSize S' + TotalFileSize T < ExpandedCompactionFactor * target")
    case True
    then obtain b where b: "RangeOf c T = Some b" by (cases T) auto
    obtain ov' T' where T': "OverlappingFiles version (level + 1) c b = Some ov'"
        "AddBoundaryInputs c (Version_files version (level + 1)) ov' = Some T'"
        "set T' \<subseteq> set (Version_files version (level + 1))"
        "\<forall>f \<in> set (Version_files version (level + 1)). f \<in> set T' \<or>
          (\<forall>g \<in> set (T @ T'). files_apart c f g) \<or> (\<forall>g \<in> set (T @ T'). user_before c g f)"
      using next_inputs [OF wf conjunct1 [OF next_level [OF level]] conjunct2 [OF next_level [OF level]] b] by blast
    have "T \<noteq> []" using True by auto
    then have "picked c version level T T'" unfolding picked_def using T(3,4) T'(3,4) by blast
    then show ?thesis using False T(1,2) True b T'(1,2) by (simp add: TryExpandInputs_def)
  next
    case False
    then show ?thesis using \<open>S' \<noteq> []\<close> T(1,2) by (auto simp: TryExpandInputs_def)
  qed
qed (simp add: TryExpandInputs_def)

lemma SetupInputs_returns:
  assumes wf: "wf_version c version" and level: "unat level < levels - 1"
    and S: "AddBoundaryInputs c (Version_files version level) S0 = Some S" "S \<noteq> []" "set S \<subseteq> set (Version_files version level)"
      "isolated c level (Version_files version level) S"
  shows "\<exists>comp. SetupInputs version c level S0 target = Some comp \<and> co_level comp = level \<and> co_version comp = version \<and>
    picked c version level (fst (co_inputs comp)) (snd (co_inputs comp)) \<and>
    (\<exists>b. RangeOf c (fst (co_inputs comp)) = Some b \<and> co_compact_pointer comp = kr_largest b)"
proof -
  obtain b where b: "RangeOf c S = Some b" using S(2) by (cases S) auto
  obtain ov S' where S': "OverlappingFiles version (level + 1) c b = Some ov"
      "AddBoundaryInputs c (Version_files version (level + 1)) ov = Some S'"
      "set S' \<subseteq> set (Version_files version (level + 1))"
      "\<forall>f \<in> set (Version_files version (level + 1)). f \<in> set S' \<or>
        (\<forall>g \<in> set (S @ S'). files_apart c f g) \<or> (\<forall>g \<in> set (S @ S'). user_before c g f)"
    using next_inputs [OF wf conjunct1 [OF next_level [OF level]] conjunct2 [OF next_level [OF level]] b] by blast
  have plain: "picked c version level S S'" unfolding picked_def using S(2-4) S'(3,4) by blast
  let ?all = "Widen c S' b"
  obtain r where r: "TryExpandInputs version c level S S' ?all target = Some r"
      "\<forall>e. r = Some e \<longrightarrow> picked c version level (ex_inputs e) (ex_next_inputs e) \<and> RangeOf c (ex_inputs e) = Some (ex_range e)"
    using TryExpandInputs_returns [OF wf level] by blast
  obtain T T' b' all' where T: "ApplyExpandedInputs version c level target S S' b ?all = Some (T, T', b', all')"
      "picked c version level T T'" "RangeOf c T = Some b'"
    using r plain b by (cases r) (auto simp: ApplyExpandedInputs_def)
  obtain gs where "CollectGrandparents version c level all' = Some gs"
    using OverlappingFiles_returns [of version "level + 2" all'] by (cases "level + 2 \<ge> NumLevels") (auto simp: CollectGrandparents_def)
  then show ?thesis using S(1) b S'(1,2) T by (simp add: SetupInputs_def)
qed

lemma SelectInitialCompaction_returns:
  assumes seek: "seek_live version seek"
  shows "\<exists>r. SelectInitialCompaction version c pointers seek = Some r \<and>
    (\<forall>ic. r = Some ic \<longrightarrow> unat (ic_level ic) < levels - 1 \<and> (\<exists>f0 \<in> set (Version_files version (ic_level ic)). ic_inputs ic = [f0]))"
proof (cases "1 \<le> cs_score (ScoreCompaction version)")
  case True
  let ?l = "cs_level (ScoreCompaction version)"
  define after where "after = find (\<lambda>file. case pointers ! unat ?l of None \<Rightarrow> True
    | Some key \<Rightarrow> InternalKeyCompare c (ik_encoded (fm_largest file)) (ik_encoded key) > 0) (Version_files version ?l)"
  have select: "SelectInitialCompaction version c pointers seek = (case after of
      Some file \<Rightarrow> Some (Some \<lparr>ic_level = ?l, ic_inputs = [file]\<rparr>)
    | None \<Rightarrow> (if Version_files version ?l = [] then None else Some (Some \<lparr>ic_level = ?l, ic_inputs = [hd (Version_files version ?l)]\<rparr>)))"
    using True by (simp add: SelectInitialCompaction_def Let_def after_def)
  have "f \<in> set (Version_files version ?l)" if "after = Some f" for f
    using that unfolding after_def find_Some_iff by (metis nth_mem)
  then show ?thesis using ScoreCompaction_full [OF True] unfolding select by (cases after) auto
next
  case False
  then show ?thesis using seek by (cases seek) (auto simp: SelectInitialCompaction_def seek_live_def Let_def)
qed

lemma PickCompaction_picked:
  assumes wf: "wf_version c version"
    and seek: "seek_live version seek"
  shows "\<exists>r. PickCompaction version c pointers seek target = Some r \<and>
    (\<forall>comp. r = Some comp \<longrightarrow> unat (co_level comp) < levels - 1 \<and> co_version comp = version \<and>
       picked c version (co_level comp) (fst (co_inputs comp)) (snd (co_inputs comp)) \<and>
       (\<exists>b. RangeOf c (fst (co_inputs comp)) = Some b \<and> co_compact_pointer comp = kr_largest b))"
proof -
  obtain r where r: "SelectInitialCompaction version c pointers seek = Some r"
      "\<And>ic. r = Some ic \<Longrightarrow> unat (ic_level ic) < levels - 1 \<and> (\<exists>f0 \<in> set (Version_files version (ic_level ic)). ic_inputs ic = [f0])"
    using SelectInitialCompaction_returns [OF seek] by blast
  show ?thesis
  proof (cases r)
    case None
    then show ?thesis using r(1) by (simp add: PickCompaction_def)
  next
    case (Some ic)
    then obtain f0 where ic: "unat (ic_level ic) < levels - 1" "f0 \<in> set (Version_files version (ic_level ic))" "ic_inputs ic = [f0]"
      using r(2) by blast
    have "unat (ic_level ic) < levels" using ic(1) by simp
    from initial_inputs [OF wf this ic(2)] obtain S0 S where S: "CloseLevelZeroInputs version c (ic_level ic) [f0] = Some S0"
        "AddBoundaryInputs c (Version_files version (ic_level ic)) S0 = Some S" "S \<noteq> []"
        "set S \<subseteq> set (Version_files version (ic_level ic))" "isolated c (ic_level ic) (Version_files version (ic_level ic)) S" by blast
    from SetupInputs_returns [OF wf ic(1) S(2-5), of target] show ?thesis
      using r(1) Some S(1) ic(1,3) by (auto simp: PickCompaction_def)
  qed
qed

end

section \<open>Properties\<close>

text \<open>C37: Picking a compaction terminates. The search for overlapping level-0 files restarts whenever it widens its range, and the
  search for boundary files runs until no file continues the right edge; on every well-formed version, with every lawful
  user comparator and a seek candidate that is live below the last level, both loops end, no first file of an empty list is taken,
  and \<^verbatim>\<open>PickCompaction\<close> returns.\<close>

theorem pick_compaction_returns:
  assumes "user_comparator_laws c" "wf_version c version" "seek_live version seek"
  shows "\<exists>r. PickCompaction version c pointers seek target = Some r"
  using user_comparator_laws.PickCompaction_picked [OF assms(1-3), of pointers target] by blast

text \<open>C36: The inputs of a compaction are closed. The chosen files of the level are not empty and are files of the version. Every
  file left behind in the level lies before all of them (so it holds newer entries at most at its right edge), or shares no
  user key with any of them; in level 0 it shares no user key with any of them. Every file left behind in the next level lies wholly
  on one side of the inputs of both levels, and on the right side it shares no user key with them. So no older entry of a
  user key stays above a newer one that moves down, and the output cannot overlap the next level.\<close>

theorem pick_compaction_closed:
  assumes "user_comparator_laws c" "wf_version c version" "seek_live version seek"
    and "PickCompaction version c pointers seek target = Some (Some compaction)"
  shows "picked c version (co_level compaction) (fst (co_inputs compaction)) (snd (co_inputs compaction))"
  using user_comparator_laws.PickCompaction_picked [OF assms(1-3), of pointers target] assms(4) by auto

definition demo_seek :: SeekCompaction where
  "demo_seek = \<lparr>sc_level = 0, sc_file = demo_file 4\<rparr>"

lemma demo_seek_live: "seek_live demo_version (Some demo_seek)"
  by (simp add: seek_live_def demo_seek_def demo_version_def Version_files_def levels_eq)

lemma PickCompaction_seek: "PickCompaction version c pointers (Some sk) target \<noteq> Some None"
  by (auto simp: PickCompaction_def SelectInitialCompaction_def Let_def bind_eq_Some_conv split: if_splits option.splits)

theorem pick_compaction_returns_witness:
  "seek_live demo_version (Some demo_seek) \<and>
   (\<exists>r. PickCompaction demo_version BytewiseComparator (replicate 7 None) (Some demo_seek) 100000 = Some r)"
  using pick_compaction_returns [OF bytewise.user_comparator_laws_axioms demo_version_wf demo_seek_live] demo_seek_live by blast

theorem pick_compaction_closed_witness:
  "\<exists>compaction. PickCompaction demo_version BytewiseComparator (replicate 7 None) (Some demo_seek) 100000 = Some (Some compaction) \<and>
     picked BytewiseComparator demo_version (co_level compaction) (fst (co_inputs compaction)) (snd (co_inputs compaction))"
proof -
  obtain r where r: "PickCompaction demo_version BytewiseComparator (replicate 7 None) (Some demo_seek) 100000 = Some r"
    using user_comparator_laws.PickCompaction_picked [OF bytewise.user_comparator_laws_axioms demo_version_wf demo_seek_live] by blast
  then obtain compaction where "r = Some compaction" using PickCompaction_seek by (cases r) auto
  then show ?thesis
    using pick_compaction_closed [OF bytewise.user_comparator_laws_axioms demo_version_wf demo_seek_live] r by blast
qed

end
