(* ===== verification/Compaction_Run.thy ===== *)
theory Compaction_Run
  imports Compaction_Picker "HOL-Library.Sublist"
begin

text \<open>
  Running a compaction (\<^verbatim>\<open>src/engine/compaction.{h,cc}\<close>): the merged input entries pass the rule that drops entries no snapshot can
  see, and the rest is cut into output tables. The table builder, the table cache, the file system and the hooks of
  the engine are the operations of \<open>compaction_env\<close> over a state of the world; the merged input is an iterator with the operations of
  \<^verbatim>\<open>src/engine/internal_iterator.h\<close>. Both are arbitrary. \<open>None\<close> is not returning, or a trusted value that is missing.
\<close>

section \<open>Interfaces\<close>

record ('w, 'b) compaction_env =
  ce_new_file_number :: "'w \<Rightarrow> u64 \<times> 'w"
  ce_before_entry :: "'w \<Rightarrow> status \<times> 'w"
  ce_open_table :: "u64 \<Rightarrow> 'w \<Rightarrow> 'b result \<times> 'w"
  ce_add_trusted :: "'b \<Rightarrow> bytes \<Rightarrow> bytes \<Rightarrow> 'w \<Rightarrow> status \<times> 'b \<times> 'w"
  ce_finish_table :: "'b \<Rightarrow> 'w \<Rightarrow> status \<times> 'b \<times> 'w"
  ce_table_size :: "'b \<Rightarrow> u64"
  ce_find_table :: "u64 \<Rightarrow> u64 \<Rightarrow> 'w \<Rightarrow> status \<times> 'w"
  ce_sync_directory :: "'w \<Rightarrow> status \<times> 'w"

record 'i InternalIterator =
  it_SeekToFirst :: "'i \<Rightarrow> status \<times> 'i"
  it_valid :: "'i \<Rightarrow> bool"
  it_key :: "'i \<Rightarrow> bytes"
  it_value :: "'i \<Rightarrow> bytes"
  it_Next :: "'i \<Rightarrow> status \<times> 'i"

section \<open>Grandparent overlap\<close>

record GrandparentOverlap =
  go_next :: nat
  go_seen_key :: bool
  go_overlapped :: u64

definition GrandparentOverlap_New :: GrandparentOverlap where
  "GrandparentOverlap_New = \<lparr>go_next = 0, go_seen_key = False, go_overlapped = 0\<rparr>"

function AdvanceLoop :: "comparator \<Rightarrow> FileMetadata list \<Rightarrow> bytes \<Rightarrow> GrandparentOverlap \<Rightarrow> GrandparentOverlap" where
  "AdvanceLoop c grandparents key go =
     (if go_next go < length grandparents \<and>
         InternalKeyCompare c key (ik_encoded (fm_largest (grandparents ! go_next go))) > 0
      then let go1 = (if go_seen_key go then go\<lparr>go_overlapped := go_overlapped go + fm_file_size (grandparents ! go_next go)\<rparr> else go)
           in AdvanceLoop c grandparents key (go1\<lparr>go_next := go_next go1 + 1\<rparr>)
      else go)"
  by pat_completeness auto
termination by (relation "measure (\<lambda>(c, grandparents, key, go). length grandparents - go_next go)") auto

declare AdvanceLoop.simps [simp del]

definition AdvancePast :: "comparator \<Rightarrow> FileMetadata list \<Rightarrow> bytes \<Rightarrow> GrandparentOverlap \<Rightarrow> GrandparentOverlap" where
  "AdvancePast c grandparents key go = (AdvanceLoop c grandparents key go)\<lparr>go_seen_key := True\<rparr>"

definition ShouldStopBefore ::
  "comparator \<Rightarrow> FileMetadata list \<Rightarrow> u64 \<Rightarrow> GrandparentOverlap \<Rightarrow> bytes \<Rightarrow> bool \<times> GrandparentOverlap" where
  "ShouldStopBefore c grandparents limit go key =
     (let go1 = AdvancePast c grandparents key go
      in if go_overlapped go1 > limit then (True, go1\<lparr>go_overlapped := 0\<rparr>) else (False, go1))"

section \<open>The base level of a key\<close>

text \<open>The positions the scan of every level has reached.\<close>

type_synonym BaseLevel = "nat list"

definition BaseLevel_New :: BaseLevel where
  "BaseLevel_New = replicate levels 0"

function LevelContainsLoop :: "comparator \<Rightarrow> FileMetadata list \<Rightarrow> bytes \<Rightarrow> nat \<Rightarrow> bool \<times> nat" where
  "LevelContainsLoop c files user_key i =
     (if i < length files
      then if Compare c user_key (InternalKey_user_key (fm_largest (files ! i))) \<le> 0
           then (Compare c user_key (InternalKey_user_key (fm_smallest (files ! i))) \<ge> 0, i)
           else LevelContainsLoop c files user_key (i + 1)
      else (False, i))"
  by pat_completeness auto
termination by (relation "measure (\<lambda>(c, files, user_key, i). length files - i)") auto

declare LevelContainsLoop.simps [simp del]

definition LevelContains :: "comparator \<Rightarrow> Version \<Rightarrow> BaseLevel \<Rightarrow> nat \<Rightarrow> bytes \<Rightarrow> bool \<times> BaseLevel" where
  "LevelContains c version bl level user_key =
     (let (contains, i) = LevelContainsLoop c (v_files version ! level) user_key (bl ! level)
      in (contains, bl[level := i]))"

fun IsBaseLevelLoop :: "comparator \<Rightarrow> Version \<Rightarrow> nat list \<Rightarrow> BaseLevel \<Rightarrow> bytes \<Rightarrow> bool \<times> BaseLevel" where
  "IsBaseLevelLoop c version [] bl user_key = (True, bl)"
| "IsBaseLevelLoop c version (level # ls) bl user_key =
     (let (contains, bl1) = LevelContains c version bl level user_key
      in if contains then (False, bl1) else IsBaseLevelLoop c version ls bl1 user_key)"

definition IsBaseLevelForKey :: "comparator \<Rightarrow> Version \<Rightarrow> u32 \<Rightarrow> BaseLevel \<Rightarrow> bytes \<Rightarrow> bool \<times> BaseLevel" where
  "IsBaseLevelForKey c version first_level bl user_key =
     IsBaseLevelLoop c version [unat first_level..<levels] bl user_key"

section \<open>Dropping entries\<close>

record VisibleHistory =
  vh_user_key :: "bytes option"
  vh_last_sequence :: "SequenceNumber option"

definition VisibleHistory_New :: VisibleHistory where
  "VisibleHistory_New = \<lparr>vh_user_key = None, vh_last_sequence = None\<rparr>"

definition StartUserKey :: "comparator \<Rightarrow> VisibleHistory \<Rightarrow> bytes \<Rightarrow> VisibleHistory" where
  "StartUserKey c history key =
     (case vh_user_key history of
        None \<Rightarrow> history\<lparr>vh_user_key := Some key, vh_last_sequence := None\<rparr>
      | Some user_key \<Rightarrow>
          (if Compare c key user_key \<noteq> 0 then history\<lparr>vh_user_key := Some key, vh_last_sequence := None\<rparr> else history))"

definition ShouldDrop ::
  "comparator \<Rightarrow> Version \<Rightarrow> u32 \<Rightarrow> VisibleHistory \<Rightarrow> InternalKeyView \<Rightarrow> SequenceNumber \<Rightarrow> BaseLevel \<Rightarrow>
   bool \<times> VisibleHistory \<times> BaseLevel" where
  "ShouldDrop c version first_level history entry smallest_snapshot bl =
     (let history1 = StartUserKey c history (view_user_key entry);
          (drop, bl1) =
            (if (case vh_last_sequence history1 of None \<Rightarrow> False | Some s \<Rightarrow> s \<le> smallest_snapshot) then (True, bl)
             else if view_kind entry = Deletion \<and> view_sequence entry \<le> smallest_snapshot
                  then IsBaseLevelForKey c version first_level bl (view_user_key entry)
                  else (False, bl))
      in (drop, history1\<lparr>vh_last_sequence := Some (view_sequence entry)\<rparr>, bl1))"

section \<open>Outputs\<close>

record 'b Outputs =
  ou_builder :: "'b option"
  ou_number :: u64
  ou_smallest :: bytes
  ou_largest :: bytes
  ou_finished :: "FileMetadata list"

definition Outputs_New :: "'b Outputs" where
  "Outputs_New = \<lparr>ou_builder = None, ou_number = 0, ou_smallest = [], ou_largest = [], ou_finished = []\<rparr>"

definition MakeMetadata :: "'b Outputs \<Rightarrow> u64 \<Rightarrow> FileMetadata option" where
  "MakeMetadata outputs size' =
     (case (InternalKey_Decode (ou_smallest outputs), InternalKey_Decode (ou_largest outputs)) of
        (Inr smallest, Inr largest) \<Rightarrow>
          Some \<lparr>fm_number = ou_number outputs, fm_file_size = size', fm_smallest = smallest, fm_largest = largest, fm_allowed_seeks = 0\<rparr>
      | _ \<Rightarrow> None)"

definition FinishBuilder :: "('w, 'b) compaction_env \<Rightarrow> 'b \<Rightarrow> 'b Outputs \<Rightarrow> 'w \<Rightarrow> u64 result \<times> 'b Outputs \<times> 'w" where
  "FinishBuilder env builder outputs world =
     (let (finished, builder1, world1) = ce_finish_table env builder world;
          size' = ce_table_size env builder1;
          outputs1 = outputs\<lparr>ou_builder := None\<rparr>
      in case finished of Inl e \<Rightarrow> (Inl e, outputs1, world1) | Inr _ \<Rightarrow> (Inr size', outputs1, world1))"

definition Outputs_Finish :: "('w, 'b) compaction_env \<Rightarrow> 'b Outputs \<Rightarrow> 'w \<Rightarrow> (status \<times> 'b Outputs \<times> 'w) option" where
  "Outputs_Finish env outputs world =
     (case ou_builder outputs of
        None \<Rightarrow> None
      | Some builder \<Rightarrow>
          (case FinishBuilder env builder outputs world of
             (Inl e, outputs1, world1) \<Rightarrow> Some (Inl e, outputs1, world1)
           | (Inr size', outputs1, world1) \<Rightarrow>
               (case ce_find_table env (ou_number outputs1) size' world1 of
                  (Inl e, world2) \<Rightarrow> Some (Inl e, outputs1, world2)
                | (Inr _, world2) \<Rightarrow>
                    map_option (\<lambda>output. (Inr (), outputs1\<lparr>ou_finished := ou_finished outputs1 @ [output]\<rparr>, world2))
                      (MakeMetadata outputs1 size'))))"

definition Outputs_Open :: "('w, 'b) compaction_env \<Rightarrow> 'b Outputs \<Rightarrow> bytes \<Rightarrow> 'w \<Rightarrow> status \<times> 'b Outputs \<times> 'w" where
  "Outputs_Open env outputs key world =
     (let (number, world1) = ce_new_file_number env world;
          outputs1 = outputs\<lparr>ou_number := number\<rparr>
      in case ce_open_table env number world1 of
           (Inl e, world2) \<Rightarrow> (Inl e, outputs1, world2)
         | (Inr builder, world2) \<Rightarrow> (Inr (), outputs1\<lparr>ou_builder := Some builder, ou_smallest := key\<rparr>, world2))"

definition Outputs_Append ::
  "('w, 'b) compaction_env \<Rightarrow> 'b Outputs \<Rightarrow> bytes \<Rightarrow> bytes \<Rightarrow> 'w \<Rightarrow> (status \<times> 'b Outputs \<times> 'w) option" where
  "Outputs_Append env outputs key value' world =
     (case ou_builder outputs of
        None \<Rightarrow> None
      | Some builder \<Rightarrow>
          (let (added, builder1, world1) = ce_add_trusted env builder key value' world
           in Some (added, outputs\<lparr>ou_largest := key, ou_builder := Some builder1\<rparr>, world1)))"

definition Outputs_Add ::
  "('w, 'b) compaction_env \<Rightarrow> u64 \<Rightarrow> 'b Outputs \<Rightarrow> bytes \<Rightarrow> bytes \<Rightarrow> 'w \<Rightarrow> (status \<times> 'b Outputs \<times> 'w) option" where
  "Outputs_Add env target_file_size outputs key value' world =
     (let (opened, outputs1, world1) =
            (if ou_builder outputs = None then Outputs_Open env outputs key world else (Inr (), outputs, world))
      in case opened of
           Inl e \<Rightarrow> Some (Inl e, outputs1, world1)
         | Inr _ \<Rightarrow> do {
             (added, outputs2, world2) \<leftarrow> Outputs_Append env outputs1 key value' world1;
             case added of
               Inl e \<Rightarrow> Some (Inl e, outputs2, world2)
             | Inr _ \<Rightarrow>
                 (case ou_builder outputs2 of
                    None \<Rightarrow> None
                  | Some builder \<Rightarrow>
                      (if ce_table_size env builder \<ge> target_file_size then Outputs_Finish env outputs2 world2
                       else Some (Inr (), outputs2, world2)))
           })"

section \<open>The run\<close>

record 'b compaction_state =
  cr_grandparents :: GrandparentOverlap
  cr_base_level :: BaseLevel
  cr_history :: VisibleHistory
  cr_outputs :: "'b Outputs"

text \<open>What a run reads: the compaction, the target size of an output and the smallest snapshot.\<close>

record compaction_run =
  rn_compaction :: Compaction
  rn_target_file_size :: u64
  rn_smallest_snapshot :: SequenceNumber

text \<open>The end of the open output when the overlap demands it.\<close>

definition FinishBefore :: "('w, 'b) compaction_env \<Rightarrow> bool \<Rightarrow> 'b Outputs \<Rightarrow> 'w \<Rightarrow> (status \<times> 'b Outputs \<times> 'w) option" where
  "FinishBefore env stop outputs world =
     (if stop \<and> ou_builder outputs \<noteq> None then Outputs_Finish env outputs world else Some (Inr (), outputs, world))"

definition ProcessEntry ::
  "('w, 'b) compaction_env \<Rightarrow> comparator \<Rightarrow> compaction_run \<Rightarrow> bytes \<Rightarrow> bytes \<Rightarrow> 'b compaction_state \<Rightarrow> 'w \<Rightarrow>
   (status \<times> 'b compaction_state \<times> 'w) option" where
  "ProcessEntry env c run key value' st world =
     (case ce_before_entry env world of
        (Inl e, world1) \<Rightarrow> Some (Inl e, st, world1)
      | (Inr _, world1) \<Rightarrow>
          (let compaction = rn_compaction run;
               (stop, go) = ShouldStopBefore c (co_grandparents compaction)
                 (GrandparentOverlapFactor * rn_target_file_size run) (cr_grandparents st) key;
               st1 = st\<lparr>cr_grandparents := go\<rparr>
           in do {
             (finished, outputs, world2) \<leftarrow> FinishBefore env stop (cr_outputs st1) world1;
             let st2 = st1\<lparr>cr_outputs := outputs\<rparr>;
             case finished of
               Inl e \<Rightarrow> Some (Inl e, st2, world2)
             | Inr _ \<Rightarrow>
                 (case ParseInternalKey key of
                    Inl e \<Rightarrow> Some (Inl e, st2, world2)
                  | Inr parsed \<Rightarrow>
                      (let (drop, history, bl) = ShouldDrop c (co_version compaction) (co_level compaction + 2) (cr_history st2)
                             parsed (rn_smallest_snapshot run) (cr_base_level st2);
                           st3 = st2\<lparr>cr_history := history, cr_base_level := bl\<rparr>
                       in if drop then Some (Inr (), st3, world2)
                          else map_option (\<lambda>(added, outputs1, world3). (added, st3\<lparr>cr_outputs := outputs1\<rparr>, world3))
                                 (Outputs_Add env (rn_target_file_size run) (cr_outputs st3) key value' world2)))
           }))"

partial_function (option) RunLoop ::
  "('w, 'b) compaction_env \<Rightarrow> 'i InternalIterator \<Rightarrow> comparator \<Rightarrow> compaction_run \<Rightarrow> status \<Rightarrow> 'i \<Rightarrow> 'b compaction_state \<Rightarrow> 'w \<Rightarrow>
   (status \<times> 'b compaction_state \<times> 'w) option" where
  [code]: "RunLoop env ops c run moved input st world =
     (case moved of
        Inl e \<Rightarrow> Some (Inl e, st, world)
      | Inr _ \<Rightarrow>
          (if \<not> it_valid ops input then Some (Inr (), st, world)
           else do {
             (processed, st1, world1) \<leftarrow> ProcessEntry env c run (it_key ops input) (it_value ops input) st world;
             case processed of
               Inl e \<Rightarrow> Some (Inl e, st1, world1)
             | Inr _ \<Rightarrow> (case it_Next ops input of (moved1, input1) \<Rightarrow> RunLoop env ops c run moved1 input1 st1 world1)
           }))"

definition RunInputEntries ::
  "('w, 'b) compaction_env \<Rightarrow> 'i InternalIterator \<Rightarrow> comparator \<Rightarrow> compaction_run \<Rightarrow> 'i \<Rightarrow> 'b compaction_state \<Rightarrow> 'w \<Rightarrow>
   (status \<times> 'b compaction_state \<times> 'w) option" where
  "RunInputEntries env ops c run input st world =
     (case it_SeekToFirst ops input of (moved, input1) \<Rightarrow> RunLoop env ops c run moved input1 st world)"

definition AddOutputs :: "u32 \<Rightarrow> FileMetadata list \<Rightarrow> VersionEdit \<Rightarrow> VersionEdit" where
  "AddOutputs level outputs edit = foldl (\<lambda>edit output. discard_result edit (AddFile edit level output)) edit outputs"

definition FinishCompaction ::
  "('w, 'b) compaction_env \<Rightarrow> Compaction \<Rightarrow> 'b Outputs \<Rightarrow> 'w \<Rightarrow> (VersionEdit result \<times> 'w) option" where
  "FinishCompaction env compaction outputs world = do {
     (finished, outputs1, world1) \<leftarrow>
       (if ou_builder outputs \<noteq> None then Outputs_Finish env outputs world else Some (Inr (), outputs, world));
     case finished of
       Inl e \<Rightarrow> Some (Inl e, world1)
     | Inr _ \<Rightarrow>
         (let edit = CompactionEdit compaction
          in if ou_finished outputs1 = [] then Some (Inr edit, world1)
             else (case ce_sync_directory env world1 of
                     (Inl e, world2) \<Rightarrow> Some (Inl e, world2)
                   | (Inr _, world2) \<Rightarrow> Some (Inr (AddOutputs (co_level compaction + 1) (ou_finished outputs1) edit), world2)))
   }"

definition RunCompaction ::
  "('w, 'b) compaction_env \<Rightarrow> 'i InternalIterator \<Rightarrow> comparator \<Rightarrow> compaction_run \<Rightarrow> 'i \<Rightarrow> 'w \<Rightarrow> (VersionEdit result \<times> 'w) option" where
  "RunCompaction env ops c run input world = do {
     (processed, st, world1) \<leftarrow> RunInputEntries env ops c run input
       \<lparr>cr_grandparents = GrandparentOverlap_New, cr_base_level = BaseLevel_New, cr_history = VisibleHistory_New,
        cr_outputs = Outputs_New\<rparr> world;
     case processed of
       Inl e \<Rightarrow> Some (Inl e, world1)
     | Inr _ \<Rightarrow> FinishCompaction env (rn_compaction run) (cr_outputs st) world1
   }"


section \<open>The base level\<close>

definition level_holds :: "comparator \<Rightarrow> Version \<Rightarrow> nat \<Rightarrow> bytes \<Rightarrow> bool" where
  "level_holds c version l key \<longleftrightarrow>
     (\<exists>f \<in> set (v_files version ! l). 0 \<le> Compare c key (file_low f) \<and> Compare c key (file_high f) \<le> 0)"

text \<open>The files a scan has passed end before the key.\<close>

definition passed :: "comparator \<Rightarrow> FileMetadata list \<Rightarrow> nat \<Rightarrow> bytes \<Rightarrow> bool" where
  "passed c files i key \<longleftrightarrow> (\<forall>j < i. j < length files \<longrightarrow> 0 < Compare c key (file_high (files ! j)))"

definition base_inv :: "comparator \<Rightarrow> Version \<Rightarrow> BaseLevel \<Rightarrow> bytes \<Rightarrow> bool" where
  "base_inv c version bl key \<longleftrightarrow> length bl = levels \<and> (\<forall>l < levels. passed c (v_files version ! l) (bl ! l) key)"

lemma base_inv_New: "base_inv c version BaseLevel_New key"
  by (simp add: base_inv_def BaseLevel_New_def passed_def)

section \<open>Reads\<close>

text \<open>The entries of a sorted history that the drop rule keeps.\<close>

fun surviving ::
  "comparator \<Rightarrow> Version \<Rightarrow> u32 \<Rightarrow> SequenceNumber \<Rightarrow> VisibleHistory \<Rightarrow> BaseLevel \<Rightarrow> (bytes \<times> bytes) list \<Rightarrow> (bytes \<times> bytes) list" where
  "surviving c version first snapshot history bl [] = []"
| "surviving c version first snapshot history bl ((key, v) # entries) =
     (case ParseInternalKey key of
        Inl _ \<Rightarrow> []
      | Inr parsed \<Rightarrow>
          (case ShouldDrop c version first history parsed snapshot bl of
             (dropped, history1, bl1) \<Rightarrow>
               (if dropped then surviving c version first snapshot history1 bl1 entries
                else (key, v) # surviving c version first snapshot history1 bl1 entries)))"

lemma surviving_subseq: "subseq (surviving c version first snapshot history bl entries) entries"
proof (induction entries arbitrary: history bl)
  case (Cons e entries)
  obtain key v where e: "e = (key, v)" by force
  show ?case
  proof (cases "ParseInternalKey key")
    case (Inr p)
    obtain d h b where "ShouldDrop c version first history p snapshot bl = (d, h, b)" by (metis prod_cases3)
    then show ?thesis using Cons.IH [of h b] Inr e by auto
  qed (simp add: e)
qed simp

lemma surviving_subset: "set (surviving c version first snapshot history bl entries) \<subseteq> set entries"
  using surviving_subseq [of c version first snapshot history bl entries] set_nths_subset unfolding subseq_conv_nths by metis

text \<open>A read of a user key at a sequence takes the first entry of the key that is not newer. A deletion answers that the key is absent;
  with no entry the answer is that of the levels below.\<close>

definition entry_for :: "comparator \<Rightarrow> SequenceNumber \<Rightarrow> bytes \<Rightarrow> bytes \<times> bytes \<Rightarrow> bool" where
  "entry_for c s k entry \<longleftrightarrow>
     (case ParseInternalKey (fst entry) of Inl _ \<Rightarrow> False | Inr p \<Rightarrow> Compare c (view_user_key p) k = 0 \<and> view_sequence p \<le> s)"

definition read_entries :: "comparator \<Rightarrow> SequenceNumber \<Rightarrow> bytes \<Rightarrow> (bytes \<times> bytes) list \<Rightarrow> bytes option \<Rightarrow> bytes option" where
  "read_entries c s k entries below =
     (case find (entry_for c s k) entries of
        None \<Rightarrow> below
      | Some (key, v) \<Rightarrow> (case ParseInternalKey key of Inl _ \<Rightarrow> below | Inr p \<Rightarrow> if view_kind p = Deletion then None else Some v))"

text \<open>A history: well-formed keys in strictly ascending internal order.\<close>

definition sorted_entries :: "comparator \<Rightarrow> (bytes \<times> bytes) list \<Rightarrow> bool" where
  "sorted_entries c entries \<longleftrightarrow>
     (\<forall>e \<in> set entries. has_value (ParseInternalKey (fst e))) \<and> sorted_wrt (\<lambda>e e'. InternalKeyCompare c (fst e) (fst e') < 0) entries"

text \<open>An entry of the key that every snapshot sees has been passed.\<close>

definition shadowed :: "comparator \<Rightarrow> SequenceNumber \<Rightarrow> bytes \<Rightarrow> VisibleHistory \<Rightarrow> bool" where
  "shadowed c snapshot k history \<longleftrightarrow>
     (\<exists>u q. vh_user_key history = Some u \<and> Compare c u k = 0 \<and> vh_last_sequence history = Some q \<and> q \<le> snapshot)"

text \<open>The history lies before the remaining entries.\<close>

definition history_before :: "comparator \<Rightarrow> VisibleHistory \<Rightarrow> (bytes \<times> bytes) list \<Rightarrow> bool" where
  "history_before c history entries \<longleftrightarrow>
     (\<forall>u. vh_user_key history = Some u \<longrightarrow> (\<exists>q. vh_last_sequence history = Some q \<and>
        (\<forall>e \<in> set entries. \<forall>p. ParseInternalKey (fst e) = Inr p \<longrightarrow>
           Compare c u (view_user_key p) < 0 \<or> Compare c u (view_user_key p) = 0 \<and> view_sequence p \<le> q)))"

context user_comparator_laws
begin

lemma passed_mono: "passed c files i key \<Longrightarrow> Compare c key key' \<le> 0 \<Longrightarrow> passed c files i key'"
  unfolding passed_def using compare_less_le_trans [of _ key key'] by (simp add: user_flip(1) [symmetric])

lemma base_inv_mono: "base_inv c version bl key \<Longrightarrow> Compare c key key' \<le> 0 \<Longrightarrow> base_inv c version bl key'"
  unfolding base_inv_def using passed_mono by blast

lemma LevelContainsLoop_spec:
  assumes wf: "wf_files c files" and "passed c files i key"
  shows "(fst (LevelContainsLoop c files key i) \<longleftrightarrow> (\<exists>f \<in> set files. 0 \<le> Compare c key (file_low f) \<and> Compare c key (file_high f) \<le> 0)) \<and>
    passed c files (snd (LevelContainsLoop c files key i)) key"
  using assms(2)
proof (induction "length files - i" arbitrary: i)
  case 0
  then have "\<forall>f \<in> set files. 0 < Compare c key (file_high f)" by (auto simp: passed_def in_set_conv_nth)
  then show ?case using 0 by (subst (1 2) LevelContainsLoop.simps) auto
next
  case (Suc n)
  then have i: "i < length files" by simp
  let ?f = "files ! i"
  show ?case
  proof (cases "Compare c key (file_high ?f) \<le> 0")
    case False
    then have "passed c files (i + 1) key" using Suc.prems by (auto simp: passed_def less_Suc_eq)
    moreover have "LevelContainsLoop c files key i = LevelContainsLoop c files key (i + 1)"
      using i False by (subst LevelContainsLoop.simps) simp
    ultimately show ?thesis using Suc.hyps(1) [of "i + 1"] Suc.hyps(2) by simp
  next
    case True
    then have loop: "LevelContainsLoop c files key i = (Compare c key (file_low ?f) \<ge> 0, i)"
      using i by (subst LevelContainsLoop.simps) simp
    have "0 \<le> Compare c key (file_low ?f)" if j: "j < length files" "0 \<le> Compare c key (file_low (files ! j))" "Compare c key (file_high (files ! j)) \<le> 0" for j
    proof -
      have "i \<le> j" using Suc.prems j unfolding passed_def by (metis not_le)
      then have "InternalKeyCompare c (ik_encoded (fm_smallest ?f)) (ik_encoded (fm_smallest (files ! j))) \<le> 0"
        using wf j(1) by (cases "i = j") (simp_all add: wf_files_def sorted_wrt_iff_nth_less)
      then have "Compare c (file_low ?f) (file_low (files ! j)) \<le> 0" by (rule internal_user_le)
      then show ?thesis using user_le_trans [of "file_low ?f" "file_low (files ! j)" key] j(2) by (simp add: user_flip(2))
    qed
    then have "0 \<le> Compare c key (file_low ?f) \<longleftrightarrow>
        (\<exists>f \<in> set files. 0 \<le> Compare c key (file_low f) \<and> Compare c key (file_high f) \<le> 0)"
      using i True nth_mem [OF i] unfolding in_set_conv_nth Bex_def by blast
    then show ?thesis using loop Suc.prems by simp
  qed
qed

lemma LevelContains_spec:
  assumes "wf_version c version" "l < levels" "base_inv c version bl key" "LevelContains c version bl l key = (r, bl')"
  shows "(r \<longleftrightarrow> level_holds c version l key) \<and> base_inv c version bl' key"
proof -
  have files: "wf_files c (v_files version ! l)"
    using level_files(1) [OF assms(1), of "of_nat l"] assms(2)
    by (simp add: levels_eq Version_files_def unat_of_nat take_bit_eq_mod)
  have "passed c (v_files version ! l) (bl ! l) key" using assms(2,3) by (simp add: base_inv_def)
  note spec = LevelContainsLoop_spec [OF files this]
  have "r = fst (LevelContainsLoop c (v_files version ! l) key (bl ! l))"
      "bl' = bl[l := snd (LevelContainsLoop c (v_files version ! l) key (bl ! l))]"
    using assms(4) by (simp_all add: LevelContains_def split_beta)
  then show ?thesis using spec assms(2,3) by (auto simp: level_holds_def base_inv_def nth_list_update)
qed

lemma IsBaseLevelLoop_spec:
  assumes "wf_version c version"
  shows "\<forall>l \<in> set ls. l < levels \<Longrightarrow> base_inv c version bl key \<Longrightarrow> IsBaseLevelLoop c version ls bl key = (r, bl') \<Longrightarrow>
    (r \<longleftrightarrow> (\<forall>l \<in> set ls. \<not> level_holds c version l key)) \<and> base_inv c version bl' key"
proof (induction ls arbitrary: bl)
  case (Cons l ls)
  obtain r1 bl1 where step: "LevelContains c version bl l key = (r1, bl1)" by force
  then have one: "(r1 \<longleftrightarrow> level_holds c version l key) \<and> base_inv c version bl1 key"
    using LevelContains_spec [OF assms _ Cons.prems(2) step] Cons.prems(1) by simp
  show ?case using Cons.prems Cons.IH [of bl1] one step by (cases r1) auto
qed simp

lemma IsBaseLevelForKey_spec:
  assumes "wf_version c version" "base_inv c version bl key" "IsBaseLevelForKey c version first bl key = (r, bl')"
  shows "r \<longleftrightarrow> (\<forall>l. unat first \<le> l \<longrightarrow> l < levels \<longrightarrow> \<not> level_holds c version l key)" "base_inv c version bl' key"
  using IsBaseLevelLoop_spec [OF assms(1) _ assms(2), of "[unat first..<levels]" r bl'] assms(3)
  by (auto simp: IsBaseLevelForKey_def)

lemma parsed_order:
  assumes "ParseInternalKey k = Inr p" "ParseInternalKey l = Inr q" "InternalKeyCompare c k l < 0"
  shows "Compare c (view_user_key p) (view_user_key q) < 0 \<or>
    Compare c (view_user_key p) (view_user_key q) = 0 \<and> view_sequence q \<le> view_sequence p"
proof -
  have k: "k = EncodeInternalKeyTrusted (view_user_key p) (view_sequence p) (view_kind p)" "view_sequence p \<le> MaxSequenceNumber"
    and l: "l = EncodeInternalKeyTrusted (view_user_key q) (view_sequence q) (view_kind q)" "view_sequence q \<le> MaxSequenceNumber"
    using assms(1,2) by (auto simp: ParseInternalKey_Inr)
  have "Compare c (view_user_key p) (view_user_key q) < 0 \<or> Compare c (view_user_key p) (view_user_key q) = 0 \<and>
      PackInternalKeyTrailer (view_sequence q) (view_kind q) < PackInternalKeyTrailer (view_sequence p) (view_kind p)"
    using assms(3) by (subst (asm) k(1), subst (asm) l(1)) (simp add: InternalKeyCompare_less)
  then show ?thesis using PackInternalKeyTrailer_less [OF l(2) k(2)] by auto
qed

text \<open>The history after an entry.\<close>

lemma ShouldDrop_history:
  assumes "ShouldDrop c version first history p snapshot bl = (d, history', bl')" "vh_user_key history \<noteq> None \<longrightarrow> vh_last_sequence history \<noteq> None"
  shows "\<exists>u. vh_user_key history' = Some u \<and> Compare c u (view_user_key p) = 0 \<and> vh_last_sequence history' = Some (view_sequence p)"
  using assms by (auto simp: ShouldDrop_def StartUserKey_def Let_def split_beta user_flip(3) split: option.splits if_splits)

lemma history_before_step:
  assumes sorted: "sorted_entries c ((key, v) # entries)" and p: "ParseInternalKey key = Inr p"
    and u: "vh_user_key history' = Some u" "Compare c u (view_user_key p) = 0" "vh_last_sequence history' = Some (view_sequence p)"
  shows "history_before c history' entries"
  unfolding history_before_def
proof (intro allI impI)
  fix w assume "vh_user_key history' = Some w"
  then have w: "Compare c w (view_user_key p) = 0" using u by simp
  have "Compare c w (view_user_key q) < 0 \<or> Compare c w (view_user_key q) = 0 \<and> view_sequence q \<le> view_sequence p"
    if "e \<in> set entries" "ParseInternalKey (fst e) = Inr q" for e q
  proof -
    have "InternalKeyCompare c key (fst e) < 0" using sorted that(1) by (auto simp: sorted_entries_def)
    from parsed_order [OF p that(2) this] show ?thesis using compare_eq_left [OF _ _ _ w] by simp
  qed
  then show "\<exists>q. vh_last_sequence history' = Some q \<and> (\<forall>e \<in> set entries. \<forall>p. ParseInternalKey (fst e) = Inr p \<longrightarrow>
      Compare c w (view_user_key p) < 0 \<or> Compare c w (view_user_key p) = 0 \<and> view_sequence p \<le> q)"
    using u(3) by (intro exI [of _ "view_sequence p"]) simp
qed

lemma sorted_entries_tail: "sorted_entries c (e # entries) \<Longrightarrow> sorted_entries c entries"
  by (simp add: sorted_entries_def)

lemma ShouldDrop_base:
  assumes "wf_version c version" "base_inv c version bl (view_user_key p)"
    and "ShouldDrop c version first history p snapshot bl = (d, history', bl')"
  shows "base_inv c version bl' (view_user_key p)"
proof -
  obtain r bl1 where base: "IsBaseLevelForKey c version first bl (view_user_key p) = (r, bl1)" by force
  then have "base_inv c version bl1 (view_user_key p)" by (rule IsBaseLevelForKey_spec(2) [OF assms(1,2)])
  then show ?thesis using assms(2,3) base by (auto simp: ShouldDrop_def Let_def split: if_splits option.splits)
qed

text \<open>One step of the scan, with everything the rest of the scan relies on.\<close>

lemma surviving_step:
  assumes wf: "wf_version c version" and sorted: "sorted_entries c ((key, v) # entries)" and p: "ParseInternalKey key = Inr p"
    and history: "history_before c history ((key, v) # entries)"
    and base: "\<forall>e \<in> set ((key, v) # entries). \<forall>q. ParseInternalKey (fst e) = Inr q \<longrightarrow> base_inv c version bl (view_user_key q)"
    and step: "ShouldDrop c version first history p snapshot bl = (d, history', bl')"
  shows "\<exists>u. vh_user_key history' = Some u \<and> Compare c u (view_user_key p) = 0" "vh_last_sequence history' = Some (view_sequence p)"
    "history_before c history' entries"
    "\<forall>e \<in> set entries. \<forall>q. ParseInternalKey (fst e) = Inr q \<longrightarrow> base_inv c version bl' (view_user_key q)"
    "sorted_entries c entries"
proof -
  have "vh_user_key history \<noteq> None \<longrightarrow> vh_last_sequence history \<noteq> None" using history by (auto simp: history_before_def)
  from ShouldDrop_history [OF step this] obtain u where u: "vh_user_key history' = Some u" "Compare c u (view_user_key p) = 0"
      "vh_last_sequence history' = Some (view_sequence p)" by blast
  show "\<exists>u. vh_user_key history' = Some u \<and> Compare c u (view_user_key p) = 0" "vh_last_sequence history' = Some (view_sequence p)"
    using u by blast+
  show "history_before c history' entries" by (rule history_before_step [OF sorted p u])
  show "sorted_entries c entries" by (rule sorted_entries_tail [OF sorted])
  have "base_inv c version bl (view_user_key p)" using base p by simp
  from ShouldDrop_base [OF wf this step] have base': "base_inv c version bl' (view_user_key p)" .
  show "\<forall>e \<in> set entries. \<forall>q. ParseInternalKey (fst e) = Inr q \<longrightarrow> base_inv c version bl' (view_user_key q)"
  proof (intro ballI allI impI)
    fix e q assume e: "e \<in> set entries" "ParseInternalKey (fst e) = Inr q"
    have "InternalKeyCompare c key (fst e) < 0" using sorted e(1) by (auto simp: sorted_entries_def)
    then have "Compare c (view_user_key p) (view_user_key q) \<le> 0" using parsed_order [OF p e(2)] by auto
    then show "base_inv c version bl' (view_user_key q)" by (rule base_inv_mono [OF base'])
  qed
qed

lemma shadowed_iff:
  assumes "vh_user_key history' = Some u" "Compare c u (view_user_key p) = 0" "vh_last_sequence history' = Some (view_sequence p)"
  shows "shadowed c snapshot k history' \<longleftrightarrow> Compare c (view_user_key p) k = 0 \<and> view_sequence p \<le> snapshot"
  using assms compare_eq_left(2) [of u "view_user_key p" k] by (auto simp: shadowed_def)

lemma shadowed_dropped:
  assumes wf: "wf_version c version"
  shows "sorted_entries c entries \<Longrightarrow> history_before c history entries \<Longrightarrow>
    \<forall>e \<in> set entries. \<forall>q. ParseInternalKey (fst e) = Inr q \<longrightarrow> base_inv c version bl (view_user_key q) \<Longrightarrow>
    shadowed c snapshot k history \<Longrightarrow> find (entry_for c s k) (surviving c version first snapshot history bl entries) = None"
proof (induction entries arbitrary: history bl)
  case (Cons e entries)
  obtain key v where e: "e = (key, v)" by force
  obtain p where p: "ParseInternalKey key = Inr p" using Cons.prems(1) e by (auto simp: sorted_entries_def has_value_iff)
  obtain d history' bl' where step: "ShouldDrop c version first history p snapshot bl = (d, history', bl')" by (metis prod_cases3)
  note nxt = surviving_step [OF wf Cons.prems(1) [unfolded e] p Cons.prems(2,3) [unfolded e] step]
  obtain u where u: "vh_user_key history' = Some u" "Compare c u (view_user_key p) = 0" using nxt(1) by blast
  obtain w q where w: "vh_user_key history = Some w" "Compare c w k = 0" "vh_last_sequence history = Some q" "q \<le> snapshot"
    using Cons.prems(4) by (auto simp: shadowed_def)
  have before: "Compare c w (view_user_key p) < 0 \<or> Compare c w (view_user_key p) = 0 \<and> view_sequence p \<le> q"
    using Cons.prems(2) w p e by (auto simp: history_before_def)
  show ?case
  proof (cases "Compare c (view_user_key p) k = 0")
    case True
    have same: "Compare c w (view_user_key p) = 0" using compare_eq_trans [OF _ _ _ w(2)] user_flip(3) [of k] True by auto
    then have seq: "view_sequence p \<le> q" using before by simp
    have "Compare c (view_user_key p) w = 0" using same user_flip(3) [of w "view_user_key p"] by simp
    then have "d" using step w by (simp add: ShouldDrop_def StartUserKey_def Let_def)
    moreover have "shadowed c snapshot k history'" using shadowed_iff [OF u nxt(2)] True seq w(4) by simp
    ultimately show ?thesis using Cons.IH [OF nxt(5,3,4)] p step e by simp
  next
    case False
    then have "Compare c w (view_user_key p) < 0" using before compare_eq_left(2) [OF _ _ _ w(2), of "view_user_key p"] user_flip(3) [of k] by auto
    then have later: "Compare c k (view_user_key p) < 0" using compare_eq_left(1) [OF _ _ _ w(2)] by simp
    have none: "\<not> entry_for c s k e'" if e': "e' \<in> set (e # entries)" for e'
    proof -
      obtain q where q: "ParseInternalKey (fst e') = Inr q" using Cons.prems(1) e' by (auto simp: sorted_entries_def has_value_iff)
      have "Compare c (view_user_key p) (view_user_key q) \<le> 0"
      proof (cases "e' = e")
        case True
        then show ?thesis using p q e by simp
      next
        case False
        then have "InternalKeyCompare c key (fst e') < 0" using Cons.prems(1) e' e by (auto simp: sorted_entries_def)
        then show ?thesis using parsed_order [OF p q] by auto
      qed
      then have "Compare c k (view_user_key q) < 0" using compare_less_le_trans [OF _ _ _ later] by simp
      then show ?thesis using q user_flip(3) [of k "view_user_key q"] by (simp add: entry_for_def)
    qed
    then show ?thesis
      using surviving_subset none unfolding find_None_iff by blast
  qed
qed simp

lemma surviving_reads:
  assumes wf: "wf_version c version" and s: "snapshot \<le> s"
    and below: "(\<forall>l. unat first \<le> l \<longrightarrow> l < levels \<longrightarrow> \<not> level_holds c version l k) \<Longrightarrow> below = None"
  shows "sorted_entries c entries \<Longrightarrow> history_before c history entries \<Longrightarrow>
    \<forall>e \<in> set entries. \<forall>q. ParseInternalKey (fst e) = Inr q \<longrightarrow> base_inv c version bl (view_user_key q) \<Longrightarrow>
    \<not> shadowed c snapshot k history \<Longrightarrow>
    read_entries c s k (surviving c version first snapshot history bl entries) below = read_entries c s k entries below"
proof (induction entries arbitrary: history bl)
  case (Cons e entries)
  obtain key v where e: "e = (key, v)" by force
  obtain p where p: "ParseInternalKey key = Inr p" using Cons.prems(1) e by (auto simp: sorted_entries_def has_value_iff)
  obtain d history' bl' where step: "ShouldDrop c version first history p snapshot bl = (d, history', bl')" by (metis prod_cases3)
  note nxt = surviving_step [OF wf Cons.prems(1) [unfolded e] p Cons.prems(2,3) [unfolded e] step]
  obtain u where u: "vh_user_key history' = Some u" "Compare c u (view_user_key p) = 0" using nxt(1) by blast
  note shadow = shadowed_iff [OF u nxt(2), of snapshot k]
  let ?rest = "surviving c version first snapshot history' bl' entries"
  have out: "surviving c version first snapshot history bl (e # entries) = (if d then ?rest else (key, v) # ?rest)"
    using p step e by simp
  show ?case
  proof (cases "entry_for c s k e \<or> shadowed c snapshot k history'")
    case False
    then have "read_entries c s k ?rest below = read_entries c s k entries below" using Cons.IH [OF nxt(5,3,4)] by blast
    then show ?thesis using False e unfolding out by (simp add: read_entries_def)
  next
    case True
    then have key: "Compare c (view_user_key p) k = 0" "view_sequence p \<le> s" using shadow s p e by (auto simp: entry_for_def)
    then have entry: "entry_for c s k e" using p e by (simp add: entry_for_def)
    show ?thesis
    proof (cases d)
      case False
      then show ?thesis using entry e unfolding out by (simp add: read_entries_def)
    next
      case True
      have "\<not> (vh_user_key history = Some w \<and> Compare c (view_user_key p) w = 0 \<and> vh_last_sequence history = Some q \<and> q \<le> snapshot)" for w q
        using Cons.prems(4) compare_eq_trans [of w "view_user_key p" k] user_flip(3) [of w "view_user_key p"] key(1)
        by (auto simp: shadowed_def)
      then have del: "view_kind p = Deletion" "view_sequence p \<le> snapshot"
          "fst (IsBaseLevelForKey c version first bl (view_user_key p))"
        using True step by (auto simp: ShouldDrop_def StartUserKey_def Let_def split_beta split: option.splits if_splits)
      have "shadowed c snapshot k history'" using shadow key(1) del(2) by simp
      then have none: "find (entry_for c s k) ?rest = None" by (rule shadowed_dropped [OF wf nxt(5,3,4)])
      have base: "base_inv c version bl (view_user_key p)" using Cons.prems(3) p e by simp
      have "\<not> level_holds c version l (view_user_key p)" if "unat first \<le> l" "l < levels" for l
        using IsBaseLevelForKey_spec(1) [OF wf base] del(3) that by (metis prod.collapse)
      moreover have same: "Compare c k z \<le> 0 \<longleftrightarrow> Compare c (view_user_key p) z \<le> 0" "0 \<le> Compare c k z \<longleftrightarrow> 0 \<le> Compare c (view_user_key p) z" for z
        using compare_eq_left [OF _ _ _ key(1), of z] by auto
      have "level_holds c version l k \<longleftrightarrow> level_holds c version l (view_user_key p)" for l
        unfolding level_holds_def same ..
      ultimately have "below = None" using below by blast
      then show ?thesis using True none del(1) entry p e unfolding out by (simp add: read_entries_def)
    qed
  qed
qed simp

end

section \<open>Cutting the outputs\<close>

text \<open>An iterator that delivers a list of entries and then ends.\<close>

fun delivers :: "'i InternalIterator \<Rightarrow> 'i \<Rightarrow> (bytes \<times> bytes) list \<Rightarrow> bool" where
  "delivers ops input [] \<longleftrightarrow> \<not> it_valid ops input"
| "delivers ops input (e # entries) \<longleftrightarrow>
     it_valid ops input \<and> it_key ops input = fst e \<and> it_value ops input = snd e \<and>
     (\<exists>input1. it_Next ops input = (Inr (), input1) \<and> delivers ops input1 entries)"

text \<open>The metadata of an output bounds the entries added to its table.\<close>

definition describes :: "FileMetadata \<Rightarrow> (bytes \<times> bytes) list \<Rightarrow> bool" where
  "describes m entries \<longleftrightarrow>
     entries \<noteq> [] \<and> wf_file m \<and> ik_encoded (fm_smallest m) = fst (hd entries) \<and> ik_encoded (fm_largest m) = fst (last entries)"

definition outputs_inv :: "'b Outputs \<Rightarrow> (bytes \<times> bytes) list list \<Rightarrow> (bytes \<times> bytes) list \<Rightarrow> bool" where
  "outputs_inv outputs groups cur \<longleftrightarrow>
     list_all2 describes (ou_finished outputs) groups \<and> (ou_builder outputs = None \<longleftrightarrow> cur = []) \<and>
     (\<forall>e \<in> set cur. has_value (ParseInternalKey (fst e))) \<and>
     (cur \<noteq> [] \<longrightarrow> ou_number outputs \<noteq> 0 \<and> ou_smallest outputs = fst (hd cur) \<and> ou_largest outputs = fst (last cur))"

lemma InternalKey_Decode_parsed: "has_value (ParseInternalKey k) \<Longrightarrow> InternalKey_Decode k = Inr (InternalKey k)"
  by (auto simp: InternalKey_Decode_def has_value_iff)

lemma Outputs_Finish_inv:
  assumes inv: "outputs_inv outputs groups cur" and cur: "cur \<noteq> []"
  shows "\<exists>r outputs' world'. Outputs_Finish env outputs world = Some (r, outputs', world') \<and>
    (r = Inr () \<longrightarrow> outputs_inv outputs' (groups @ [cur]) [])"
proof -
  obtain builder where builder: "ou_builder outputs = Some builder" using inv cur by (auto simp: outputs_inv_def)
  obtain finished builder1 world1 where finish: "ce_finish_table env builder world = (finished, builder1, world1)" by (metis prod_cases3)
  have ends: "InternalKey_Decode (ou_smallest outputs) = Inr (InternalKey (fst (hd cur)))"
      "InternalKey_Decode (ou_largest outputs) = Inr (InternalKey (fst (last cur)))"
    using inv cur by (auto simp: outputs_inv_def intro!: InternalKey_Decode_parsed)
  have valid: "IsValidInternalKey (InternalKey (fst (hd cur)))" "IsValidInternalKey (InternalKey (fst (last cur)))"
    using inv cur by (auto simp: outputs_inv_def IsValidInternalKey_def)
  show ?thesis
  proof (cases finished)
    case (Inl e)
    then show ?thesis using builder finish by (simp add: Outputs_Finish_def FinishBuilder_def)
  next
    case (Inr u)
    let ?size = "ce_table_size env builder1"
    obtain found world2 where find: "ce_find_table env (ou_number outputs) ?size world1 = (found, world2)" by force
    let ?m = "\<lparr>fm_number = ou_number outputs, fm_file_size = ?size, fm_smallest = InternalKey (fst (hd cur)),
      fm_largest = InternalKey (fst (last cur)), fm_allowed_seeks = 0\<rparr>"
    have "describes ?m cur" using inv cur valid by (simp add: describes_def wf_file_def outputs_inv_def)
    then show ?thesis using builder finish Inr find ends inv
      by (cases found) (auto simp: Outputs_Finish_def FinishBuilder_def MakeMetadata_def outputs_inv_def intro!: list_all2_appendI)
  qed
qed

lemma Outputs_Add_inv:
  assumes inv: "outputs_inv outputs groups cur" and key: "has_value (ParseInternalKey key)"
    and numbers: "\<And>w. fst (ce_new_file_number env w) \<noteq> 0"
  shows "\<exists>r outputs' world'. Outputs_Add env target outputs key v world = Some (r, outputs', world') \<and>
    (r = Inr () \<longrightarrow> (\<exists>groups' cur'. outputs_inv outputs' groups' cur' \<and> concat groups' @ cur' = concat groups @ cur @ [(key, v)]))"
proof -
  define start where "start = (if ou_builder outputs = None then Outputs_Open env outputs key world else (Inr (), outputs, world))"
  obtain opened outputs1 world1 where opened: "start = (opened, outputs1, world1)" by (metis prod_cases3)
  show ?thesis
  proof (cases opened)
    case (Inl e)
    then show ?thesis using opened by (simp add: Outputs_Add_def start_def)
  next
    case (Inr u)
    obtain number w1 where number: "ce_new_file_number env world = (number, w1)" "number \<noteq> 0" using numbers [of world] by (cases "ce_new_file_number env world") auto
    have "\<exists>builder. ou_builder outputs1 = Some builder \<and> ou_finished outputs1 = ou_finished outputs \<and>
        ou_smallest outputs1 = fst (hd (cur @ [(key, v)])) \<and> ou_number outputs1 \<noteq> 0"
    proof (cases "ou_builder outputs")
      case None
      then have "cur = []" using inv by (simp add: outputs_inv_def)
      then show ?thesis using opened Inr None number by (auto simp: start_def Outputs_Open_def Let_def split: prod.splits sum.splits)
    next
      case (Some builder)
      then have "cur \<noteq> []" using inv by (auto simp: outputs_inv_def)
      then show ?thesis using opened Inr Some inv by (simp add: start_def outputs_inv_def)
    qed
    then obtain builder where builder: "ou_builder outputs1 = Some builder" "ou_finished outputs1 = ou_finished outputs"
        "ou_smallest outputs1 = fst (hd (cur @ [(key, v)]))" "ou_number outputs1 \<noteq> 0" by blast
    obtain added builder1 world2 where add: "ce_add_trusted env builder key v world1 = (added, builder1, world2)" by (metis prod_cases3)
    let ?outputs = "outputs1\<lparr>ou_largest := key, ou_builder := Some builder1\<rparr>"
    have inv2: "outputs_inv ?outputs groups (cur @ [(key, v)])" using inv builder key by (auto simp: outputs_inv_def)
    have step: "Outputs_Add env target outputs key v world =
        (case added of Inl e \<Rightarrow> Some (Inl e, ?outputs, world2)
         | Inr _ \<Rightarrow> (if ce_table_size env builder1 \<ge> target then Outputs_Finish env ?outputs world2 else Some (Inr (), ?outputs, world2)))"
      using opened Inr builder(1) add by (simp add: Outputs_Add_def start_def Outputs_Append_def split: sum.splits)
    show ?thesis
    proof (cases added)
      case (Inl e)
      then show ?thesis using step by simp
    next
      case (Inr u')
      have "cur @ [(key, v)] \<noteq> []" by simp
      from Outputs_Finish_inv [OF inv2 this, of env world2]
      obtain r outputs3 world3 where finish: "Outputs_Finish env ?outputs world2 = Some (r, outputs3, world3)"
          "r = Inr () \<longrightarrow> outputs_inv outputs3 (groups @ [cur @ [(key, v)]]) []" by blast
      have closed: "concat (groups @ [cur @ [(key, v)]]) @ [] = concat groups @ cur @ [(key, v)]" by simp
      show ?thesis
      proof (cases "ce_table_size env builder1 \<ge> target")
        case True
        then have "Outputs_Add env target outputs key v world = Some (r, outputs3, world3)" using step Inr finish(1) by simp
        then show ?thesis using finish(2) closed by blast
      next
        case False
        then have "Outputs_Add env target outputs key v world = Some (Inr (), ?outputs, world2)" using step Inr by simp
        moreover have "concat groups @ (cur @ [(key, v)]) = concat groups @ cur @ [(key, v)]" by simp
        ultimately show ?thesis using inv2 by blast
      qed
    qed
  qed
qed

text \<open>The state of a run after some of the entries were written.\<close>

definition written :: "'b compaction_state \<Rightarrow> (bytes \<times> bytes) list \<Rightarrow> bool" where
  "written st entries \<longleftrightarrow> (\<exists>groups cur. outputs_inv (cr_outputs st) groups cur \<and> concat groups @ cur = entries)"

lemma ProcessEntry_written:
  assumes st: "written st entries" and numbers: "\<And>w. fst (ce_new_file_number env w) \<noteq> 0"
  shows "\<exists>r st' world'. ProcessEntry env c run key v st world = Some (r, st', world') \<and>
    (r = Inr () \<longrightarrow> (\<exists>p d. ParseInternalKey key = Inr p \<and>
       ShouldDrop c (co_version (rn_compaction run)) (co_level (rn_compaction run) + 2) (cr_history st) p (rn_smallest_snapshot run)
         (cr_base_level st) = (d, cr_history st', cr_base_level st') \<and>
       written st' (entries @ (if d then [] else [(key, v)]))))"
proof (cases "ce_before_entry env world")
  case (Pair before world1)
  show ?thesis
  proof (cases before)
    case (Inl e)
    then show ?thesis using Pair by (simp add: ProcessEntry_def)
  next
    case (Inr u)
    obtain stop go where stop: "ShouldStopBefore c (co_grandparents (rn_compaction run)) (GrandparentOverlapFactor * rn_target_file_size run)
        (cr_grandparents st) key = (stop, go)" by force
    let ?finish = "FinishBefore env stop (cr_outputs st) world1"
    obtain groups cur where inv: "outputs_inv (cr_outputs st) groups cur" "concat groups @ cur = entries" using st by (auto simp: written_def)
    have "\<exists>finished outputs world2. ?finish = Some (finished, outputs, world2) \<and>
        (finished = Inr () \<longrightarrow> (\<exists>groups' cur'. outputs_inv outputs groups' cur' \<and> concat groups' @ cur' = entries))"
    proof (cases "stop \<and> ou_builder (cr_outputs st) \<noteq> None")
      case True
      then have "cur \<noteq> []" using inv(1) by (auto simp: outputs_inv_def)
      from Outputs_Finish_inv [OF inv(1) this, of env world1] obtain r outputs' world' where
        "Outputs_Finish env (cr_outputs st) world1 = Some (r, outputs', world')" "r = Inr () \<longrightarrow> outputs_inv outputs' (groups @ [cur]) []" by blast
      moreover have "concat (groups @ [cur]) @ [] = entries" using inv(2) by simp
      ultimately show ?thesis unfolding FinishBefore_def if_P [OF True] by blast
    next
      case False
      then show ?thesis unfolding FinishBefore_def if_not_P [OF False] using inv by blast
    qed
    then obtain finished outputs world2 where finish: "?finish = Some (finished, outputs, world2)"
        "finished = Inr () \<longrightarrow> (\<exists>groups' cur'. outputs_inv outputs groups' cur' \<and> concat groups' @ cur' = entries)" by blast
    let ?st = "st\<lparr>cr_grandparents := go, cr_outputs := outputs\<rparr>"
    have step: "ProcessEntry env c run key v st world = (case finished of Inl e \<Rightarrow> Some (Inl e, ?st, world2)
      | Inr _ \<Rightarrow> (case ParseInternalKey key of Inl e \<Rightarrow> Some (Inl e, ?st, world2)
        | Inr parsed \<Rightarrow> (let (drop, history, bl) = ShouldDrop c (co_version (rn_compaction run)) (co_level (rn_compaction run) + 2) (cr_history st)
              parsed (rn_smallest_snapshot run) (cr_base_level st);
            st3 = ?st\<lparr>cr_history := history, cr_base_level := bl\<rparr>
          in if drop then Some (Inr (), st3, world2)
             else map_option (\<lambda>(added, outputs1, world3). (added, st3\<lparr>cr_outputs := outputs1\<rparr>, world3))
               (Outputs_Add env (rn_target_file_size run) outputs key v world2))))"
      using Pair Inr stop finish(1) by (simp add: ProcessEntry_def Let_def split_beta split: sum.split)
    show ?thesis
    proof (cases "finished = Inr () \<and> has_value (ParseInternalKey key)")
      case False
      then show ?thesis unfolding step by (cases finished; cases "ParseInternalKey key") auto
    next
      case True
      then obtain p where p: "ParseInternalKey key = Inr p" by (auto simp: has_value_iff)
      obtain groups' cur' where inv': "outputs_inv outputs groups' cur'" "concat groups' @ cur' = entries" using finish(2) True by blast
      obtain d history bl where drop: "ShouldDrop c (co_version (rn_compaction run)) (co_level (rn_compaction run) + 2) (cr_history st) p
          (rn_smallest_snapshot run) (cr_base_level st) = (d, history, bl)" by (metis prod_cases3)
      from Outputs_Add_inv [OF inv'(1) conjunct2 [OF True] numbers, of "rn_target_file_size run" v world2]
      obtain r outputs3 world3 where add: "Outputs_Add env (rn_target_file_size run) outputs key v world2 = Some (r, outputs3, world3)"
          "r = Inr () \<longrightarrow> (\<exists>groups cur. outputs_inv outputs3 groups cur \<and> concat groups @ cur = concat groups' @ cur' @ [(key, v)])" by blast
      show ?thesis
      proof (cases d)
        case True
        then show ?thesis using \<open>finished = Inr () \<and> _\<close> p drop inv' unfolding step by (auto simp: written_def)
      next
        case False
        then show ?thesis using True p drop inv'(2) add unfolding step by (auto simp: written_def)
      qed
    qed
  qed
qed

abbreviation run_survivors :: "comparator \<Rightarrow> compaction_run \<Rightarrow> VisibleHistory \<Rightarrow> BaseLevel \<Rightarrow> (bytes \<times> bytes) list \<Rightarrow> (bytes \<times> bytes) list" where
  "run_survivors c run \<equiv> surviving c (co_version (rn_compaction run)) (co_level (rn_compaction run) + 2) (rn_smallest_snapshot run)"

lemma RunLoop_written:
  assumes numbers: "\<And>w. fst (ce_new_file_number env w) \<noteq> 0"
  shows "delivers ops input entries \<Longrightarrow> written st done' \<Longrightarrow>
    \<exists>r st' world'. RunLoop env ops c run (Inr u) input st world = Some (r, st', world') \<and>
      (r = Inr () \<longrightarrow> written st' (done' @ run_survivors c run (cr_history st) (cr_base_level st) entries))"
proof (induction entries arbitrary: input st done' u world)
  case Nil
  then show ?case by (subst RunLoop.simps) simp
next
  case (Cons e entries)
  obtain input1 where input: "it_valid ops input" "it_key ops input = fst e" "it_value ops input = snd e"
      "it_Next ops input = (Inr (), input1)" "delivers ops input1 entries" using Cons.prems(1) by auto
  obtain r st1 world1 where entry: "ProcessEntry env c run (fst e) (snd e) st world = Some (r, st1, world1)"
      "r = Inr () \<longrightarrow> (\<exists>p d. ParseInternalKey (fst e) = Inr p \<and>
         ShouldDrop c (co_version (rn_compaction run)) (co_level (rn_compaction run) + 2) (cr_history st) p (rn_smallest_snapshot run)
           (cr_base_level st) = (d, cr_history st1, cr_base_level st1) \<and>
         written st1 (done' @ (if d then [] else [(fst e, snd e)])))"
    using ProcessEntry_written [OF Cons.prems(2) numbers, of c run "fst e" "snd e" world] by blast
  have step: "RunLoop env ops c run (Inr u) input st world =
      (case r of Inl e \<Rightarrow> Some (Inl e, st1, world1) | Inr _ \<Rightarrow> RunLoop env ops c run (Inr ()) input1 st1 world1)"
    using input entry(1) by (subst RunLoop.simps) (simp split: sum.split)
  show ?case
  proof (cases r)
    case (Inl e)
    then show ?thesis using step by simp
  next
    case (Inr w)
    then obtain p d where p: "ParseInternalKey (fst e) = Inr p"
        "ShouldDrop c (co_version (rn_compaction run)) (co_level (rn_compaction run) + 2) (cr_history st) p (rn_smallest_snapshot run)
           (cr_base_level st) = (d, cr_history st1, cr_base_level st1)"
        "written st1 (done' @ (if d then [] else [(fst e, snd e)]))" using entry(2) by auto
    have out: "(if d then [] else [(fst e, snd e)]) @ run_survivors c run (cr_history st1) (cr_base_level st1) entries =
        run_survivors c run (cr_history st) (cr_base_level st) (e # entries)"
      using p(1,2) by (cases e) simp
    from Cons.IH [OF input(5) p(3), of "()" world1] show ?thesis unfolding append.assoc out step Inr by simp
  qed
qed

lemma FinishCompaction_written:
  assumes "written st entries"
  shows "\<exists>r world'. FinishCompaction env compaction (cr_outputs st) world = Some (r, world') \<and>
    (\<forall>edit. r = Inr edit \<longrightarrow> (\<exists>groups outputs. concat groups = entries \<and> list_all2 describes outputs groups \<and>
       edit = AddOutputs (co_level compaction + 1) outputs (CompactionEdit compaction)))"
proof -
  let ?finish = "if ou_builder (cr_outputs st) \<noteq> None then Outputs_Finish env (cr_outputs st) world else Some (Inr (), cr_outputs st, world)"
  obtain groups cur where inv: "outputs_inv (cr_outputs st) groups cur" "concat groups @ cur = entries" using assms by (auto simp: written_def)
  have "\<exists>finished outputs world1. ?finish = Some (finished, outputs, world1) \<and>
      (finished = Inr () \<longrightarrow> (\<exists>groups'. list_all2 describes (ou_finished outputs) groups' \<and> concat groups' = entries))"
  proof (cases "ou_builder (cr_outputs st) \<noteq> None")
    case True
    then have "cur \<noteq> []" using inv(1) by (auto simp: outputs_inv_def)
    from Outputs_Finish_inv [OF inv(1) this, of env world] obtain r outputs' world' where
      "Outputs_Finish env (cr_outputs st) world = Some (r, outputs', world')" "r = Inr () \<longrightarrow> outputs_inv outputs' (groups @ [cur]) []" by blast
    moreover have "concat (groups @ [cur]) = entries" using inv(2) by simp
    ultimately show ?thesis unfolding if_P [OF True] outputs_inv_def by blast
  next
    case False
    then have "list_all2 describes (ou_finished (cr_outputs st)) groups" "concat groups = entries" using inv by (auto simp: outputs_inv_def)
    then show ?thesis unfolding if_not_P [OF False] by blast
  qed
  then obtain finished outputs world1 where finish: "?finish = Some (finished, outputs, world1)"
      "finished = Inr () \<longrightarrow> (\<exists>groups'. list_all2 describes (ou_finished outputs) groups' \<and> concat groups' = entries)" by blast
  show ?thesis
  proof (cases finished)
    case (Inl e)
    then show ?thesis using finish(1) by (simp add: FinishCompaction_def)
  next
    case (Inr u)
    then obtain groups' where groups: "list_all2 describes (ou_finished outputs) groups'" "concat groups' = entries" using finish(2) by auto
    obtain synced world2 where sync: "ce_sync_directory env world1 = (synced, world2)" by force
    have step: "FinishCompaction env compaction (cr_outputs st) world =
      (if ou_finished outputs = [] then Some (Inr (CompactionEdit compaction), world1)
       else case synced of Inl e \<Rightarrow> Some (Inl e, world2)
         | Inr _ \<Rightarrow> Some (Inr (AddOutputs (co_level compaction + 1) (ou_finished outputs) (CompactionEdit compaction)), world2))"
      unfolding FinishCompaction_def finish(1) using Inr sync by (simp add: Let_def split: sum.split)
    have none: "AddOutputs (co_level compaction + 1) [] (CompactionEdit compaction) = CompactionEdit compaction" by (simp add: AddOutputs_def)
    show ?thesis
    proof (cases "ou_finished outputs = []")
      case True
      then have "\<exists>groups outputs. concat groups = entries \<and> list_all2 describes outputs groups \<and>
          CompactionEdit compaction = AddOutputs (co_level compaction + 1) outputs (CompactionEdit compaction)"
        using groups none by (intro exI [of _ groups'] exI [of _ "[]"]) simp
      then show ?thesis unfolding step if_P [OF True] by blast
    next
      case False
      then show ?thesis unfolding step using groups by (cases synced) auto
    qed
  qed
qed

lemma RunCompaction_written:
  assumes seek: "it_SeekToFirst ops input = (Inr (), input1)" and entries: "delivers ops input1 entries"
    and numbers: "\<And>w. fst (ce_new_file_number env w) \<noteq> 0"
  shows "\<exists>r world'. RunCompaction env ops c run input world = Some (r, world') \<and>
    (\<forall>edit. r = Inr edit \<longrightarrow> (\<exists>groups outputs.
       concat groups = run_survivors c run VisibleHistory_New BaseLevel_New entries \<and> list_all2 describes outputs groups \<and>
       edit = AddOutputs (co_level (rn_compaction run) + 1) outputs (CompactionEdit (rn_compaction run))))"
proof -
  let ?st = "\<lparr>cr_grandparents = GrandparentOverlap_New, cr_base_level = BaseLevel_New, cr_history = VisibleHistory_New, cr_outputs = Outputs_New\<rparr>"
  have "outputs_inv Outputs_New [] []" by (simp add: outputs_inv_def Outputs_New_def)
  then have start: "written ?st []" unfolding written_def by (intro exI [of _ "[]"]) simp
  from RunLoop_written [where env = env and c = c and run = run and u = "()" and world = world, OF numbers entries start]
  obtain r st world1 where loop: "RunLoop env ops c run (Inr ()) input1 ?st world = Some (r, st, world1)"
      "r = Inr () \<longrightarrow> written st (run_survivors c run VisibleHistory_New BaseLevel_New entries)" by auto
  show ?thesis
  proof (cases r)
    case (Inl e)
    then show ?thesis using seek loop(1) by (simp add: RunCompaction_def RunInputEntries_def)
  next
    case (Inr u)
    have step: "RunCompaction env ops c run input world = FinishCompaction env (rn_compaction run) (cr_outputs st) world1"
      using seek loop(1) Inr by (simp add: RunCompaction_def RunInputEntries_def)
    have "written st (run_survivors c run VisibleHistory_New BaseLevel_New entries)" using loop(2) Inr by simp
    then show ?thesis unfolding step by (rule FinishCompaction_written)
  qed
qed

section \<open>Installing the edit\<close>

lemma RemoveInputs_spec:
  assumes "level < NumLevels"
  shows "\<forall>f \<in> set files. fm_number f \<noteq> 0 \<Longrightarrow> wf_edit edit \<Longrightarrow>
    wf_edit (RemoveInputs level files edit) \<and> ve_new_files (RemoveInputs level files edit) = ve_new_files edit \<and>
    set (ve_deleted_files (RemoveInputs level files edit)) = set (ve_deleted_files edit) \<union> (\<lambda>f. DeletedFile level (fm_number f)) ` set files"
proof (induction files arbitrary: edit)
  case (Cons f files)
  define edit1 where "edit1 = edit\<lparr>ve_deleted_files := insort_insert (DeletedFile level (fm_number f)) (ve_deleted_files edit)\<rparr>"
  have remove: "RemoveFile edit level (fm_number f) = Inr edit1" using assms Cons.prems(1) by (simp add: RemoveFile_def edit1_def not_le)
  then have step: "RemoveInputs level (f # files) edit = RemoveInputs level files edit1" by (simp add: RemoveInputs_def discard_result_def)
  have "wf_edit edit1" by (rule wf_edit_mutators(8) [OF Cons.prems(2) remove])
  moreover have "set (ve_deleted_files edit1) = insert (DeletedFile level (fm_number f)) (set (ve_deleted_files edit))" "ve_new_files edit1 = ve_new_files edit"
    by (simp_all add: edit1_def set_insort_insert)
  ultimately show ?case unfolding step using Cons.IH [of edit1] Cons.prems(1) by auto
qed (simp add: RemoveInputs_def)

lemma AddOutputs_spec:
  assumes "level < NumLevels"
  shows "\<forall>f \<in> set files. wf_file f \<Longrightarrow> wf_edit edit \<Longrightarrow>
    wf_edit (AddOutputs level files edit) \<and> ve_deleted_files (AddOutputs level files edit) = ve_deleted_files edit \<and>
    ve_new_files (AddOutputs level files edit) = ve_new_files edit @ map (\<lambda>f. \<lparr>nf_level = level, nf_file = f\<rparr>) files"
proof (induction files arbitrary: edit)
  case (Cons f files)
  define edit1 where "edit1 = edit\<lparr>ve_new_files := ve_new_files edit @ [\<lparr>nf_level = level, nf_file = f\<rparr>]\<rparr>"
  have add: "AddFile edit level f = Inr edit1" using assms Cons.prems(1) by (simp add: AddFile_def edit1_def wf_file_def not_le)
  then have step: "AddOutputs level (f # files) edit = AddOutputs level files edit1" by (simp add: AddOutputs_def discard_result_def)
  have "wf_edit edit1" by (rule wf_edit_mutators(7) [OF Cons.prems(2) add])
  then show ?case unfolding step using Cons.IH [of edit1] Cons.prems(1) by (simp add: edit1_def)
qed (simp add: AddOutputs_def)

lemma CompactionEdit_spec:
  assumes "unat (co_level compaction) < levels - 1"
    and "\<forall>f \<in> set (fst (co_inputs compaction)) \<union> set (snd (co_inputs compaction)). fm_number f \<noteq> 0"
  shows "wf_edit (CompactionEdit compaction)" "ve_new_files (CompactionEdit compaction) = []"
    "set (ve_deleted_files (CompactionEdit compaction)) =
       (\<lambda>f. DeletedFile (co_level compaction) (fm_number f)) ` set (fst (co_inputs compaction)) \<union>
       (\<lambda>f. DeletedFile (co_level compaction + 1) (fm_number f)) ` set (snd (co_inputs compaction))"
proof -
  define edit where "edit = discard_result VersionEdit_New
    (AddCompactPointer VersionEdit_New (co_level compaction) (co_compact_pointer compaction))"
  have "wf_edit edit"
    using wf_edit_mutators(6) [OF wf_edit_New, of "co_level compaction" "co_compact_pointer compaction"] wf_edit_New
    by (simp add: edit_def discard_result_def split: sum.split)
  moreover have "ve_new_files edit = []" "ve_deleted_files edit = []"
    by (simp_all add: edit_def discard_result_def VersionEdit_New_def AddCompactPointer_def)
  ultimately have edit: "wf_edit edit" "ve_new_files edit = []" "ve_deleted_files edit = []" by simp_all
  have levels: "co_level compaction < NumLevels" "co_level compaction + 1 < NumLevels"
    using assms(1) by (simp_all add: levels_eq word_less_nat_alt NumLevels_def unat_word_ariths)
  have whole: "CompactionEdit compaction = RemoveInputs (co_level compaction + 1) (snd (co_inputs compaction))
      (RemoveInputs (co_level compaction) (fst (co_inputs compaction)) edit)"
    by (simp add: CompactionEdit_def edit_def)
  have first: "wf_edit (RemoveInputs (co_level compaction) (fst (co_inputs compaction)) edit) \<and>
      ve_new_files (RemoveInputs (co_level compaction) (fst (co_inputs compaction)) edit) = ve_new_files edit \<and>
      set (ve_deleted_files (RemoveInputs (co_level compaction) (fst (co_inputs compaction)) edit)) =
        set (ve_deleted_files edit) \<union> (\<lambda>f. DeletedFile (co_level compaction) (fm_number f)) ` set (fst (co_inputs compaction))"
    by (rule RemoveInputs_spec [OF levels(1) _ edit(1)]) (use assms(2) in blast)
  note both = RemoveInputs_spec [OF levels(2), of "snd (co_inputs compaction)", OF _ conjunct1 [OF first]]
  show "wf_edit (CompactionEdit compaction)" "ve_new_files (CompactionEdit compaction) = []"
    "set (ve_deleted_files (CompactionEdit compaction)) =
       (\<lambda>f. DeletedFile (co_level compaction) (fm_number f)) ` set (fst (co_inputs compaction)) \<union>
       (\<lambda>f. DeletedFile (co_level compaction + 1) (fm_number f)) ` set (snd (co_inputs compaction))"
    unfolding whole using both first edit assms(2) by simp_all
qed

lemma picked_live:
  assumes "unat level < levels - 1" "picked c version level S S'"
  shows "unat (level + 1) = unat level + 1" "level + 1 < NumLevels" "unat level < levels" "unat level + 1 < levels"
    "set S \<subseteq> set (v_files version ! unat level)" "set S' \<subseteq> set (v_files version ! (unat level + 1))"
proof -
  show up: "unat (level + 1) = unat level + 1" "level + 1 < NumLevels" "unat level < levels" "unat level + 1 < levels"
    using assms(1) by (simp_all add: levels_eq unat_word_ariths word_less_nat_alt NumLevels_def)
  show "set S \<subseteq> set (v_files version ! unat level)" "set S' \<subseteq> set (v_files version ! (unat level + 1))"
    using assms(2) up(1) by (simp_all add: picked_def Version_files_def)
qed

lemma picked_nonzero:
  assumes "unat level < levels - 1" "picked c version level S S'" "\<forall>l < levels. \<forall>f \<in> set (v_files version ! l). fm_number f \<noteq> 0"
  shows "\<forall>f \<in> set S \<union> set S'. fm_number f \<noteq> 0"
  using picked_live(3-6) [OF assms(1,2)] assms(3) by blast

lemma sorted_wrt_subseq: "subseq xs ys \<Longrightarrow> sorted_wrt P ys \<Longrightarrow> sorted_wrt P xs"
proof (induction rule: list_emb.induct)
  case (list_emb_Cons2 x y xs ys)
  then show ?case by (auto dest: list_emb_set)
qed auto

context user_comparator_laws
begin

lemma sorted_entries_subseq: "subseq xs ys \<Longrightarrow> sorted_entries c ys \<Longrightarrow> sorted_entries c xs"
  unfolding sorted_entries_def using sorted_wrt_subseq list_emb_set by (metis (mono_tags, lifting))

text \<open>Outputs cut from a sorted history are ordered and apart.\<close>

lemma describes_apart:
  "list_all2 describes outputs groups \<Longrightarrow> sorted_entries c (concat groups) \<Longrightarrow>
   sorted_wrt (files_apart c) outputs \<and> (\<forall>f \<in> set outputs. file_ordered c f \<and> wf_file f \<and>
     (\<exists>e \<in> set (concat groups). ik_encoded (fm_smallest f) = fst e) \<and> (\<exists>e \<in> set (concat groups). ik_encoded (fm_largest f) = fst e))"
proof (induction rule: list_all2_induct)
  case (Cons f outputs group groups)
  have group: "group \<noteq> []" "wf_file f" "ik_encoded (fm_smallest f) = fst (hd group)" "ik_encoded (fm_largest f) = fst (last group)"
    using Cons.hyps(1) by (auto simp: describes_def)
  have sorted: "sorted_entries c (concat groups)" "sorted_wrt (\<lambda>e e'. InternalKeyCompare c (fst e) (fst e') < 0) group"
    "\<forall>e \<in> set group. \<forall>e' \<in> set (concat groups). InternalKeyCompare c (fst e) (fst e') < 0"
    using Cons.prems by (auto simp: sorted_entries_def sorted_wrt_append)
  note IH = Cons.IH [OF sorted(1)]
  have "InternalKeyCompare c (fst (hd group)) (fst (last group)) \<le> 0"
    using group(1) sorted(2) by (cases group) (auto simp: less_imp_le)
  then have "file_ordered c f" using group by simp
  moreover have "files_apart c f g" if "g \<in> set outputs" for g
  proof -
    obtain e where e: "e \<in> set (concat groups)" "ik_encoded (fm_smallest g) = fst e" using IH \<open>g \<in> set outputs\<close> by blast
    have "InternalKeyCompare c (fst (last group)) (fst e) < 0" using sorted(3) e(1) last_in_set [OF group(1)] by blast
    then show ?thesis using group(4) e(2) by simp
  qed
  moreover have "hd group \<in> set (concat (group # groups))" "last group \<in> set (concat (group # groups))" using group(1) by simp_all
  moreover have "set (concat groups) \<subseteq> set (concat (group # groups))" by auto
  ultimately show ?case unfolding sorted_wrt.simps list.set(2) using IH group(2-4) by blast
qed simp

text \<open>Files that the compaction keeps in a level, and its outputs in the next level, stay apart.\<close>

lemma compaction_result_apart:
  assumes wf: "wf_version c version" and level: "unat level < levels - 1" and picked: "picked c version level S S'"
    and outputs: "sorted_wrt (files_apart c) outputs"
    and inside: "\<forall>f \<in> set outputs. (\<exists>g \<in> set (S @ S'). InternalKeyCompare c (ik_encoded (fm_smallest g)) (ik_encoded (fm_smallest f)) \<le> 0) \<and>
      (\<exists>g \<in> set (S @ S'). InternalKeyCompare c (ik_encoded (fm_largest f)) (ik_encoded (fm_largest g)) \<le> 0)"
    and l: "l < levels" "0 < l"
    and f: "f \<in> {f \<in> set (v_files version ! l). l = unat level + 1 \<longrightarrow> f \<notin> set S'} \<union> (if l = unat level + 1 then set outputs else {})"
    and g: "g \<in> {f \<in> set (v_files version ! l). l = unat level + 1 \<longrightarrow> f \<notin> set S'} \<union> (if l = unat level + 1 then set outputs else {})"
    and "f \<noteq> g"
  shows "files_apart c f g \<or> files_apart c g f"
proof -
  have apart: "sorted_wrt (files_apart c) (v_files version ! l)" using wf l by (simp add: wf_version_def)
  have up: "unat (level + 1) = unat level + 1" using level by (simp add: levels_eq unat_word_ariths)
  have mixed: "files_apart c x y \<or> files_apart c y x" if l: "l = unat level + 1" and x: "x \<in> set (v_files version ! l)" "x \<notin> set S'" and y: "y \<in> set outputs" for x y
  proof -
    have "x \<in> set (Version_files version (level + 1))" using x(1) l up by (simp add: Version_files_def)
    then consider (left) "\<forall>g \<in> set (S @ S'). files_apart c x g" | (right) "\<forall>g \<in> set (S @ S'). user_before c g x"
      using picked x(2) unfolding picked_def by blast
    then show ?thesis
    proof cases
      case left
      then show ?thesis using inside y internal_less_le_trans by blast
    next
      case right
      then show ?thesis using inside y user_before_apart internal_le_less_trans by blast
    qed
  qed
  show ?thesis
  proof (cases "l = unat level + 1")
    case False
    then show ?thesis using f g apart_total [OF apart _ _ \<open>f \<noteq> g\<close>] by simp
  next
    case True
    then consider "f \<in> set (v_files version ! l)" "g \<in> set (v_files version ! l)" | "f \<in> set outputs" "g \<in> set outputs"
      | "f \<in> set (v_files version ! l)" "f \<notin> set S'" "g \<in> set outputs" | "g \<in> set (v_files version ! l)" "g \<notin> set S'" "f \<in> set outputs"
      using f g by auto
    then show ?thesis
    proof cases
      case 1
      then show ?thesis by (rule apart_total [OF apart _ _ \<open>f \<noteq> g\<close>])
    next
      case 2
      then show ?thesis by (rule apart_total [OF outputs _ _ \<open>f \<noteq> g\<close>])
    next
      case 3
      then show ?thesis using mixed [OF True] by blast
    next
      case 4
      then show ?thesis using mixed [OF True] by blast
    qed
  qed
qed

lemma compaction_edit_valid:
  assumes wf: "wf_version c version" and level: "unat (co_level compaction) < levels - 1"
    and picked: "picked c version (co_level compaction) (fst (co_inputs compaction)) (snd (co_inputs compaction))"
    and numbers: "\<forall>l < levels. \<forall>f \<in> set (v_files version ! l). fm_number f \<noteq> 0"
    and groups: "list_all2 describes outputs groups" "sorted_entries c (concat groups)"
    and inside: "\<forall>e \<in> set (concat groups). \<exists>g \<in> set (fst (co_inputs compaction) @ snd (co_inputs compaction)).
      InternalKeyCompare c (ik_encoded (fm_smallest g)) (fst e) \<le> 0 \<and> InternalKeyCompare c (fst e) (ik_encoded (fm_largest g)) \<le> 0"
    and fresh: "distinct (map fm_number outputs)" "\<forall>o' \<in> set outputs. \<forall>l < levels. \<forall>f \<in> set (v_files version ! l). fm_number f \<noteq> fm_number o'"
  defines "edit \<equiv> AddOutputs (co_level compaction + 1) outputs (CompactionEdit compaction)"
  shows "wf_edit edit \<and> valid_edit c version edit"
proof -
  let ?L = "co_level compaction" and ?S = "fst (co_inputs compaction)" and ?S' = "snd (co_inputs compaction)"
  note up = picked_live(1-4) [OF level picked] and live = picked_live(5,6) [OF level picked]
  note nonzero = picked_nonzero [OF level picked numbers]
  note edit0 = CompactionEdit_spec [OF level nonzero]
  note cut = describes_apart [OF groups]
  have "\<forall>f \<in> set outputs. wf_file f" using cut by blast
  from AddOutputs_spec [OF up(2) this edit0(1)] have edit: "wf_edit edit" "ve_deleted_files edit = ve_deleted_files (CompactionEdit compaction)"
      "ve_new_files edit = map (\<lambda>f. \<lparr>nf_level = ?L + 1, nf_file = f\<rparr>) outputs" using edit0(2) by (simp_all add: edit_def)
  have removed: "removes (ve_deleted_files edit) (unat ?L + 1) f" if "f \<in> set ?S'" for f
    unfolding removes_def edit(2) edit0(3) using that up(1) by (auto intro: bexI [of _ "DeletedFile (?L + 1) (fm_number f)"])
  have adds: "adds (ve_new_files edit) l \<subseteq> (if l = unat ?L + 1 then MakeVersionFile ` set outputs else {})" for l
    using up(1) by (auto simp: adds_def edit(3))
  have bounds: "(\<exists>g \<in> set (?S @ ?S'). InternalKeyCompare c (ik_encoded (fm_smallest g)) (ik_encoded (fm_smallest f)) \<le> 0) \<and>
      (\<exists>g \<in> set (?S @ ?S'). InternalKeyCompare c (ik_encoded (fm_largest f)) (ik_encoded (fm_largest g)) \<le> 0)" if "f \<in> set outputs" for f
    using cut that inside by (metis (no_types, lifting))
  have "files_apart c f g \<or> files_apart c g f"
    if l: "l < levels" "0 < l" and fg: "f \<in> result_files version edit l" "g \<in> result_files version edit l" "f \<noteq> g" for l f g
  proof (rule compaction_result_apart [where outputs = "map MakeVersionFile outputs", OF wf level picked _ _ l _ _ fg(3)])
    show "sorted_wrt (files_apart c) (map MakeVersionFile outputs)" using cut by (simp add: sorted_wrt_map MakeVersionFile_def)
    show "\<forall>f \<in> set (map MakeVersionFile outputs). (\<exists>g \<in> set (?S @ ?S'). InternalKeyCompare c (ik_encoded (fm_smallest g)) (ik_encoded (fm_smallest f)) \<le> 0) \<and>
      (\<exists>g \<in> set (?S @ ?S'). InternalKeyCompare c (ik_encoded (fm_largest f)) (ik_encoded (fm_largest g)) \<le> 0)"
      using bounds by (auto simp: MakeVersionFile_def)
    have "result_files version edit l \<subseteq> {f \<in> set (v_files version ! l). l = unat ?L + 1 \<longrightarrow> f \<notin> set ?S'} \<union>
        (if l = unat ?L + 1 then set (map MakeVersionFile outputs) else {})"
      using removed adds [of l] by (auto simp: result_files_def split: if_splits)
    then show "f \<in> {f \<in> set (v_files version ! l). l = unat ?L + 1 \<longrightarrow> f \<notin> set ?S'} \<union>
        (if l = unat ?L + 1 then set (map MakeVersionFile outputs) else {})"
      "g \<in> {f \<in> set (v_files version ! l). l = unat ?L + 1 \<longrightarrow> f \<notin> set ?S'} \<union>
        (if l = unat ?L + 1 then set (map MakeVersionFile outputs) else {})" using fg by blast+
  qed
  moreover have "\<forall>d \<in> set (ve_deleted_files edit). df_number d \<in> fm_number ` set (v_files version ! unat (df_level d))"
    unfolding edit(2) edit0(3) using live up(1) by auto
  moreover have "distinct (map (\<lambda>n. fm_number (nf_file n)) (ve_new_files edit))" using fresh(1) by (simp add: edit(3) comp_def)
  moreover have "\<forall>n \<in> set (ve_new_files edit). file_ordered c (nf_file n) \<and>
      (\<forall>l < levels. \<forall>f \<in> set (v_files version ! l). fm_number f = fm_number (nf_file n) \<longrightarrow> removes (ve_deleted_files edit) l f)"
    using cut fresh(2) by (auto simp: edit(3))
  ultimately show ?thesis using edit(1) unfolding valid_edit_def by blast
qed

end

lemma run_installable:
  assumes laws: "user_comparator_laws c" "wf_version c version" "seek_live version seek"
    and pick: "PickCompaction version c pointers seek target = Some (Some (rn_compaction run))"
    and numbers: "\<forall>l < levels. \<forall>f \<in> set (v_files version ! l). fm_number f \<noteq> 0"
    and input: "it_SeekToFirst ops input = (Inr (), input1)" "delivers ops input1 entries" "sorted_entries c entries"
    and inside: "\<forall>e \<in> set entries. \<exists>g \<in> set (fst (co_inputs (rn_compaction run)) @ snd (co_inputs (rn_compaction run))).
      InternalKeyCompare c (ik_encoded (fm_smallest g)) (fst e) \<le> 0 \<and> InternalKeyCompare c (fst e) (ik_encoded (fm_largest g)) \<le> 0"
    and new: "\<forall>w. fst (ce_new_file_number env w) \<noteq> 0"
    and run: "RunCompaction env ops c run input world = Some (Inr edit, world')"
    and fresh: "distinct (map (\<lambda>n. fm_number (nf_file n)) (ve_new_files edit))"
      "\<forall>n \<in> set (ve_new_files edit). \<forall>l < levels. \<forall>f \<in> set (v_files version ! l). fm_number f \<noteq> fm_number (nf_file n)"
  shows "\<exists>b v. VersionBuilder_Apply c (VersionBuilder_New version) edit = Inr b \<and> VersionBuilder_Build c b = Inr v"
proof -
  let ?co = "rn_compaction run"
  have level: "unat (co_level ?co) < levels - 1" and picked: "picked c version (co_level ?co) (fst (co_inputs ?co)) (snd (co_inputs ?co))"
    using user_comparator_laws.PickCompaction_picked [OF laws, of pointers target] pick by auto
  have "\<And>w. fst (ce_new_file_number env w) \<noteq> 0" using new by simp
  from RunCompaction_written [OF input(1,2) this, of c run world]
  obtain groups outputs where cut: "concat groups = run_survivors c run VisibleHistory_New BaseLevel_New entries"
      "list_all2 describes outputs groups" "edit = AddOutputs (co_level ?co + 1) outputs (CompactionEdit ?co)" using run by auto
  have kept: "sorted_entries c (concat groups)" "set (concat groups) \<subseteq> set entries"
    unfolding cut(1) using user_comparator_laws.sorted_entries_subseq [OF laws(1) surviving_subseq input(3)] surviving_subset by blast+
  have nums: "\<forall>f \<in> set (fst (co_inputs ?co)) \<union> set (snd (co_inputs ?co)). fm_number f \<noteq> 0"
    by (rule picked_nonzero [OF level picked numbers])
  have "\<forall>f \<in> set outputs. wf_file f" using user_comparator_laws.describes_apart [OF laws(1) cut(2) kept(1)] by blast
  moreover have "co_level ?co + 1 < NumLevels" using level by (simp add: levels_eq unat_word_ariths word_less_nat_alt NumLevels_def)
  ultimately have files: "ve_new_files edit = map (\<lambda>f. \<lparr>nf_level = co_level ?co + 1, nf_file = f\<rparr>) outputs"
    unfolding cut(3) using AddOutputs_spec CompactionEdit_spec(1,2) [OF level nums] by simp
  have fresh': "distinct (map fm_number outputs)" "\<forall>o' \<in> set outputs. \<forall>l < levels. \<forall>f \<in> set (v_files version ! l). fm_number f \<noteq> fm_number o'"
    using fresh unfolding files by (simp_all add: comp_def)
  have "\<forall>e \<in> set (concat groups). \<exists>g \<in> set (fst (co_inputs ?co) @ snd (co_inputs ?co)).
      InternalKeyCompare c (ik_encoded (fm_smallest g)) (fst e) \<le> 0 \<and> InternalKeyCompare c (fst e) (ik_encoded (fm_largest g)) \<le> 0"
    using inside kept(2) by blast
  from user_comparator_laws.compaction_edit_valid [OF laws(1,2) level picked numbers cut(2) kept(1) this fresh']
  have "wf_edit edit" "valid_edit c version edit" unfolding cut(3) by blast+
  then show ?thesis using Build_accepts [OF laws(1,2)] by blast
qed

section \<open>Properties\<close>

text \<open>C4: Dropping entries in a compaction changes no read. Take the sorted history of the inputs of a compaction and any sequence at or
  above the smallest snapshot. Reading any user key at that sequence in the entries the drop rule keeps gives the same answer as reading it
  in all the entries, whatever the levels below the output answer, provided that they hold nothing for keys outside the ranges
  of their files.\<close>

theorem compaction_preserves_reads:
  assumes "user_comparator_laws c" "wf_version c version" "sorted_entries c entries" "snapshot \<le> s"
    and "(\<forall>l. unat first \<le> l \<longrightarrow> l < levels \<longrightarrow> \<not> level_holds c version l k) \<Longrightarrow> below = None"
  shows "read_entries c s k (surviving c version first snapshot VisibleHistory_New BaseLevel_New entries) below =
    read_entries c s k entries below"
  by (rule user_comparator_laws.surviving_reads [OF assms(1,2,4,5,3)])
    (simp_all add: history_before_def VisibleHistory_New_def shadowed_def base_inv_New)


text \<open>C5: The edit of a compaction can be installed. Take a compaction that was picked in a well-formed version, an input that delivers a
  sorted history of entries from the inputs' key ranges, and outputs with fresh file numbers. When the run
  returns an edit, the checked version builder accepts it on that version: every removed file is live where the edit says and no output
  overlaps another output or a file that stays.\<close>

theorem run_compaction_installable:
  assumes laws: "user_comparator_laws c" "wf_version c version" "seek_live version seek"
    and pick: "PickCompaction version c pointers seek target = Some (Some (rn_compaction run))"
    and numbers: "\<forall>l < levels. \<forall>f \<in> set (v_files version ! l). fm_number f \<noteq> 0"
    and input: "it_SeekToFirst ops input = (Inr (), input1)" "delivers ops input1 entries" "sorted_entries c entries"
    and inside: "\<forall>e \<in> set entries. \<exists>g \<in> set (fst (co_inputs (rn_compaction run)) @ snd (co_inputs (rn_compaction run))).
      InternalKeyCompare c (ik_encoded (fm_smallest g)) (fst e) \<le> 0 \<and> InternalKeyCompare c (fst e) (ik_encoded (fm_largest g)) \<le> 0"
    and new: "\<forall>w. fst (ce_new_file_number env w) \<noteq> 0"
    and run: "RunCompaction env ops c run input world = Some (Inr edit, world')"
    and fresh: "distinct (map (\<lambda>n. fm_number (nf_file n)) (ve_new_files edit))"
      "\<forall>n \<in> set (ve_new_files edit). \<forall>l < levels. \<forall>f \<in> set (v_files version ! l). fm_number f \<noteq> fm_number (nf_file n)"
  shows "\<exists>b v. VersionBuilder_Apply c (VersionBuilder_New version) edit = Inr b \<and> VersionBuilder_Build c b = Inr v"
  by (rule run_installable [OF assms])

section \<open>Examples\<close>

text \<open>An iterator over a list and an environment in which every operation succeeds.\<close>

definition list_iterator :: "(bytes \<times> bytes) list InternalIterator" where
  "list_iterator = \<lparr>it_SeekToFirst = Pair (Inr ()), it_valid = (\<lambda>it. it \<noteq> []), it_key = (\<lambda>it. fst (hd it)), it_value = (\<lambda>it. snd (hd it)),
     it_Next = (\<lambda>it. (Inr (), tl it))\<rparr>"

lemma list_iterator_delivers: "delivers list_iterator entries entries"
  by (induction entries) (simp_all add: list_iterator_def)

definition demo_env :: "(unit, nat) compaction_env" where
  "demo_env = \<lparr>ce_new_file_number = Pair 9, ce_before_entry = Pair (Inr ()), ce_open_table = (\<lambda>number world. (Inr 0, world)),
     ce_add_trusted = (\<lambda>b key v world. (Inr (), b + 1, world)), ce_finish_table = (\<lambda>b world. (Inr (), b, world)),
     ce_table_size = of_nat, ce_find_table = (\<lambda>number n world. (Inr (), world)), ce_sync_directory = Pair (Inr ())\<rparr>"

definition demo_history :: "(bytes \<times> bytes) list" where
  "demo_history = [(EncodeInternalKeyTrusted [97] 5 Deletion, []), (EncodeInternalKeyTrusted [97] 3 Value, [1]),
     (EncodeInternalKeyTrusted [98] 4 Value, [2])]"

lemma demo_history_sorted: "sorted_entries BytewiseComparator demo_history"
  by (simp add: sorted_entries_def demo_history_def InternalKeyCompare_less ParseInternalKey_Encode MaxSequenceNumber_def
      PackInternalKeyTrailer_less)

theorem compaction_preserves_reads_witness:
  "read_entries BytewiseComparator 10 [97] (surviving BytewiseComparator demo_version 2 10 VisibleHistory_New BaseLevel_New demo_history) None =
     read_entries BytewiseComparator 10 [97] demo_history None \<and>
   length (surviving BytewiseComparator demo_version 2 10 VisibleHistory_New BaseLevel_New demo_history) = 1"
proof
  show "length (surviving BytewiseComparator demo_version 2 10 VisibleHistory_New BaseLevel_New demo_history) = 1" by code_simp
qed (rule compaction_preserves_reads [OF bytewise.user_comparator_laws_axioms demo_version_wf demo_history_sorted]; simp)

definition flat_version :: Version where
  "flat_version = \<lparr>v_files = [[demo_file 4], [], [], [], [], [], []], v_read_pins = 0\<rparr>"

lemma flat_version_wf: "wf_version BytewiseComparator flat_version"
  using demo_key_order by (auto simp: wf_version_def flat_version_def levels_eq demo_file_def numeral_eq_Suc less_Suc_eq)

lemma flat_seek_live: "seek_live flat_version (Some demo_seek)"
  by (simp add: seek_live_def demo_seek_def flat_version_def Version_files_def levels_eq)

definition demo_run :: compaction_run where
  "demo_run = \<lparr>rn_compaction = \<lparr>co_level = 0, co_version = flat_version, co_inputs = ([demo_file 4], []), co_grandparents = [],
     co_compact_pointer = demo_key 98\<rparr>, rn_target_file_size = 100, rn_smallest_snapshot = 10\<rparr>"

lemma flat_files: "Version_files flat_version level \<noteq> [] \<Longrightarrow> unat level < levels \<Longrightarrow> level = 0"
  by (auto simp: Version_files_def flat_version_def levels_eq numeral_eq_Suc less_Suc_eq unat_eq_0 split: nat.splits)

lemma flat_select: "SelectInitialCompaction flat_version c (replicate 7 None) (Some demo_seek) =
    Some (Some \<lparr>ic_level = 0, ic_inputs = [demo_file 4]\<rparr>)"
proof (cases "1 \<le> cs_score (ScoreCompaction flat_version)")
  case True
  from ScoreCompaction_full [OF True] have "cs_level (ScoreCompaction flat_version) = 0" by (intro flat_files) auto
  then show ?thesis using True by (simp add: SelectInitialCompaction_def Let_def Version_files_def flat_version_def)
next
  case False
  then show ?thesis by (simp add: SelectInitialCompaction_def demo_seek_def)
qed

lemma flat_setup: "CloseLevelZeroInputs flat_version BytewiseComparator 0 [demo_file 4] = Some [demo_file 4]"
  "SetupInputs flat_version BytewiseComparator 0 [demo_file 4] 100 = Some (rn_compaction demo_run)"
  by code_simp+

lemma flat_pick: "PickCompaction flat_version BytewiseComparator (replicate 7 None) (Some demo_seek) 100 = Some (Some (rn_compaction demo_run))"
  by (simp add: PickCompaction_def flat_select flat_setup)

definition demo_input :: "(bytes \<times> bytes) list" where
  "demo_input = [(ik_encoded (demo_key 97), [1]), (ik_encoded (demo_key 98), [2])]"

lemma demo_run_result: "\<exists>edit. RunCompaction demo_env list_iterator BytewiseComparator demo_run demo_input () = Some (Inr edit, ()) \<and>
    map (\<lambda>n. fm_number (nf_file n)) (ve_new_files edit) = [9]"
proof -
  have "map_option (\<lambda>(r, w). map_sum id (\<lambda>edit. map (\<lambda>n. fm_number (nf_file n)) (ve_new_files edit)) r)
      (RunCompaction demo_env list_iterator BytewiseComparator demo_run demo_input ()) = Some (Inr [9])" by code_simp
  then obtain r where r: "RunCompaction demo_env list_iterator BytewiseComparator demo_run demo_input () = Some (r, ())"
      "map_sum id (\<lambda>edit. map (\<lambda>n. fm_number (nf_file n)) (ve_new_files edit)) r = Inr [9]" by auto
  then show ?thesis by (cases r) simp_all
qed

lemma demo_input_ok: "it_SeekToFirst list_iterator demo_input = (Inr (), demo_input)" "delivers list_iterator demo_input demo_input"
  "\<forall>w. fst (ce_new_file_number demo_env w) \<noteq> 0"
  by (rule list_iterator_delivers | simp add: list_iterator_def demo_env_def)+


theorem run_compaction_installable_witness:
  "\<exists>edit b v. RunCompaction demo_env list_iterator BytewiseComparator demo_run demo_input () = Some (Inr edit, ()) \<and>
     VersionBuilder_Apply BytewiseComparator (VersionBuilder_New flat_version) edit = Inr b \<and> VersionBuilder_Build BytewiseComparator b = Inr v"
proof -
  obtain edit where edit: "RunCompaction demo_env list_iterator BytewiseComparator demo_run demo_input () = Some (Inr edit, ())"
      "map (\<lambda>n. fm_number (nf_file n)) (ve_new_files edit) = [9]" by (rule exE [OF demo_run_result], elim conjE, rule that)
  have files: "v_files flat_version ! l = (if l = 0 then [demo_file 4] else [])" if "l < levels" for l
    using that by (auto simp: flat_version_def levels_eq numeral_eq_Suc less_Suc_eq)
  have old: "\<forall>l < levels. \<forall>f \<in> set (v_files flat_version ! l). fm_number f = 4" using files by (simp add: demo_file_def)
  have new: "\<forall>n \<in> set (ve_new_files edit). fm_number (nf_file n) = 9" using edit(2) by (auto simp: map_eq_Cons_conv)
  have sorted: "sorted_entries BytewiseComparator demo_input"
    using demo_key_order demo_key_valid by (simp add: sorted_entries_def demo_input_def IsValidInternalKey_def)
  have inside: "\<forall>e \<in> set demo_input. \<exists>g \<in> set (fst (co_inputs (rn_compaction demo_run)) @ snd (co_inputs (rn_compaction demo_run))).
      InternalKeyCompare BytewiseComparator (ik_encoded (fm_smallest g)) (fst e) \<le> 0 \<and>
      InternalKeyCompare BytewiseComparator (fst e) (ik_encoded (fm_largest g)) \<le> 0"
    using demo_key_order by (simp add: demo_input_def demo_run_def demo_file_def bytewise.internal_refl)
  have "\<exists>b v. VersionBuilder_Apply BytewiseComparator (VersionBuilder_New flat_version) edit = Inr b \<and> VersionBuilder_Build BytewiseComparator b = Inr v"
    by (rule run_compaction_installable [OF bytewise.user_comparator_laws_axioms flat_version_wf flat_seek_live flat_pick _
          demo_input_ok(1,2) sorted inside demo_input_ok(3) edit(1)])
      (use old new edit(2) in auto)
  then show ?thesis using edit(1) by blast
qed

end
