(* ===== verification/Spec2Isabelle.thy ===== *)
theory Spec2Isabelle
  imports Wal_Recovery Write_Batch Version_Set_Clients Mem_Table Skip_List_Readers Filter_Blocks Compaction_Run
begin

text \<open>
  A model of modern-level-db, an embedded ordered key-value store in C++ (\<^verbatim>\<open>src/src\<close> and
  \<^verbatim>\<open>src/include\<close>), with the theorems that make its components correct.

  \<^bold>\<open>The program.\<close>  A write is a batch of operations.  It is appended to a write-ahead log and then inserted into a
  memtable, a skip list of packed entries ordered by user key and descending sequence number.  Full
  memtables become table files, and a version names the table files of each of seven levels.  The version set
  records every change of the current version as an edit in the MANIFEST, a log in the same format, and the
  file CURRENT names the MANIFEST.  Recovery reads CURRENT, replays the MANIFEST and then the logs.

  \<^bold>\<open>Conventions.\<close>  Bytes, 32-bit and 64-bit integers are words and wrap as the source's unsigned types do.
  A fallible operation returns a \<open>result\<close>, an error or a value, and every early return of the source is a
  branch of the model.  An operation of an object takes the object's record and returns it updated.  Views
  are their bytes.  Reads outside their storage in code that trusts its input are \<open>None\<close>, so a theorem that such
  code returns \<open>Some\<close> also says that it stays in bounds.  The checksum library (crc32c) is outside the sources: it is
  the parameter \<open>E\<close> of every definition that computes a checksum, and no theorem assumes anything of it.  The user's
  key order is a \<open>comparator\<close>, a record of functions; what the code relies on is the locale \<open>user_comparator_laws\<close>,
  which the bytewise comparator of the source satisfies.  System calls are scheduled outcomes that the
  definitions consume, so that a theorem over every schedule covers every behaviour of the operating system.

  \<^bold>\<open>Theories and sources.\<close>
  \<^item> \<open>Prelude\<close>: bytes, errors and results (\<^verbatim>\<open>base/result.h\<close>, \<^verbatim>\<open>base/result_internal.cc\<close>), shared lemmas.
  \<^item> \<open>Coding\<close>: fixed-width, varint and length-prefixed codecs (\<^verbatim>\<open>base/coding.cc\<close>, \<^verbatim>\<open>base/coding_internal.h\<close>).
  \<^item> \<open>Comparator\<close>, \<open>Checksum\<close>: key orders with their contract locales, CRC masking and hashing (\<^verbatim>\<open>base/comparator.cc\<close>,
    \<^verbatim>\<open>base/crc32c.cc\<close>, \<^verbatim>\<open>base/hash.cc\<close>).
  \<^item> \<open>Internal_Key\<close>, \<open>Write_Batch\<close>: internal and lookup keys, the internal comparator, and batches (\<^verbatim>\<open>format\<close>).
  \<^item> \<open>Wal_Format\<close>, \<open>Posix_Files\<close>, \<open>Wal_IO\<close>, \<open>Wal_Roundtrip\<close>, \<open>Wal_Recovery\<close>: the write-ahead log from its
    physical records down to the native files (\<^verbatim>\<open>format/wal_format.cc\<close>, \<^verbatim>\<open>wal/wal_io.cc\<close>,
    \<^verbatim>\<open>platform/posix_file_system.cc\<close>).
  \<^item> \<open>Memory_Arena\<close>, \<open>Skip_List\<close>, \<open>Skip_List_Readers\<close>, \<open>Mem_Table\<close>: the arena, the skip list as nodes and links, its
    readers interleaved with the stores of a writer, and the memtable (\<^verbatim>\<open>memory\<close>).
  \<^item> \<open>File_Names\<close>, \<open>Version_Edit\<close>, \<open>Versions\<close>: database file names, MANIFEST records, and versions with the checked and
    the trusted builder (\<^verbatim>\<open>metadata/filenames.cc\<close>, \<^verbatim>\<open>metadata/version_edit.cc\<close>, \<^verbatim>\<open>metadata/version.cc\<close>).
  \<^item> \<open>Version_Set\<close>, \<open>Manifest_Recovery\<close>, \<open>Version_Set_Clients\<close>: the version set with its persistence, recovery and
    clients (\<^verbatim>\<open>metadata/version_set.cc\<close>).
  \<^item> \<open>Compaction_Picker\<close>, \<open>Compaction_Run\<close>: the choice of a compaction and its run (\<^verbatim>\<open>engine/compaction_picker.cc\<close>,
    \<^verbatim>\<open>engine/compaction.cc\<close>).
  \<^item> \<open>Filter_Blocks\<close>: Bloom filters and the filter block of a table (\<^verbatim>\<open>table/bloom_filter.cc\<close>,
    \<^verbatim>\<open>table/filter_block.cc\<close>).

  \<^bold>\<open>What the lemmas show.\<close>
  \<^item> Codecs: decoding inverts encoding, accepts exactly the canonical forms where the source does, consumes input and
    so terminates, and the unchecked decoders agree with the checked ones where those succeed.
  \<^item> Orders: the bytewise and the internal comparator are total orders with sound separators and successors.
  \<^item> Log: for every schedule of system calls the file is a prefix of the log image of the records; reading any prefix
    returns exactly the complete records; synced records survive; a reopened log reads back without a seam.
  \<^item> Memtable: allocations are disjoint and aligned; the list refines an ordered set; searches that run beside the writer
    see a consistent list; a lookup returns the newest entry at or below its sequence, and adding entries fails only
    when the allocator, of which nothing is assumed there, refuses a block.
  \<^item> Metadata: names and edits round trip; builders give well-formed versions and accept exactly the valid edits; the
    version set keeps its invariant under every sequence of client operations, reports exactly the readable files as live,
    keeps its state when persistence fails, and applies a valid edit unless one of its file operations reports an
    error, which it returns.  The file system is arbitrary; a watched one records the errors it reports.
  \<^item> Compaction: picking returns and closes its inputs over both levels; the entries a run drops change no read that a
    snapshot can make; its outputs are the kept entries, cut in order, and the builder accepts its edit.
  \<^item> Filter blocks: a key that was added is always reported as a possible match, and a reader of arbitrary bytes stays in
    bounds.

  \<^bold>\<open>Loops.\<close>  Loops that consume input or a bounded counter are functions with a termination proof.  Loops over
  files, iterators and comparators of the user (\<open>ReadNextLoop\<close>, \<open>ReadCurrentLoop\<close>, \<open>Replay\<close>, \<open>OverlapLoop\<close>, \<open>BoundaryLoop\<close>,
  \<open>RunLoop\<close>) are partial functions whose value \<open>None\<close> is not returning; the theorems on reading logs, picking
  compactions and running them state that they return.  No fuel is used.  The interrupted system calls of a schedule are
  finite, as a list.

  \<^bold>\<open>Not modelled.\<close>  Table files other than their filter blocks, caches, the merging and database iterators and the engine
  around them: a compaction takes its merged input, its table builder and its table cache as parameters.
  The Windows back end, clocks, threads and the diagnostics, which are input and output; the lock around the version set, whose
  operations are sequential here; source locations of errors; exceptions of the allocator, except in the arena and in
  the terminal error of the version set.
\<close>

end
